(* ===== verification/Xos_Prelude.thy ===== *)
theory Xos_Prelude
  imports Main "HOL-Library.Word"
begin

section \<open>Prelude: machine types, results, lists keyed by a projection\<close>

text \<open>
  Shared vocabulary of the development: the machine integer types of the crate, the
  result type of its fallible operations, and the association-list pattern that
  \<open>src/filter.rs\<close>, \<open>src/context.rs\<close> and \<open>src/entry.rs\<close> have in common (find the first
  element with a key, overwrite it or push a new one).
\<close>

named_theorems xos_defs \<open>definitions that component proofs unfold together\<close>

subsection \<open>Machine integers and results\<close>

type_synonym u8 = "8 word"
type_synonym u32 = "32 word"
type_synonym u64 = "64 word"
type_synonym usize = "64 word"
type_synonym bytes = "u8 list"

text \<open>The error kinds that the crate itself creates or forwards (\<open>std::io::ErrorKind\<close>).\<close>

datatype io_error = NotFound | ConnectionRefused | InvalidInput | OtherError

type_synonym 'a io_result = "io_error + 'a"

definition is_ok :: "'e + 'a \<Rightarrow> bool" where
  "is_ok r = (case r of Inl _ \<Rightarrow> False | Inr _ \<Rightarrow> True)"

lemma is_ok_simps [simp]: "is_ok (Inr x)" "\<not> is_ok (Inl e)"
  by (simp_all add: is_ok_def)

lemma is_ok_iff: "is_ok r \<longleftrightarrow> (\<exists>x. r = Inr x)"
  by (cases r) auto

subsection \<open>Casts between integer types\<close>

text \<open>Rust's \<open>as u8\<close> and \<open>as i32\<close> on a wider integer keep the low bits.\<close>

definition as_u8 :: "int \<Rightarrow> int" where
  "as_u8 x = x mod 256"

definition as_u32 :: "int \<Rightarrow> int" where
  "as_u32 x = x mod 2 ^ 32"

definition as_i32 :: "int \<Rightarrow> int" where
  "as_i32 x = (x + 2 ^ 31) mod 2 ^ 32 - 2 ^ 31"

lemma as_u8_id [simp]: "0 \<le> x \<Longrightarrow> x < 256 \<Longrightarrow> as_u8 x = x"
  by (simp add: as_u8_def)

lemma as_u32_id [simp]: "0 \<le> x \<Longrightarrow> x < 2 ^ 32 \<Longrightarrow> as_u32 x = x"
  by (simp add: as_u32_def)

lemma as_i32_id [simp]: "- (2 ^ 31) \<le> x \<Longrightarrow> x < 2 ^ 31 \<Longrightarrow> as_i32 x = x"
  by (simp add: as_i32_def)

text \<open>\<open>u64::saturating_add\<close>.\<close>

definition saturating_add :: "u64 \<Rightarrow> u64 \<Rightarrow> u64" where
  "saturating_add a b = (if unat a + unat b < 2 ^ 64 then a + b else - 1)"

lemma unat_saturating_add:
  "unat (saturating_add a b) = min (unat a + unat b) (2 ^ 64 - 1)"
  by (auto simp: saturating_add_def unat_word_ariths unsigned_minus_1_eq_mask mask_eq_exp_minus_1)

subsection \<open>Lists with a key\<close>

text \<open>
  \<open>upsert key x xs\<close> is the code's \<open>match xs.iter_mut().find(...) { Some(e) => *e = x,
  None => xs.push(x) }\<close>: overwrite the first element with the key of \<open>x\<close>, or append.
\<close>

fun upsert :: "('a \<Rightarrow> 'k) \<Rightarrow> 'a \<Rightarrow> 'a list \<Rightarrow> 'a list" where
  "upsert key x [] = [x]"
| "upsert key x (y # ys) = (if key y = key x then x # ys else y # upsert key x ys)"

definition find_key :: "('a \<Rightarrow> 'k) \<Rightarrow> 'k \<Rightarrow> 'a list \<Rightarrow> 'a option" where
  "find_key key k xs = find (\<lambda>x. key x = k) xs"

lemma find_key_simps [simp]:
  "find_key key k [] = None"
  "find_key key k (x # xs) = (if key x = k then Some x else find_key key k xs)"
  by (simp_all add: find_key_def)

lemma find_key_None_iff: "find_key key k xs = None \<longleftrightarrow> k \<notin> key ` set xs"
  by (induction xs) auto

lemma find_key_SomeD: "find_key key k xs = Some x \<Longrightarrow> x \<in> set xs \<and> key x = k"
  by (induction xs) (auto split: if_splits)

lemma find_key_distinct:
  "distinct (map key xs) \<Longrightarrow> x \<in> set xs \<Longrightarrow> find_key key (key x) xs = Some x"
  by (induction xs) auto

lemma find_key_append:
  "find_key key k (xs @ ys) =
     (case find_key key k xs of None \<Rightarrow> find_key key k ys | Some x \<Rightarrow> Some x)"
  by (induction xs) auto

lemma upsert_keys:
  "map key (upsert key x xs) =
     (if key x \<in> key ` set xs then map key xs else map key xs @ [key x])"
  by (induction xs) auto

lemma upsert_find:
  "find_key key k (upsert key x xs) = (if k = key x then Some x else find_key key k xs)"
  by (induction xs) auto

lemma upsert_set: "set (upsert key x xs) \<subseteq> insert x (set xs)"
  by (induction xs) auto

text \<open>
  The contract of a keyed store, as the clients use it: what the keys and a lookup are after
  a \<open>put\<close>. Everything the filter and the context code rely on follows from the two laws.
\<close>

locale keyed_store =
  fixes key :: "'a \<Rightarrow> 'k"
    and put :: "'a \<Rightarrow> 'a list \<Rightarrow> 'a list"
  assumes put_keys: "map key (put x xs) =
      (if key x \<in> key ` set xs then map key xs else map key xs @ [key x])"
    and put_find: "find_key key k (put x xs) = (if k = key x then Some x else find_key key k xs)"
begin

definition puts :: "'a list \<Rightarrow> 'a list \<Rightarrow> 'a list" where
  "puts new xs = fold put new xs"

lemma puts_simps [simp]:
  "puts [] xs = xs" "puts (x # new) xs = puts new (put x xs)"
  by (simp_all add: puts_def)

lemma put_distinct: "distinct (map key xs) \<Longrightarrow> distinct (map key (put x xs))"
  by (auto simp: put_keys)

lemma puts_distinct: "distinct (map key xs) \<Longrightarrow> distinct (map key (puts new xs))"
  by (induction new arbitrary: xs) (auto intro: put_distinct)

lemma put_key_set: "key ` set (put x xs) = insert (key x) (key ` set xs)"
proof -
  have "key ` set (put x xs) = set (map key (put x xs))" by simp
  also have "\<dots> = insert (key x) (key ` set xs)" by (simp only: put_keys) auto
  finally show ?thesis .
qed

lemma puts_key_set: "key ` set (puts new xs) = key ` set xs \<union> key ` set new"
  by (induction new arbitrary: xs) (auto simp: put_key_set)

text \<open>The last element put under a key is the one found.\<close>

lemma puts_find:
  "find_key key k (puts new xs) =
     (case find_key key k (rev new) of None \<Rightarrow> find_key key k xs | Some x \<Rightarrow> Some x)"
  by (induction new arbitrary: xs) (auto simp: put_find find_key_append split: option.splits)

lemma puts_keys_prefix: "\<exists>ks. map key (puts new xs) = map key xs @ ks"
proof (induction new arbitrary: xs)
  case (Cons x new)
  obtain ks where "map key (puts new (put x xs)) = map key (put x xs) @ ks"
    using Cons.IH by blast
  then show ?case by (auto simp: put_keys split: if_splits)
qed simp

end

interpretation upsert_store: keyed_store key "upsert key" for key :: "'a \<Rightarrow> 'k"
  by unfold_locales (simp_all add: upsert_keys upsert_find)

subsection \<open>List facts\<close>

lemma takeWhile_append_not:
  "(\<forall>x \<in> set xs. P x) \<Longrightarrow> \<not> P y \<Longrightarrow> takeWhile P (xs @ y # ys) = xs"
  by (induction xs) auto

lemma dropWhile_append_not:
  "(\<forall>x \<in> set xs. P x) \<Longrightarrow> \<not> P y \<Longrightarrow> dropWhile P (xs @ y # ys) = y # ys"
  by (induction xs) auto

end
