(* ===== verification/Xos_Channel.thy ===== *)
theory Xos_Channel
  imports Xos_Prelude
begin

section \<open>The bounded queue (\<open>std::sync::mpsc::sync_channel\<close>)\<close>

text \<open>
  The channel between callers and the writer thread: a queue of bounded length whose receiving end
  may be gone. With capacity 0 a message is handed over only while the receiver waits. The laws the
  logger relies on are a locale.
\<close>

record 'm chan =
  ch_queue :: "'m list"
  ch_capacity :: nat
  ch_waiting :: bool
  ch_alive :: bool

definition sync_channel :: "nat \<Rightarrow> 'm chan" where
  "sync_channel capacity = \<lparr>ch_queue = [], ch_capacity = capacity, ch_waiting = False, ch_alive = True\<rparr>"

definition chan_room :: "'m chan \<Rightarrow> bool" where
  "chan_room c \<longleftrightarrow> length (ch_queue c) < ch_capacity c \<or>
     ch_capacity c = 0 \<and> ch_queue c = [] \<and> ch_waiting c"

text \<open>\<open>try_send\<close>, and \<open>send\<close> at the moment it goes through.\<close>

definition chan_send :: "'m \<Rightarrow> 'm chan \<Rightarrow> 'm chan option" where
  "chan_send m c = (if ch_alive c \<and> chan_room c then Some (c\<lparr>ch_queue := ch_queue c @ [m]\<rparr>) else None)"

definition chan_full :: "'m chan \<Rightarrow> bool" where
  "chan_full c \<longleftrightarrow> ch_alive c \<and> \<not> chan_room c"

text \<open>The receiver takes a message and works on it until it waits again.\<close>

definition chan_recv :: "'m chan \<Rightarrow> ('m \<times> 'm chan) option" where
  "chan_recv c = (case ch_queue c of
     [] \<Rightarrow> None
   | m # q \<Rightarrow> Some (m, c\<lparr>ch_queue := q, ch_waiting := False\<rparr>))"

definition chan_wait :: "'m chan \<Rightarrow> 'm chan" where
  "chan_wait c = c\<lparr>ch_waiting := True\<rparr>"

text \<open>Dropping the receiver discards what is queued.\<close>

definition chan_close :: "'m chan \<Rightarrow> 'm chan" where
  "chan_close c = c\<lparr>ch_queue := [], ch_waiting := False, ch_alive := False\<rparr>"

lemma chan_simps [simp]:
  "ch_queue (chan_wait c) = ch_queue c" "ch_alive (chan_wait c) = ch_alive c"
  "ch_capacity (chan_wait c) = ch_capacity c" "ch_waiting (chan_wait c)"
  "ch_queue (chan_close c) = []" "\<not> ch_alive (chan_close c)" "ch_capacity (chan_close c) = ch_capacity c"
  "\<not> ch_waiting (chan_close c)"
  by (simp_all add: chan_wait_def chan_close_def)

text \<open>First in, first out, within the bound.\<close>

locale fifo_channel =
  fixes contents :: "'c \<Rightarrow> 'm list"
    and limit :: "'c \<Rightarrow> nat"
    and put :: "'m \<Rightarrow> 'c \<Rightarrow> 'c option"
    and get :: "'c \<Rightarrow> ('m \<times> 'c) option"
  assumes put_contents: "put m c = Some c' \<Longrightarrow> contents c' = contents c @ [m]"
    and put_limit: "put m c = Some c' \<Longrightarrow> limit c' = limit c \<and> length (contents c') \<le> max 1 (limit c)"
    and get_contents: "get c = Some (m, c') \<Longrightarrow> contents c = m # contents c'"
    and get_limit: "get c = Some (m, c') \<Longrightarrow> limit c' = limit c"
    and get_None: "get c = None \<longleftrightarrow> contents c = []"
begin

text \<open>What was sent is what was received, then what is still queued.\<close>

definition accounts :: "'m list \<Rightarrow> 'm list \<Rightarrow> 'c \<Rightarrow> bool" where
  "accounts sent got c \<longleftrightarrow> sent = got @ contents c \<and> length (contents c) \<le> max 1 (limit c)"

lemma accounts_put: "accounts sent got c \<Longrightarrow> put m c = Some c' \<Longrightarrow> accounts (sent @ [m]) got c'"
  using put_contents [of m c c'] put_limit [of m c c'] by (simp add: accounts_def)

lemma accounts_get: "accounts sent got c \<Longrightarrow> get c = Some (m, c') \<Longrightarrow> accounts sent (got @ [m]) c'"
  using get_contents [of c m c'] get_limit [of c m c'] by (simp add: accounts_def)

end

lemma chan_send_laws:
  "chan_send m c = Some c' \<Longrightarrow> ch_queue c' = ch_queue c @ [m]"
  "chan_send m c = Some c' \<Longrightarrow> ch_capacity c' = ch_capacity c \<and> length (ch_queue c') \<le> max 1 (ch_capacity c)"
  by (auto simp: chan_send_def chan_room_def split: if_splits)

lemma chan_recv_laws:
  "chan_recv c = Some (m, c') \<Longrightarrow> ch_queue c = m # ch_queue c'"
  "chan_recv c = Some (m, c') \<Longrightarrow> ch_capacity c' = ch_capacity c"
  "chan_recv c = None \<longleftrightarrow> ch_queue c = []"
  by (auto simp: chan_recv_def split: list.splits)

interpretation mpsc: fifo_channel ch_queue ch_capacity chan_send chan_recv
  by unfold_locales (fact chan_send_laws chan_recv_laws)+

end
