(* ===== verification/Xos_Str.thy ===== *)
theory Xos_Str
  imports Xos_Prelude
begin

section \<open>Rust strings: scalar values, UTF-8, trimming, splitting, integer formatting\<close>

text \<open>
  What the crate uses of \<open>str\<close>, \<open>String\<close> and \<open>char\<close> of the standard library. A string is the
  list of its Unicode scalar values (\<open>chars()\<close>), each a \<open>nat\<close>; \<open>scalar\<close> says which naturals
  are scalar values and \<open>utf8\<close> gives the bytes (\<open>as_bytes()\<close>), whose number is \<open>len()\<close>.
  \<open>from_utf8_lossy\<close> follows the standard library's decoder: a maximal prefix of an
  ill-formed sequence becomes one U+FFFD.
\<close>

type_synonym rchar = nat
type_synonym rstr = "nat list"

text \<open>A string literal of the source (ASCII).\<close>

definition lit :: "string \<Rightarrow> rstr" where
  "lit s = map of_char s"

lemma lit_simps [simp]:
  "lit [] = []"
  "lit (c # s) = of_char c # lit s"
  by (simp_all add: lit_def)

lemma lit_append [simp]: "lit (s @ t) = lit s @ lit t"
  by (simp add: lit_def)

definition scalar :: "rchar \<Rightarrow> bool" where
  "scalar c \<longleftrightarrow> c < 0xD800 \<or> 0xE000 \<le> c \<and> c < 0x110000"

definition valid_str :: "rstr \<Rightarrow> bool" where
  "valid_str s \<longleftrightarrow> (\<forall>c \<in> set s. scalar c)"

lemma valid_str_simps [simp]:
  "valid_str []"
  "valid_str (c # s) \<longleftrightarrow> scalar c \<and> valid_str s"
  "valid_str (s @ t) \<longleftrightarrow> valid_str s \<and> valid_str t"
  by (auto simp: valid_str_def)

lemma scalar_ascii [simp]: "c < 128 \<Longrightarrow> scalar c"
  by (simp add: scalar_def)

subsection \<open>Character classes\<close>

text \<open>\<open>char::is_whitespace\<close> (the Unicode property White\_Space).\<close>

definition is_whitespace :: "rchar \<Rightarrow> bool" where
  "is_whitespace c \<longleftrightarrow>
     9 \<le> c \<and> c \<le> 13 \<or> c = 32 \<or> c = 0x85 \<or> c = 0xA0 \<or> c = 0x1680 \<or>
     0x2000 \<le> c \<and> c \<le> 0x200A \<or> c = 0x2028 \<or> c = 0x2029 \<or> c = 0x202F \<or> c = 0x205F \<or> c = 0x3000"

text \<open>\<open>char::is_control\<close> (the Unicode category Cc).\<close>

definition is_control :: "rchar \<Rightarrow> bool" where
  "is_control c \<longleftrightarrow> c < 32 \<or> 127 \<le> c \<and> c \<le> 159"

definition is_ascii_alphanumeric :: "rchar \<Rightarrow> bool" where
  "is_ascii_alphanumeric c \<longleftrightarrow>
     48 \<le> c \<and> c \<le> 57 \<or> 65 \<le> c \<and> c \<le> 90 \<or> 97 \<le> c \<and> c \<le> 122"

definition to_ascii_lowercase_char :: "rchar \<Rightarrow> rchar" where
  "to_ascii_lowercase_char c = (if 65 \<le> c \<and> c \<le> 90 then c + 32 else c)"

definition to_ascii_lowercase :: "rstr \<Rightarrow> rstr" where
  "to_ascii_lowercase s = map to_ascii_lowercase_char s"

lemma to_ascii_lowercase_idem [simp]:
  "to_ascii_lowercase (to_ascii_lowercase s) = to_ascii_lowercase s"
  by (simp add: to_ascii_lowercase_def to_ascii_lowercase_char_def)

subsection \<open>Trimming, prefixes, splitting\<close>

definition trim_start :: "rstr \<Rightarrow> rstr" where
  "trim_start s = dropWhile is_whitespace s"

definition trim_end :: "rstr \<Rightarrow> rstr" where
  "trim_end s = rev (dropWhile is_whitespace (rev s))"

definition trim :: "rstr \<Rightarrow> rstr" where
  "trim s = trim_end (trim_start s)"

definition strip_prefix :: "rstr \<Rightarrow> rstr \<Rightarrow> rstr option" where
  "strip_prefix p s = (if take (length p) s = p then Some (drop (length p) s) else None)"

definition starts_with :: "rstr \<Rightarrow> rstr \<Rightarrow> bool" where
  "starts_with p s \<longleftrightarrow> take (length p) s = p"

lemma strip_prefix_Some_iff: "strip_prefix p s = Some r \<longleftrightarrow> s = p @ r"
  by (auto simp: strip_prefix_def) (metis append_take_drop_id)

lemma starts_with_iff: "starts_with p s \<longleftrightarrow> (\<exists>r. s = p @ r)"
  unfolding starts_with_def by (metis append_eq_conv_conj append_take_drop_id)

text \<open>\<open>str::split(char)\<close>: always at least one piece, the empty string for the empty string.\<close>

fun str_split :: "rchar \<Rightarrow> rstr \<Rightarrow> rstr list" where
  "str_split sep [] = [[]]"
| "str_split sep (c # cs) =
     (if c = sep then [] # str_split sep cs
      else case str_split sep cs of [] \<Rightarrow> [[c]] | p # ps \<Rightarrow> (c # p) # ps)"

lemma str_split_nonempty [simp]: "str_split sep s \<noteq> []"
  by (induction s) (auto split: list.splits)

lemma str_split_no_sep: "sep \<notin> set s \<Longrightarrow> str_split sep s = [s]"
  by (induction s) auto

lemma str_split_append_sep:
  "sep \<notin> set s \<Longrightarrow> str_split sep (s @ sep # t) = s # str_split sep t"
  by (induction s) auto

lemma str_split_pieces: "p \<in> set (str_split sep s) \<Longrightarrow> sep \<notin> set p"
  by (induction s arbitrary: p) (auto split: list.splits if_splits)

lemma hd_str_split: "hd (str_split sep s) = takeWhile (\<lambda>c. c \<noteq> sep) s"
  by (induction s) (auto split: list.splits)

lemma trim_id:
  "s = [] \<or> (\<not> is_whitespace (hd s) \<and> \<not> is_whitespace (last s)) \<Longrightarrow> trim s = s"
proof (cases s rule: rev_cases)
  case (snoc ys y)
  assume "s = [] \<or> (\<not> is_whitespace (hd s) \<and> \<not> is_whitespace (last s))"
  with snoc have "dropWhile is_whitespace s = s" and "\<not> is_whitespace y"
    by (simp_all add: dropWhile_eq_self_iff)
  with snoc show ?thesis by (simp add: trim_def trim_start_def trim_end_def)
qed (simp add: trim_def trim_start_def trim_end_def)

lemma dropWhile_all_or_hd:
  "dropWhile P s = [] \<or> \<not> P (hd (dropWhile P s))"
  using hd_dropWhile [of P s] by (cases "dropWhile P s = []") auto

lemma trim_end_hd: "trim_end s \<noteq> [] \<Longrightarrow> hd (trim_end s) = hd s"
proof -
  assume ne: "trim_end s \<noteq> []"
  have "s = trim_end s @ rev (takeWhile is_whitespace (rev s))"
    unfolding trim_end_def by (metis rev_append rev_rev_ident takeWhile_dropWhile_id)
  with ne show ?thesis by (metis hd_append2)
qed

lemma trim_ends:
  "trim s = [] \<or> (\<not> is_whitespace (hd (trim s)) \<and> \<not> is_whitespace (last (trim s)))"
proof (cases "trim s = []")
  case False
  then have hd: "hd (trim s) = hd (trim_start s)" by (simp add: trim_def trim_end_hd)
  have "dropWhile is_whitespace s \<noteq> []"
    using False by (auto simp add: trim_def trim_end_def trim_start_def simp del: dropWhile_eq_Nil_conv)
  then have "\<not> is_whitespace (hd (trim s))"
    using dropWhile_all_or_hd [of is_whitespace s] unfolding hd trim_start_def by blast
  moreover have "last (trim s) = hd (dropWhile is_whitespace (rev (trim_start s)))"
    using False by (simp add: trim_def trim_end_def last_rev)
  ultimately show ?thesis
    using False dropWhile_all_or_hd [of is_whitespace "rev (trim_start s)"]
    by (auto simp: trim_def trim_end_def)
qed simp

lemma trim_idem [simp]: "trim (trim s) = trim s"
  by (rule trim_id) (rule trim_ends)

lemma set_trim: "set (trim s) \<subseteq> set s"
  by (auto simp: trim_def trim_end_def trim_start_def dest!: set_dropWhileD)

subsection \<open>Integer formatting\<close>

text \<open>\<open>{}\<close> on an unsigned integer.\<close>

fun fmt_nat :: "nat \<Rightarrow> rstr" where
  "fmt_nat n = (if n < 10 then [48 + n] else fmt_nat (n div 10) @ [48 + n mod 10])"

declare fmt_nat.simps [simp del]

lemma fmt_nat_small: "n < 10 \<Longrightarrow> fmt_nat n = [48 + n]"
  by (subst fmt_nat.simps) simp

lemma fmt_nat_big: "10 \<le> n \<Longrightarrow> fmt_nat n = fmt_nat (n div 10) @ [48 + n mod 10]"
  by (subst fmt_nat.simps) simp

definition is_digit :: "rchar \<Rightarrow> bool" where
  "is_digit c \<longleftrightarrow> 48 \<le> c \<and> c \<le> 57"

lemma fmt_nat_digits: "c \<in> set (fmt_nat n) \<Longrightarrow> is_digit c"
proof (induction n rule: fmt_nat.induct)
  case (1 n)
  then show ?case
    by (cases "n < 10") (auto simp: fmt_nat_small fmt_nat_big is_digit_def)
qed

lemma fmt_nat_nonempty [simp]: "fmt_nat n \<noteq> []"
  by (subst fmt_nat.simps) simp

text \<open>\<open>{:0w}\<close> and \<open>{:w}\<close>: zero and space padding to a width.\<close>

definition pad_zero :: "nat \<Rightarrow> rstr \<Rightarrow> rstr" where
  "pad_zero w s = replicate (w - length s) 48 @ s"

definition pad_space :: "nat \<Rightarrow> rstr \<Rightarrow> rstr" where
  "pad_space w s = replicate (w - length s) 32 @ s"

text \<open>\<open>{}\<close> and \<open>{:0w}\<close> on a signed integer: the sign counts toward the width.\<close>

definition fmt_int :: "int \<Rightarrow> rstr" where
  "fmt_int i = (if i < 0 then 45 # fmt_nat (nat (- i)) else fmt_nat (nat i))"

definition fmt_int0 :: "nat \<Rightarrow> int \<Rightarrow> rstr" where
  "fmt_int0 w i =
     (if i < 0 then 45 # pad_zero (w - 1) (fmt_nat (nat (- i))) else pad_zero w (fmt_nat (nat i)))"

text \<open>\<open>{:04x}\<close>.\<close>

definition hex_digit :: "nat \<Rightarrow> rchar" where
  "hex_digit d = (if d < 10 then 48 + d else 87 + d)"

fun fmt_hex :: "nat \<Rightarrow> rstr" where
  "fmt_hex n = (if n < 16 then [hex_digit n] else fmt_hex (n div 16) @ [hex_digit (n mod 16)])"

declare fmt_hex.simps [simp del]

text \<open>Reading a digit string back.\<close>

definition dec_val :: "rstr \<Rightarrow> nat" where
  "dec_val s = foldl (\<lambda>v c. 10 * v + (c - 48)) 0 s"

lemma dec_val_append1 [simp]: "dec_val (s @ [c]) = 10 * dec_val s + (c - 48)"
  by (simp add: dec_val_def)

lemma dec_val_fmt_nat [simp]: "dec_val (fmt_nat n) = n"
proof (induction n rule: fmt_nat.induct)
  case (1 n)
  then show ?case
    by (cases "n < 10") (auto simp: fmt_nat_small fmt_nat_big dec_val_def)
qed

lemma dec_val_pad [simp]: "dec_val (replicate k 48 @ s) = dec_val s"
  by (induction k) (auto simp: dec_val_def)

lemma dec_val_pad_zero [simp]: "dec_val (pad_zero w s) = dec_val s"
  by (simp add: pad_zero_def)

lemma fmt_nat_inject [simp]: "fmt_nat m = fmt_nat n \<longleftrightarrow> m = n"
  by (metis dec_val_fmt_nat)

lemma length_fmt_nat: "n < 10 ^ k \<Longrightarrow> 0 < k \<Longrightarrow> length (fmt_nat n) \<le> k"
proof (induction n arbitrary: k rule: fmt_nat.induct)
  case (1 n)
  show ?case
  proof (cases "n < 10")
    case True
    with 1 show ?thesis by (simp add: fmt_nat_small)
  next
    case False
    then obtain k' where k: "k = Suc k'" "0 < k'"
      using 1 by (cases k; cases "k - 1") auto
    with 1 False have "n div 10 < 10 ^ k'" by auto
    with False k 1 show ?thesis by (simp add: fmt_nat_big)
  qed
qed

lemma length_pad_zero: "length (pad_zero w s) = max w (length s)"
  by (simp add: pad_zero_def)

end
