(* ===== verification/Xos_Time.thy ===== *)
theory Xos_Time
  imports Xos_Str
begin

section \<open>Wall-clock timestamps (\<open>src/time.rs\<close>)\<close>

text \<open>
  The conversion of a microsecond count into calendar fields (\<open>civil_from_days\<close>,
  \<open>from_unix_micros\<close>), \<open>Timestamp::now\<close> over a given clock reading and the RFC 3339 \<open>Display\<close>.
  The reference is the Gregorian calendar itself: leap years, lengths of months and the number of
  days before a year. The code's \<open>i128\<close> arithmetic is on \<open>int\<close> (a reading of the clock is far
  from its bounds); the casts to \<open>u8\<close>, \<open>u32\<close> and \<open>i32\<close> are written out.
\<close>

text \<open>\<open>SystemTime\<close>: nanoseconds since the Unix epoch, negative before it.\<close>

type_synonym system_time = int

definition MICROS_PER_SECOND :: int where "MICROS_PER_SECOND = 1000000"
definition MICROS_PER_MINUTE :: int where "MICROS_PER_MINUTE = 60000000"
definition MICROS_PER_HOUR :: int where "MICROS_PER_HOUR = 3600000000"
definition MICROS_PER_DAY :: int where "MICROS_PER_DAY = 86400000000"

lemmas micros_defs [xos_defs] =
  MICROS_PER_SECOND_def MICROS_PER_MINUTE_def MICROS_PER_HOUR_def MICROS_PER_DAY_def

record timestamp =
  ts_year :: int
  ts_month :: int
  ts_day :: int
  ts_hour :: int
  ts_minute :: int
  ts_second :: int
  ts_microsecond :: int
  ts_offset_seconds :: int

text \<open>Rust's \<open>/\<close> on signed integers truncates toward zero.\<close>

definition quot :: "int \<Rightarrow> int \<Rightarrow> int" where
  "quot a b = sgn a * sgn b * (\<bar>a\<bar> div \<bar>b\<bar>)"

lemma quot_nonneg [simp]: "0 \<le> a \<Longrightarrow> 0 < b \<Longrightarrow> quot a b = a div b"
  by (cases "a = 0") (simp_all add: quot_def)

subsection \<open>The code\<close>

definition unix_micros :: "system_time \<Rightarrow> int" where
  "unix_micros now =
     (if 0 \<le> now then
        now div 1000000000 * MICROS_PER_SECOND + now mod 1000000000 div 1000
      else
        (let d = - now in - (d div 1000000000) * MICROS_PER_SECOND - d mod 1000000000 div 1000))"

definition civil_from_days :: "int \<Rightarrow> int \<times> int \<times> int" where
  "civil_from_days days =
     (let z = days + 719468;
          era = quot (if z \<ge> 0 then z else z - 146096) 146097;
          doe = z - era * 146097;
          yoe = quot (doe - quot doe 1460 + quot doe 36524 - quot doe 146096) 365;
          year = yoe + era * 400;
          doy = doe - (365 * yoe + quot yoe 4 - quot yoe 100);
          mp = quot (5 * doy + 2) 153;
          day = as_u8 (doy - quot (153 * mp + 2) 5 + 1);
          month = as_u8 (if mp < 10 then mp + 3 else mp - 9);
          year = (if month \<le> 2 then year + 1 else year)
      in (as_i32 year, month, day))"

definition from_unix_micros :: "int \<Rightarrow> int \<Rightarrow> timestamp" where
  "from_unix_micros micros offset_seconds =
     (let days = micros div MICROS_PER_DAY;
          rem = micros mod MICROS_PER_DAY;
          hour = as_u8 (rem div MICROS_PER_HOUR);
          minute = as_u8 (rem mod MICROS_PER_HOUR div MICROS_PER_MINUTE);
          second = as_u8 (rem mod MICROS_PER_MINUTE div MICROS_PER_SECOND);
          microsecond = as_u32 (rem mod MICROS_PER_SECOND);
          (year, month, day) = civil_from_days days
      in \<lparr>ts_year = year, ts_month = month, ts_day = day, ts_hour = hour, ts_minute = minute,
          ts_second = second, ts_microsecond = microsecond, ts_offset_seconds = offset_seconds\<rparr>)"

definition timestamp_now :: "system_time \<Rightarrow> int \<Rightarrow> timestamp" where
  "timestamp_now now offset_seconds =
     (let micros = unix_micros now + offset_seconds * MICROS_PER_SECOND
      in from_unix_micros micros offset_seconds)"

definition display_offset :: "int \<Rightarrow> rstr" where
  "display_offset off =
     (if off = 0 then lit ''Z''
      else (let sign = (if off < 0 then 45 else 43); a = nat \<bar>off\<bar>
            in sign # pad_zero 2 (fmt_nat (a div 3600)) @ lit '':''
                 @ pad_zero 2 (fmt_nat (a mod 3600 div 60))))"

definition display_timestamp :: "timestamp \<Rightarrow> rstr" where
  "display_timestamp t =
     fmt_int0 4 (ts_year t) @ lit ''-'' @ fmt_int0 2 (ts_month t) @ lit ''-'' @ fmt_int0 2 (ts_day t)
       @ lit ''T'' @ fmt_int0 2 (ts_hour t) @ lit '':'' @ fmt_int0 2 (ts_minute t) @ lit '':''
       @ fmt_int0 2 (ts_second t) @ lit ''.'' @ fmt_int0 6 (ts_microsecond t)
       @ display_offset (ts_offset_seconds t)"

subsection \<open>The Gregorian calendar\<close>

definition is_leap :: "int \<Rightarrow> bool" where
  "is_leap y \<longleftrightarrow> y mod 4 = 0 \<and> (y mod 100 \<noteq> 0 \<or> y mod 400 = 0)"

definition days_in_month :: "int \<Rightarrow> int \<Rightarrow> int" where
  "days_in_month y m =
     (if m = 2 then (if is_leap y then 29 else 28)
      else if m = 4 \<or> m = 6 \<or> m = 9 \<or> m = 11 then 30 else 31)"

definition valid_date :: "int \<Rightarrow> int \<Rightarrow> int \<Rightarrow> bool" where
  "valid_date y m d \<longleftrightarrow> 1 \<le> m \<and> m \<le> 12 \<and> 1 \<le> d \<and> d \<le> days_in_month y m"

text \<open>Days from the first day of year 1 to the first day of year \<open>y\<close>, in either direction.\<close>

definition days_before_year :: "int \<Rightarrow> int" where
  "days_before_year y = 365 * (y - 1) + (y - 1) div 4 - (y - 1) div 100 + (y - 1) div 400"

definition days_before_month :: "int \<Rightarrow> int \<Rightarrow> int" where
  "days_before_month y m = sum_list (map (days_in_month y) [1..m - 1])"

text \<open>Days since 1970-01-01.\<close>

definition days_from_civil :: "int \<Rightarrow> int \<Rightarrow> int \<Rightarrow> int" where
  "days_from_civil y m d = days_before_year y + days_before_month y m + (d - 1) - 719162"

lemma div_pred: "0 < k \<Longrightarrow> (y::int) div k = (y - 1) div k + (if y mod k = 0 then 1 else 0)"
proof -
  assume k: "0 < k"
  have y: "y = k * (y div k) + y mod k" by simp
  show ?thesis
  proof (cases "y mod k = 0")
    case True
    have "(y - 1) div k = y div k - 1"
      by (rule int_div_pos_eq [of _ _ _ "k - 1"]) (use y k True in \<open>simp_all add: algebra_simps\<close>)
    with True show ?thesis by simp
  next
    case False
    have "0 \<le> y mod k" "y mod k < k" using k by simp_all
    then have "(y - 1) div k = y div k"
      using False y k by (intro int_div_pos_eq [of _ _ _ "y mod k - 1"]) linarith+
    with False show ?thesis by simp
  qed
qed

lemma leap_mod: "y mod 400 = 0 \<Longrightarrow> y mod 100 = 0" "y mod 100 = 0 \<Longrightarrow> y mod 4 = 0" for y :: int
  using dvd_trans [of 100 400 y] dvd_trans [of 4 100 y] by (simp_all add: mod_eq_0_iff_dvd)

lemma days_before_year_step:
  "days_before_year (y + 1) = days_before_year y + (if is_leap y then 366 else 365)"
proof -
  have count: "365 * y + a' - b' + c' =
      365 * (y - 1) + a - b + c + (if p \<and> (\<not> q \<or> r) then 366 else 365)"
    if "a' = a + (if p then 1 else 0)" "b' = b + (if q then 1 else 0)"
      "c' = c + (if r then 1 else 0)" "r \<longrightarrow> q" "q \<longrightarrow> p" for a a' b b' c c' :: int and p q r
    using that by (cases p; cases q; cases r) simp_all
  show ?thesis
    unfolding days_before_year_def is_leap_def add_diff_cancel_right'
    by (rule count [OF div_pred div_pred div_pred]) (use leap_mod in auto)
qed

lemma days_before_month_table:
  defines "l y \<equiv> if is_leap y then 1 else 0"
  shows "days_before_month y 1 = 0" "days_before_month y 2 = 31"
    "days_before_month y 3 = 59 + l y" "days_before_month y 4 = 90 + l y"
    "days_before_month y 5 = 120 + l y" "days_before_month y 6 = 151 + l y"
    "days_before_month y 7 = 181 + l y" "days_before_month y 8 = 212 + l y"
    "days_before_month y 9 = 243 + l y" "days_before_month y 10 = 273 + l y"
    "days_before_month y 11 = 304 + l y" "days_before_month y 12 = 334 + l y"
  unfolding l_def days_before_month_def by (simp_all add: upto_rec1 days_in_month_def)

subsection \<open>The conversion algorithm\<close>

text \<open>The era: the code's truncating division, adjusted for negative values, is the floor.\<close>

lemma div_as_neg: "0 < n \<Longrightarrow> (z::int) div n = - ((n - 1 - z) div n)"
proof -
  assume n: "0 < n"
  have z: "z = n * (z div n) + z mod n" by simp
  have m: "0 \<le> z mod n" "z mod n < n" using n by simp_all
  have "(n - 1 - z) div n = - (z div n)"
  proof (rule int_div_pos_eq [of _ _ _ "n - 1 - z mod n"])
    show "n - 1 - z = n * - (z div n) + (n - 1 - z mod n)"
      unfolding mult_minus_right using z by linarith
  qed (use m in linarith)+
  then show ?thesis by simp
qed

lemma era_floor: "quot (if z \<ge> 0 then z else z - 146096) 146097 = z div 146097"
proof (cases "z \<ge> 0")
  case False
  then have "quot (z - 146096) 146097 = - ((146096 - z) div 146097)" by (simp add: quot_def)
  also have "\<dots> = z div 146097" using div_as_neg [of 146097 z] by simp
  finally show ?thesis using False by simp
qed simp

text \<open>
  Year of the era. A day of the era is written as whole centuries \<open>c\<close>, four-year cycles \<open>q\<close>,
  years \<open>a\<close> and days \<open>t\<close>; the code's formula finds \<open>100 c + 4 q + a\<close>.
\<close>

lemma yoe_formula:
  fixes c q a t :: int
  assumes doe: "doe = 36524 * c + 1461 * q + 365 * a + t"
    and c: "0 \<le> c" "c \<le> 3" and q: "0 \<le> q" "q \<le> 24" and a: "0 \<le> a" "a \<le> 3" and t: "0 \<le> t"
    and last: "t < 365 \<or> a = 3 \<and> t = 365" and cent: "1461 * q + 365 * a + t < 36524"
  shows "(doe - doe div 1460 + doe div 36524 - doe div 146096) div 365 = 100 * c + 4 * q + a"
proof -
  define e :: int where "e = (if 1460 \<le> 24 * c + q + 365 * a + t then 1 else 0)"
  have "doe div 36524 = c"
    by (rule int_div_pos_eq [of _ _ _ "1461 * q + 365 * a + t"]) (use assms in auto)
  moreover have "doe div 146096 = 0"
    by (rule div_pos_pos_trivial) (use assms in auto)
  moreover have "doe div 1460 = 25 * c + q + e"
    by (rule int_div_pos_eq [of _ _ _ "24 * c + q + 365 * a + t - 1460 * e"])
      (use assms in \<open>auto simp: e_def\<close>)
  ultimately have "doe - doe div 1460 + doe div 36524 - doe div 146096 =
      365 * (100 * c + 4 * q + a) + (t - e)"
    using doe by simp
  moreover have "0 \<le> t - e" "t - e < 365" using assms by (auto simp: e_def)
  ultimately show ?thesis by (intro int_div_pos_eq) auto
qed

lemma yoe_quarter: "0 \<le> (q::int) \<Longrightarrow> q \<le> 24 \<Longrightarrow> 0 \<le> a \<Longrightarrow> a \<le> 3 \<Longrightarrow>
    (100 * c + 4 * q + a) div 4 = 25 * c + q \<and> (100 * c + 4 * q + a) div 100 = c"
  by (auto intro: int_div_pos_eq [of _ _ _ a] int_div_pos_eq [of _ _ _ "4 * q + a"])

lemma is_leap_cycle:
  "1 \<le> k \<Longrightarrow> k \<le> 24 \<Longrightarrow> is_leap (100 * c + 4 * k)" "is_leap (400 * e)" for c k e :: int
proof -
  assume k: "1 \<le> k" "k \<le> 24"
  have "(100 * c + 4 * k) mod 4 = 0" by presburger
  moreover have "(100 * c + 4 * k) mod 100 = 4 * k"
    by (rule int_mod_pos_eq [of _ _ c]) (use k in auto)
  ultimately show "is_leap (100 * c + 4 * k)" using k by (simp add: is_leap_def)
qed (simp add: is_leap_def mod_eq_0_iff_dvd)

lemma is_leap_era: "is_leap (y + 400 * e) \<longleftrightarrow> is_leap y"
proof -
  have "(y + 400 * e) mod 400 = y mod 400" "(y + 400 * e) mod 100 = y mod 100"
    "(y + 400 * e) mod 4 = y mod 4"
    using mod_mult_self1 [of y "100 * e" 4] mod_mult_self1 [of y "4 * e" 100]
    by (simp_all add: mult.commute)
  then show ?thesis by (simp add: is_leap_def)
qed

text \<open>Every day of an era splits into a year of the era and a day of the year that starts in March.\<close>

lemma year_of_era:
  fixes doe :: int
  assumes "0 \<le> doe" "doe < 146097"
  obtains yoe doy where
    "(doe - doe div 1460 + doe div 36524 - doe div 146096) div 365 = yoe"
    "0 \<le> yoe" "yoe < 400" "doe = 365 * yoe + yoe div 4 - yoe div 100 + doy"
    "0 \<le> doy" "doy \<le> 365" "doy = 365 \<longrightarrow> is_leap (yoe + 1)"
proof (cases "doe = 146096")
  case True
  have "is_leap 400" using is_leap_cycle(2) [of 1] by simp
  with True show thesis by (intro that [of 399 365]) simp_all
next
  case False
  define c where "c = doe div 36524"
  define r where "r = doe mod 36524"
  define q where "q = r div 1461"
  define s where "s = r mod 1461"
  define a where "a = (if s = 1460 then 3 else s div 365)"
  define t where "t = s - 365 * a"
  have r: "doe = 36524 * c + r" "0 \<le> r" "r < 36524" unfolding c_def r_def by simp_all
  have s: "r = 1461 * q + s" "0 \<le> s" "s < 1461" unfolding q_def s_def by simp_all
  have c: "0 \<le> c" "c \<le> 3" using r assms False by linarith+
  have q: "0 \<le> q" "q \<le> 24" using r s by linarith+
  have sd: "s = 365 * (s div 365) + s mod 365" "0 \<le> s mod 365" "s mod 365 < 365" by simp_all
  have a: "0 \<le> a" "a \<le> 3" using s sd by (auto simp: a_def)
  have t: "0 \<le> t" "t < 365 \<or> a = 3 \<and> t = 365"
    using s sd by (auto simp: t_def a_def)
  have doe: "doe = 36524 * c + 1461 * q + 365 * a + t" using r s by (simp add: t_def)
  let ?y = "100 * c + 4 * q + a"
  have y: "?y div 4 = 25 * c + q" "?y div 100 = c" using yoe_quarter [OF q a, of c] by simp_all
  have leap: "t = 365 \<longrightarrow> is_leap (?y + 1)"
  proof
    assume "t = 365"
    then have "a = 3" "q \<le> 23" using t r s by (auto simp: t_def)
    then have "?y + 1 = 100 * c + 4 * (q + 1)" by simp
    then show "is_leap (?y + 1)"
      using is_leap_cycle(1) [of "q + 1" c] q \<open>q \<le> 23\<close> by (simp add: ac_simps)
  qed
  have cent: "1461 * q + 365 * a + t < 36524" using r s by (simp add: t_def)
  show thesis
  proof (rule that [OF yoe_formula [OF doe c q a t cent] _ _ _ t(1) _ leap])
    show "0 \<le> ?y" "?y < 400" "t \<le> 365" using c q a t by linarith+
    show "doe = 365 * ?y + ?y div 4 - ?y div 100 + t" unfolding y using doe by simp
  qed
qed

text \<open>Month and day of a year that starts in March.\<close>

lemma month_cases:
  fixes doy :: int
  assumes "0 \<le> doy" "doy \<le> 365"
  obtains "(5 * doy + 2) div 153 = 0" "doy \<le> 30"
  | "(5 * doy + 2) div 153 = 1" "31 \<le> doy" "doy \<le> 60"
  | "(5 * doy + 2) div 153 = 2" "61 \<le> doy" "doy \<le> 91"
  | "(5 * doy + 2) div 153 = 3" "92 \<le> doy" "doy \<le> 121"
  | "(5 * doy + 2) div 153 = 4" "122 \<le> doy" "doy \<le> 152"
  | "(5 * doy + 2) div 153 = 5" "153 \<le> doy" "doy \<le> 183"
  | "(5 * doy + 2) div 153 = 6" "184 \<le> doy" "doy \<le> 213"
  | "(5 * doy + 2) div 153 = 7" "214 \<le> doy" "doy \<le> 244"
  | "(5 * doy + 2) div 153 = 8" "245 \<le> doy" "doy \<le> 274"
  | "(5 * doy + 2) div 153 = 9" "275 \<le> doy" "doy \<le> 305"
  | "(5 * doy + 2) div 153 = 10" "306 \<le> doy" "doy \<le> 336"
  | "(5 * doy + 2) div 153 = 11" "337 \<le> doy" "doy \<le> 365"
proof -
  define mp where "mp = (5 * doy + 2) div 153"
  have b: "153 * mp \<le> 5 * doy + 2" "5 * doy + 2 < 153 * mp + 153"
    unfolding mp_def by linarith+
  have "mp \<in> set [0..11]" using b assms by simp
  moreover have "[0..11] = [0, 1, 2, 3, 4, 5, 6, 7, 8, 9, 10, 11 :: int]"
    by (simp add: upto_rec1)
  ultimately have "mp = 0 \<or> mp = 1 \<or> mp = 2 \<or> mp = 3 \<or> mp = 4 \<or> mp = 5 \<or> mp = 6 \<or> mp = 7 \<or>
      mp = 8 \<or> mp = 9 \<or> mp = 10 \<or> mp = 11"
    by (simp only:) simp
  then show thesis
    using b assms(2) by (elim disjE) (rule that; simp add: mp_def [symmetric]; fail)+
qed

text \<open>The year count of the calendar in terms of era and year of the era.\<close>

lemma days_before_year_era:
  assumes "0 \<le> yoe" "yoe < 400"
  shows "days_before_year (yoe + era * 400 + 1) = 146097 * era + 365 * yoe + yoe div 4 - yoe div 100"
proof -
  have e4: "(yoe + era * 400) div 4 = 100 * era + yoe div 4"
    using div_mult_self3 [of 4 "100 * era" yoe] by (simp add: algebra_simps)
  have e100: "(yoe + era * 400) div 100 = 4 * era + yoe div 100"
    using div_mult_self3 [of 100 "4 * era" yoe] by (simp add: algebra_simps)
  have e400: "(yoe + era * 400) div 400 = era"
    using assms by (simp add: div_pos_pos_trivial)
  show ?thesis
    unfolding days_before_year_def add_diff_cancel_right' e4 e100 e400 by (simp add: algebra_simps)
qed

text \<open>Fields before the final cast of the year.\<close>

definition civil_fields :: "int \<Rightarrow> int \<times> int \<times> int \<Rightarrow> bool" where
  "civil_fields days = (\<lambda>(y, m, d). valid_date y m d \<and> days_from_civil y m d = days)"

lemma march_date:
  assumes doy: "0 \<le> doy" "doy \<le> 365" "doy = 365 \<longrightarrow> is_leap (y + 1)"
    and days: "days = days_before_year (y + 1) + doy - 719468"
  defines "mp \<equiv> (5 * doy + 2) div 153"
  defines "m \<equiv> if mp < 10 then mp + 3 else mp - 9"
  defines "d \<equiv> doy - (153 * mp + 2) div 5 + 1"
  shows "civil_fields days (if m \<le> 2 then y + 1 else y, m, d)" "0 \<le> mp" "mp \<le> 11" "1 \<le> d" "d \<le> 31"
proof -
  have step: "days_before_year (y + 1) = days_before_year y + (if is_leap y then 366 else 365)"
    by (rule days_before_year_step)
  have "civil_fields days (if m \<le> 2 then y + 1 else y, m, d) \<and> 0 \<le> mp \<and> mp \<le> 11 \<and> 1 \<le> d \<and> d \<le> 31"
    using doy(1,2)
  proof (cases rule: month_cases)
    case 11
    then show ?thesis using days
      by (simp add: civil_fields_def m_def d_def mp_def valid_date_def days_in_month_def
          days_from_civil_def days_before_month_table)
  next
    case 12
    then show ?thesis using days doy(3)
      by (auto simp: civil_fields_def m_def d_def mp_def valid_date_def days_in_month_def
          days_from_civil_def days_before_month_table)
  qed (use days step in \<open>simp add: civil_fields_def m_def d_def mp_def valid_date_def
        days_in_month_def days_from_civil_def days_before_month_table\<close>)+
  then show "civil_fields days (if m \<le> 2 then y + 1 else y, m, d)"
    "0 \<le> mp" "mp \<le> 11" "1 \<le> d" "d \<le> 31" by simp_all
qed

text \<open>The days for which the year fits into an \<open>i32\<close>.\<close>

definition day_in_range :: "int \<Rightarrow> bool" where
  "day_in_range days \<longleftrightarrow> \<bar>days\<bar> \<le> 784000000000"

lemma civil_from_days_fields:
  assumes "day_in_range days"
  shows "civil_fields days (civil_from_days days)"
proof -
  define z where "z = days + 719468"
  define era where "era = z div 146097"
  define doe where "doe = z mod 146097"
  have z: "z = 146097 * era + doe" "0 \<le> doe" "doe < 146097" unfolding era_def doe_def by simp_all
  obtain yoe doy where y: "(doe - doe div 1460 + doe div 36524 - doe div 146096) div 365 = yoe"
      "0 \<le> yoe" "yoe < 400" "doe = 365 * yoe + yoe div 4 - yoe div 100 + doy"
      "0 \<le> doy" "doy \<le> 365" "doy = 365 \<longrightarrow> is_leap (yoe + 1)"
    using year_of_era [OF z(2,3)] by blast
  let ?Y = "yoe + era * 400"
  have "is_leap (?Y + 1) \<longleftrightarrow> is_leap (yoe + 1)"
    using is_leap_era [of "yoe + 1" era] by (simp add: ac_simps)
  moreover have "days = days_before_year (?Y + 1) + doy - 719468"
    unfolding days_before_year_era [OF y(2,3)] using z(1) y(4) by (simp add: z_def)
  ultimately have march: "doy = 365 \<longrightarrow> is_leap (?Y + 1)" "days = days_before_year (?Y + 1) + doy - 719468"
    using y(7) by simp_all
  define mp where "mp = (5 * doy + 2) div 153"
  define k where "k = (153 * mp + 2) div 5"
  note md = march_date [OF y(5,6) march, folded mp_def, folded k_def]
  have pos: "0 \<le> doe - doe div 1460 + doe div 36524 - doe div 146096"
    using z(2,3) by linarith
  have range: "- (2 ^ 31) \<le> ?Y" "?Y + 1 < 2 ^ 31"
    using z y(2,3) assms by (auto simp: z_def day_in_range_def)
  have yoe: "quot (doe - quot doe 1460 + quot doe 36524 - quot doe 146096) 365 = yoe"
    using y(1) z(2) pos by simp
  have zdoe: "z - era * 146097 = doe" using z(1) by simp
  have doy: "doe - (365 * yoe + quot yoe 4 - quot yoe 100) = doy" using y(2,4) by simp
  have mp: "quot (5 * doy + 2) 153 = mp" using y(5) by (simp add: mp_def)
  have k: "quot (153 * mp + 2) 5 = k" using md(2) by (simp add: k_def)
  have "civil_from_days days =
      (let m = (if mp < 10 then mp + 3 else mp - 9)
       in (if m \<le> 2 then ?Y + 1 else ?Y, m, doy - k + 1))"
    using md(2-5) range
    unfolding civil_from_days_def Let_def z_def [symmetric] era_floor era_def [symmetric] zdoe yoe doy mp k
    by simp
  then show ?thesis using md(1) by (simp add: Let_def)
qed

subsection \<open>Dates and day counts determine each other\<close>

lemma days_before_year_mono: "y \<le> y' \<Longrightarrow> days_before_year y \<le> days_before_year y'"
proof (induction y' rule: int_ge_induct)
  case (step i)
  then show ?case using days_before_year_step [of i] by (simp split: if_splits)
qed simp

lemma days_before_month_step: "1 \<le> m \<Longrightarrow> days_before_month y (m + 1) = days_before_month y m + days_in_month y m"
  by (simp add: days_before_month_def upto_rec2)

lemma days_before_month_mono:
  "m \<le> m' \<Longrightarrow> 1 \<le> m \<Longrightarrow> days_before_month y m \<le> days_before_month y m'"
proof (induction m' rule: int_ge_induct)
  case (step i)
  moreover have "0 \<le> days_in_month y i" by (simp add: days_in_month_def)
  ultimately show ?case using days_before_month_step [of i y] by simp
qed simp_all

lemma days_before_month_less:
  assumes "1 \<le> m" "m < m'"
  shows "days_before_month y m + days_in_month y m \<le> days_before_month y m'"
  using days_before_month_mono [of "m + 1" m' y] days_before_month_step [of m y] assms by simp

lemma day_of_year_bounds:
  assumes "valid_date y m d"
  shows "0 \<le> days_before_month y m + (d - 1)"
    "days_before_month y m + (d - 1) < (if is_leap y then 366 else 365)"
proof -
  have m: "1 \<le> m" "m \<le> 12" and d: "1 \<le> d" "d \<le> days_in_month y m"
    using assms by (simp_all add: valid_date_def)
  have "0 \<le> days_before_month y m"
    using days_before_month_mono [of 1 m y] m by (simp add: days_before_month_table)
  then show "0 \<le> days_before_month y m + (d - 1)" using d by simp
  have "days_before_month y m + days_in_month y m \<le> days_before_month y 12 + 31"
  proof (cases "m = 12")
    case False
    then show ?thesis using days_before_month_less [of m 12 y] m by simp
  qed (simp add: days_in_month_def)
  then show "days_before_month y m + (d - 1) < (if is_leap y then 366 else 365)"
    using d by (simp add: days_before_month_table split: if_splits)
qed

lemma days_from_civil_year:
  assumes "valid_date y m d" "valid_date y' m' d'" "y < y'"
  shows "days_from_civil y m d < days_from_civil y' m' d'"
  using day_of_year_bounds [OF assms(1)] day_of_year_bounds [OF assms(2)]
    days_before_year_step [of y] days_before_year_mono [of "y + 1" y'] assms(3)
  unfolding days_from_civil_def by (simp split: if_splits)

lemma days_from_civil_month:
  assumes "valid_date y m d" "valid_date y m' d'" "m < m'"
  shows "days_from_civil y m d < days_from_civil y m' d'"
  using days_before_month_less [of m m' y] assms by (simp add: days_from_civil_def valid_date_def)

lemma days_from_civil_inject:
  assumes "valid_date y m d" "valid_date y' m' d'" "days_from_civil y m d = days_from_civil y' m' d'"
  shows "y = y' \<and> m = m' \<and> d = d'"
proof -
  have "y = y'"
    using days_from_civil_year [OF assms(1,2)] days_from_civil_year [OF assms(2,1)] assms(3)
    by (cases y y' rule: linorder_cases) auto
  moreover from this have "m = m'"
    using days_from_civil_month [of y m d m' d'] days_from_civil_month [of y m' d' m d] assms
    by (cases m m' rule: linorder_cases) auto
  ultimately show ?thesis using assms(3) by (simp add: days_from_civil_def)
qed

subsection \<open>Time of day\<close>

definition valid_timestamp :: "timestamp \<Rightarrow> bool" where
  "valid_timestamp t \<longleftrightarrow>
     valid_date (ts_year t) (ts_month t) (ts_day t) \<and>
     0 \<le> ts_hour t \<and> ts_hour t < 24 \<and> 0 \<le> ts_minute t \<and> ts_minute t < 60 \<and>
     0 \<le> ts_second t \<and> ts_second t < 60 \<and> 0 \<le> ts_microsecond t \<and> ts_microsecond t < 1000000"

text \<open>The local instant a timestamp denotes, in microseconds.\<close>

definition timestamp_micros :: "timestamp \<Rightarrow> int" where
  "timestamp_micros t =
     days_from_civil (ts_year t) (ts_month t) (ts_day t) * 86400000000
     + ts_hour t * 3600000000 + ts_minute t * 60000000 + ts_second t * 1000000 + ts_microsecond t"

lemma time_of_day:
  fixes rem :: int
  assumes "0 \<le> rem" "rem < 86400000000"
  shows "rem div 3600000000 * 3600000000 + rem mod 3600000000 div 60000000 * 60000000
      + rem mod 60000000 div 1000000 * 1000000 + rem mod 1000000 = rem"
proof -
  have "rem mod 3600000000 mod 60000000 = rem mod 60000000"
    "rem mod 60000000 mod 1000000 = rem mod 1000000"
    by (simp_all add: mod_mod_cancel)
  then show ?thesis
    using div_mult_mod_eq [of rem 3600000000] div_mult_mod_eq [of "rem mod 3600000000" 60000000]
      div_mult_mod_eq [of "rem mod 60000000" 1000000]
    by (simp only:)
qed

lemma from_unix_micros_correct:
  assumes "day_in_range (micros div MICROS_PER_DAY)"
  shows "valid_timestamp (from_unix_micros micros off)"
    "timestamp_micros (from_unix_micros micros off) = micros"
    "ts_offset_seconds (from_unix_micros micros off) = off"
proof -
  define days where "days = micros div 86400000000"
  define rem where "rem = micros mod 86400000000"
  obtain y m d where ymd: "civil_from_days days = (y, m, d)" by (cases "civil_from_days days")
  have civ: "valid_date y m d" "days_from_civil y m d = days"
    using civil_from_days_fields [of days] assms ymd
    by (simp_all add: civil_fields_def days_def MICROS_PER_DAY_def)
  have rem: "0 \<le> rem" "rem < 86400000000" unfolding rem_def by simp_all
  have h: "0 \<le> rem div 3600000000" "rem div 3600000000 < 24"
    "0 \<le> rem mod 3600000000 div 60000000" "rem mod 3600000000 div 60000000 < 60"
    "0 \<le> rem mod 60000000 div 1000000" "rem mod 60000000 div 1000000 < 60"
    "0 \<le> rem mod 1000000" "rem mod 1000000 < 1000000"
    using rem by (simp_all add: pos_imp_zdiv_nonneg_iff div_int_pos_iff)
  have u24: "as_u8 x = x" if "0 \<le> x" "x < 24" for x using that by simp
  have u60: "as_u8 x = x" if "0 \<le> x" "x < 60" for x using that by simp
  have u32: "as_u32 x = x" if "0 \<le> x" "x < 1000000" for x using that by simp
  have eq: "from_unix_micros micros off =
      \<lparr>ts_year = y, ts_month = m, ts_day = d, ts_hour = rem div 3600000000,
       ts_minute = rem mod 3600000000 div 60000000, ts_second = rem mod 60000000 div 1000000,
       ts_microsecond = rem mod 1000000, ts_offset_seconds = off\<rparr>"
    unfolding from_unix_micros_def micros_defs Let_def days_def [symmetric] rem_def [symmetric] ymd
      u24 [OF h(1,2)] u60 [OF h(3,4)] u60 [OF h(5,6)] u32 [OF h(7,8)]
    by (simp only: prod.case)
  show "valid_timestamp (from_unix_micros micros off)"
    unfolding eq valid_timestamp_def timestamp.simps using civ(1) h by blast
  have "timestamp_micros (from_unix_micros micros off) = days * 86400000000 + rem"
    unfolding eq timestamp_micros_def timestamp.simps civ(2) using time_of_day [OF rem] by linarith
  also have "\<dots> = micros" unfolding days_def rem_def by simp
  finally show "timestamp_micros (from_unix_micros micros off) = micros" .
  show "ts_offset_seconds (from_unix_micros micros off) = off" unfolding eq by simp
qed

text \<open>The clock reading in microseconds, truncated toward the epoch.\<close>

lemma div_micros: "0 \<le> (n::int) \<Longrightarrow> n div 1000000000 * 1000000 + n mod 1000000000 div 1000 = n div 1000"
proof -
  assume "0 \<le> n"
  define q r where "q = n div 1000000000" and "r = n mod 1000000000"
  have n: "n = 1000 * (1000000 * q) + r" unfolding q_def r_def by simp
  have "n div 1000 = 1000000 * q + r div 1000" unfolding n by simp
  then show ?thesis by (simp add: q_def r_def)
qed

lemma unix_micros_quot: "unix_micros now = quot now 1000"
proof (cases "0 \<le> now")
  case True
  then show ?thesis using div_micros [of now] by (simp add: unix_micros_def MICROS_PER_SECOND_def)
next
  case False
  then show ?thesis
    using div_micros [of "- now"] by (simp add: unix_micros_def MICROS_PER_SECOND_def quot_def Let_def)
qed

subsection \<open>The display form\<close>

lemma fmt_int0_field:
  assumes "0 \<le> i" "i < 10 ^ w" "0 < w"
  shows "length (fmt_int0 w i) = w" "dec_val (fmt_int0 w i) = nat i"
proof -
  have "nat i < 10 ^ w" using assms by (simp add: nat_less_iff)
  then have "length (fmt_nat (nat i)) \<le> w" using assms(3) by (rule length_fmt_nat)
  then show "length (fmt_int0 w i) = w" "dec_val (fmt_int0 w i) = nat i"
    using assms(1) by (simp_all add: fmt_int0_def length_pad_zero)
qed

text \<open>Reading fixed-width fields from the left.\<close>

definition read_field :: "nat \<Rightarrow> rstr \<Rightarrow> int \<times> rstr" where
  "read_field n s = (int (dec_val (take n s)), drop n s)"

lemma read_field_fmt:
  "0 \<le> i \<Longrightarrow> i < 10 ^ w \<Longrightarrow> 0 < w \<Longrightarrow> read_field w (fmt_int0 w i @ s) = (i, s)"
  by (simp add: read_field_def fmt_int0_field)

definition read_offset :: "rstr \<Rightarrow> int" where
  "read_offset s =
     (if s = lit ''Z'' then 0
      else (let (h, s1) = read_field 2 (tl s); (m, _) = read_field 2 (tl s1); a = h * 3600 + m * 60
            in if hd s = 45 then - a else a))"

definition read_timestamp :: "rstr \<Rightarrow> timestamp" where
  "read_timestamp s =
     (let (y, s) = read_field 4 s; (mo, s) = read_field 2 (tl s); (d, s) = read_field 2 (tl s);
          (h, s) = read_field 2 (tl s); (mi, s) = read_field 2 (tl s); (se, s) = read_field 2 (tl s);
          (us, s) = read_field 6 (tl s)
      in \<lparr>ts_year = y, ts_month = mo, ts_day = d, ts_hour = h, ts_minute = mi, ts_second = se,
          ts_microsecond = us, ts_offset_seconds = read_offset s\<rparr>)"

lemma hours_minutes:
  assumes "(a::nat) mod 60 = 0"
  shows "a div 3600 * 3600 + a mod 3600 div 60 * 60 = a"
proof -
  define r where "r = a mod 3600"
  have "a mod 3600 mod 60 = a mod 60" by (simp add: mod_mod_cancel)
  then have "60 dvd r" using assms unfolding r_def by (simp add: mod_eq_0_iff_dvd)
  then have "r div 60 * 60 = r" by simp
  moreover have "a div 3600 * 3600 + r = a" unfolding r_def by (rule div_mult_mod_eq)
  ultimately show ?thesis unfolding r_def [symmetric] by simp
qed

lemma read_display_offset:
  assumes "off mod 60 = 0" "\<bar>off\<bar> < 360000"
  shows "read_offset (display_offset off) = off"
proof (cases "off = 0")
  case False
  define hh mm where "hh = nat \<bar>off\<bar> div 3600" and "mm = nat \<bar>off\<bar> mod 3600 div 60"
  have bounds: "int hh < 10 ^ 2" "int mm < 10 ^ 2"
    using assms(2) unfolding hh_def mm_def by auto
  have "\<bar>off\<bar> mod 60 = 0" using assms(1) by (simp add: mod_eq_0_iff_dvd)
  then have "nat \<bar>off\<bar> mod 60 = 0" using nat_mod_distrib [of "\<bar>off\<bar>" 60] by simp
  then have "hh * 3600 + mm * 60 = nat \<bar>off\<bar>"
    unfolding hh_def mm_def by (rule hours_minutes)
  then have val: "int hh * 3600 + int mm * 60 = \<bar>off\<bar>" by linarith
  have disp: "display_offset off =
      (if off < 0 then 45 else 43) # fmt_int0 2 (int hh) @ 58 # fmt_int0 2 (int mm)"
    using False unfolding display_offset_def Let_def hh_def mm_def by (simp add: fmt_int0_def)
  have "read_offset (display_offset off) = (if off < 0 then - \<bar>off\<bar> else \<bar>off\<bar>)"
    unfolding disp using bounds read_field_fmt [of "int mm" 2 "[]"]
    by (simp add: read_offset_def Let_def read_field_fmt val)
  then show ?thesis by simp
qed (simp add: display_offset_def read_offset_def)

lemma year_in_range:
  assumes "valid_date y m d" "\<bar>y\<bar> \<le> 2146000000"
  shows "day_in_range (days_from_civil y m d)"
proof -
  have "\<bar>days_before_year y\<bar> \<le> 783900000000"
  proof -
    have gen: "\<bar>365 * x + p - q + r\<bar> \<le> 783900000000"
      if "4 * p \<le> x" "x < 4 * p + 4" "100 * q \<le> x" "x < 100 * q + 100" "400 * r \<le> x" "x < 400 * r + 400"
        "- 2146000001 \<le> x" "x \<le> 2145999999" for p q r x :: int
      using that by linarith
    show ?thesis
      unfolding days_before_year_def
      by (rule gen) (use assms(2) in linarith)+
  qed
  moreover have "0 \<le> days_before_month y m + (d - 1)" "days_before_month y m + (d - 1) < 366"
    using day_of_year_bounds [OF assms(1)] by (simp_all split: if_splits)
  ultimately show ?thesis unfolding day_in_range_def days_from_civil_def by linarith
qed

subsection \<open>The properties\<close>

text \<open>Claim C22: for every day count whose year fits an \<open>i32\<close>, before and after the epoch, the
  algorithm returns a date of the Gregorian calendar, and exactly that many days lie between
  1970-01-01 and it.\<close>

theorem civil_from_days_correct:
  assumes "day_in_range days"
  shows "\<exists>y m d. civil_from_days days = (y, m, d) \<and> valid_date y m d \<and> days_from_civil y m d = days"
  using civil_from_days_fields [OF assms]
  by (cases "civil_from_days days") (simp add: civil_fields_def)

theorem civil_from_days_correct_witness:
  "\<exists>y m d. civil_from_days (- 1) = (y, m, d) \<and> valid_date y m d \<and> days_from_civil y m d = - 1"
  by (rule civil_from_days_correct) (simp add: day_in_range_def)

text \<open>The algorithm inverts the calendar: the day count of any date, leap days and dates
  before the epoch included, is converted back to that date.\<close>

theorem civil_from_days_inverse:
  assumes "valid_date y m d" and "\<bar>y\<bar> \<le> 2146000000"
  shows "civil_from_days (days_from_civil y m d) = (y, m, d)"
proof -
  obtain y' m' d' where c: "civil_from_days (days_from_civil y m d) = (y', m', d')"
    by (cases "civil_from_days (days_from_civil y m d)")
  then have "valid_date y' m' d'" "days_from_civil y' m' d' = days_from_civil y m d"
    using civil_from_days_fields [OF year_in_range [OF assms]] by (simp_all add: civil_fields_def)
  then show ?thesis using days_from_civil_inject [OF assms(1)] c by metis
qed

theorem civil_from_days_inverse_witness:
  "civil_from_days (days_from_civil 2024 2 29) = (2024, 2, 29)"
  by (rule civil_from_days_inverse) (simp_all add: valid_date_def days_in_month_def is_leap_def)

text \<open>Claim C23: a timestamp taken at a clock reading has fields in their calendar ranges and denotes
  exactly the reading, truncated to microseconds toward the epoch and shifted by the offset.\<close>

theorem timestamp_now_exact:
  assumes "day_in_range ((quot now 1000 + off * 1000000) div MICROS_PER_DAY)"
  shows "valid_timestamp (timestamp_now now off) \<and>
    timestamp_micros (timestamp_now now off) = quot now 1000 + off * 1000000 \<and>
    ts_offset_seconds (timestamp_now now off) = off"
  using from_unix_micros_correct [OF assms, of off]
  by (simp_all add: timestamp_now_def unix_micros_quot MICROS_PER_SECOND_def)

theorem timestamp_now_exact_witness:
  "timestamp_micros (timestamp_now (- 1500) 19800) = quot (- 1500) 1000 + 19800 * 1000000"
  using timestamp_now_exact [of "- 1500" 19800]
  by (simp add: day_in_range_def MICROS_PER_DAY_def quot_def)

text \<open>Claim C35: the displayed form of a timestamp with a four-digit year and an offset of whole
  minutes has fixed-width fields from which every field, the offset included, is read back.\<close>

theorem display_timestamp_roundtrip:
  assumes "valid_timestamp t" and "0 \<le> ts_year t" "ts_year t < 10000"
    and "ts_offset_seconds t mod 60 = 0" "\<bar>ts_offset_seconds t\<bar> < 360000"
  shows "read_timestamp (display_timestamp t) = t"
proof -
  have "ts_day t < 100"
    using assms(1) by (auto simp: valid_timestamp_def valid_date_def days_in_month_def split: if_splits)
  then have "read_timestamp (display_timestamp t) =
      \<lparr>ts_year = ts_year t, ts_month = ts_month t, ts_day = ts_day t, ts_hour = ts_hour t,
       ts_minute = ts_minute t, ts_second = ts_second t, ts_microsecond = ts_microsecond t,
       ts_offset_seconds = ts_offset_seconds t\<rparr>"
    using assms(1-3) read_display_offset [OF assms(4,5)]
    by (simp add: display_timestamp_def read_timestamp_def read_field_fmt Let_def
        valid_timestamp_def valid_date_def)
  then show ?thesis by simp
qed

theorem display_timestamp_roundtrip_witness:
  "read_timestamp (display_timestamp
     \<lparr>ts_year = 2026, ts_month = 8, ts_day = 13, ts_hour = 10, ts_minute = 19, ts_second = 0,
      ts_microsecond = 123456, ts_offset_seconds = - 28800\<rparr>) =
     \<lparr>ts_year = 2026, ts_month = 8, ts_day = 13, ts_hour = 10, ts_minute = 19, ts_second = 0,
      ts_microsecond = 123456, ts_offset_seconds = - 28800\<rparr>"
  by (rule display_timestamp_roundtrip)
    (simp_all add: valid_timestamp_def valid_date_def days_in_month_def)

end
