(* ===== verification/Xos_Rotation.thy ===== *)
theory Xos_Rotation
  imports Xos_Time
begin

section \<open>Rotation intervals (\<open>RotationInterval\<close> in \<open>src/sink.rs\<close>)\<close>

text \<open>
  Which slot of the wall clock an instant belongs to. A \<open>Duration\<close> is its number of nanoseconds;
  seconds since the epoch are naturals (a \<open>SystemTime\<close> has an \<open>i64\<close> of seconds, so they fit the
  \<open>u64\<close> of the code, and the products below do not exceed them; \<open>i128\<close> does not overflow either).
\<close>

datatype rotation_interval = Never | Hourly | Daily | Weekly | Every nat

definition HOUR_SECS :: nat where "HOUR_SECS = 3600"
definition DAY_SECS :: nat where "DAY_SECS = 86400"
definition WEEK_SECS :: nat where "WEEK_SECS = 604800"

definition duration_as_secs :: "nat \<Rightarrow> nat" where
  "duration_as_secs d = d div 1000000000"

definition period_secs :: "rotation_interval \<Rightarrow> nat option" where
  "period_secs i = (case i of
     Never \<Rightarrow> None
   | Hourly \<Rightarrow> Some HOUR_SECS
   | Daily \<Rightarrow> Some DAY_SECS
   | Weekly \<Rightarrow> Some WEEK_SECS
   | Every d \<Rightarrow> (let secs = duration_as_secs d in if secs = 0 then None else Some secs))"

definition unix_secs :: "system_time \<Rightarrow> nat" where
  "unix_secs now = (if now < 0 then 0 else nat (now div 1000000000))"

definition iso_week_start_secs :: "nat \<Rightarrow> nat" where
  "iso_week_start_secs secs =
     (let shifted = int secs + 3 * 86400;
          start = shifted div 604800 * 604800 - 3 * 86400
      in if start < 0 then 0 else nat start)"

definition slot_start :: "rotation_interval \<Rightarrow> system_time \<Rightarrow> nat option" where
  "slot_start i now =
     (let secs = unix_secs now in
      case i of
        Never \<Rightarrow> None
      | Weekly \<Rightarrow> Some (iso_week_start_secs secs)
      | _ \<Rightarrow> (case period_secs i of None \<Rightarrow> None | Some period \<Rightarrow> Some (secs div period * period)))"

definition rotation_default :: rotation_interval where
  "rotation_default = Never"

lemmas rotation_defs = HOUR_SECS_def DAY_SECS_def WEEK_SECS_def period_secs_def

subsection \<open>The slots partition time\<close>

text \<open>The origin of the slots: multiples of the period from the epoch, and for weeks from the Monday
  before it, three days earlier.\<close>

definition slot_shift :: "rotation_interval \<Rightarrow> int" where
  "slot_shift i = (if i = Weekly then 3 * 86400 else 0)"

text \<open>The number of the slot of an instant, counted from that origin.\<close>

definition slot_no :: "rotation_interval \<Rightarrow> nat \<Rightarrow> nat \<Rightarrow> int" where
  "slot_no i p secs = (int secs + slot_shift i) div int p"

lemma period_pos: "period_secs i = Some p \<Longrightarrow> 0 < p"
  by (cases i) (auto simp: rotation_defs Let_def split: if_splits)

lemma slot_start_None_iff: "slot_start i now = None \<longleftrightarrow> period_secs i = None"
  by (cases i) (simp_all add: slot_start_def period_secs_def Let_def split: option.split)

lemma slot_start_no:
  assumes p: "period_secs i = Some p"
  shows "slot_start i now = Some (nat (slot_no i p (unix_secs now) * int p - slot_shift i))"
proof (cases "i = Weekly")
  case True
  then have "p = 604800" using p by (simp add: rotation_defs)
  with True show ?thesis by (simp add: slot_start_def iso_week_start_secs_def slot_no_def slot_shift_def Let_def)
next
  case False
  then have "slot_start i now = Some (unix_secs now div p * p)"
    using p by (cases i) (simp_all add: slot_start_def rotation_defs Let_def)
  moreover have "int (unix_secs now) div int p * int p = int (unix_secs now div p * p)"
    by (simp add: zdiv_int)
  ultimately show ?thesis using False by (simp add: slot_no_def slot_shift_def del: of_nat_mult)
qed

lemma slot_no_bounds:
  assumes p: "0 < p"
  shows "slot_no i p s * int p - slot_shift i \<le> int s" "int s < (slot_no i p s + 1) * int p - slot_shift i"
proof -
  define q where "q = slot_no i p s"
  have "int s + slot_shift i = q * int p + (int s + slot_shift i) mod int p"
    unfolding q_def slot_no_def by simp
  moreover have "0 \<le> (int s + slot_shift i) mod int p" "(int s + slot_shift i) mod int p < int p"
    using p by simp_all
  moreover have "(q + 1) * int p = q * int p + int p" by (simp add: algebra_simps)
  ultimately show "slot_no i p s * int p - slot_shift i \<le> int s"
    "int s < (slot_no i p s + 1) * int p - slot_shift i"
    unfolding q_def [symmetric] by linarith+
qed

lemma slot_no_nonneg: "0 \<le> slot_no i p s"
  by (simp add: slot_no_def slot_shift_def div_int_pos_iff)

lemma slot_shift_small: "period_secs i = Some p \<Longrightarrow> slot_shift i < int p"
  using period_pos [of i p] by (cases i) (auto simp: slot_shift_def rotation_defs)

text \<open>A boundary is an instant at which a slot begins.\<close>

definition boundary_between :: "rotation_interval \<Rightarrow> nat \<Rightarrow> nat \<Rightarrow> nat \<Rightarrow> bool" where
  "boundary_between i p a b \<longleftrightarrow> (\<exists>k. int a < k * int p - slot_shift i \<and> k * int p - slot_shift i \<le> int b)"

lemma slot_no_less_iff:
  assumes "0 < p"
  shows "slot_no i p a < slot_no i p b \<longleftrightarrow> boundary_between i p a b"
proof
  assume "slot_no i p a < slot_no i p b"
  then have "(slot_no i p a + 1) * int p \<le> slot_no i p b * int p" using assms by simp
  then have "int a < slot_no i p b * int p - slot_shift i"
    using slot_no_bounds(2) [OF assms, of a i] by linarith
  then show "boundary_between i p a b"
    unfolding boundary_between_def using slot_no_bounds(1) [OF assms] by blast
next
  assume "boundary_between i p a b"
  then obtain k where k: "int a < k * int p - slot_shift i" "k * int p - slot_shift i \<le> int b"
    by (auto simp: boundary_between_def)
  have "slot_no i p a * int p < k * int p" using slot_no_bounds(1) [OF assms, of i a] k(1) by linarith
  then have "slot_no i p a < k" using assms by simp
  moreover have "k * int p < (slot_no i p b + 1) * int p"
    using slot_no_bounds(2) [OF assms, of b i] k(2) by linarith
  then have "k < slot_no i p b + 1" using assms by (simp add: mult_less_cancel_right)
  ultimately show "slot_no i p a < slot_no i p b" by linarith
qed

lemma slot_nat_less_iff:
  assumes "0 \<le> m" "0 \<le> n" "0 \<le> sh" "sh < (p::int)"
  shows "nat (m * p - sh) < nat (n * p - sh) \<longleftrightarrow> m < n"
proof
  assume "m < n"
  then have step: "(m + 1) * p \<le> n * p"
    using assms by (intro mult_right_mono) simp_all
  moreover have "(m + 1) * p = m * p + p" by (simp add: algebra_simps)
  moreover have "0 \<le> m * p" using assms by simp
  ultimately have "m * p - sh < n * p - sh" "0 < n * p - sh" using assms(3,4) by linarith+
  then show "nat (m * p - sh) < nat (n * p - sh)" by simp
next
  assume "nat (m * p - sh) < nat (n * p - sh)"
  then have "m * p < n * p" by (simp add: nat_less_eq_zless)
  then show "m < n" using assms by (simp add: mult_less_cancel_right)
qed

lemma slot_start_less_iff:
  assumes p: "period_secs i = Some p" and a: "slot_start i t = Some a" and b: "slot_start i t' = Some b"
  shows "a < b \<longleftrightarrow> boundary_between i p (unix_secs t) (unix_secs t')"
proof -
  have sh: "0 \<le> slot_shift i" by (simp add: slot_shift_def)
  have "a = nat (slot_no i p (unix_secs t) * int p - slot_shift i)"
    "b = nat (slot_no i p (unix_secs t') * int p - slot_shift i)"
    using a b slot_start_no [OF p, of t] slot_start_no [OF p, of t'] by simp_all
  then show ?thesis
    by (simp only: slot_nat_less_iff [OF slot_no_nonneg slot_no_nonneg sh slot_shift_small [OF p]]
        slot_no_less_iff [OF period_pos [OF p]])
qed

subsection \<open>The slots on the calendar\<close>

lemma mult_div_cancel: "0 < (k::int) \<Longrightarrow> (s * k) div (d * k) = s div d"
  by simp

lemma mult_mod_scale: "0 < (k::int) \<Longrightarrow> (s * k) mod (d * k) = s mod d * k"
  by (simp add: mult_mod_left)

lemma from_unix_micros_secs:
  "from_unix_micros (s * 1000000) off =
     (case civil_from_days (s div 86400) of (y, m, d) \<Rightarrow>
        \<lparr>ts_year = y, ts_month = m, ts_day = d, ts_hour = s mod 86400 div 3600,
         ts_minute = s mod 3600 div 60, ts_second = s mod 60, ts_microsecond = 0,
         ts_offset_seconds = off\<rparr>)"
proof -
  have k: "(0::int) < 1000000" by simp
  have units: "MICROS_PER_DAY = 86400 * 1000000" "MICROS_PER_HOUR = 3600 * 1000000"
    "MICROS_PER_MINUTE = 60 * 1000000" "MICROS_PER_SECOND = 1 * 1000000"
    by (simp_all add: micros_defs)
  have cancel: "s mod 86400 mod 3600 = s mod 3600" "s mod 86400 mod 60 = s mod 60"
    by (simp_all add: mod_mod_cancel)
  have small: "as_u8 (s mod 86400 div 3600) = s mod 86400 div 3600"
    "as_u8 (s mod 3600 div 60) = s mod 3600 div 60" "as_u8 (s mod 60) = s mod 60"
  proof -
    have "0 \<le> s mod 86400 div 3600" "s mod 86400 div 3600 < 24"
      using pos_mod_bound [of 86400 s] by (simp_all add: pos_imp_zdiv_nonneg_iff div_less_iff_less_mult)
    then show "as_u8 (s mod 86400 div 3600) = s mod 86400 div 3600" by simp
    have "0 \<le> s mod 3600 div 60" "s mod 3600 div 60 < 60"
      using pos_mod_bound [of 3600 s] by (simp_all add: pos_imp_zdiv_nonneg_iff div_less_iff_less_mult)
    then show "as_u8 (s mod 3600 div 60) = s mod 3600 div 60" by simp
    have "0 \<le> s mod 60" "s mod 60 < 60" by simp_all
    then show "as_u8 (s mod 60) = s mod 60" by (intro as_u8_id) simp_all
  qed
  have one: "x mod 1 = 0" "x div 1 = x" for x :: int by simp_all
  show ?thesis
    unfolding from_unix_micros_def Let_def units mult_div_cancel [OF k] mult_mod_scale [OF k] cancel one small
    by (simp add: as_u32_def split: prod.split)
qed

lemma slot_start_times:
  "slot_start Hourly now = Some (unix_secs now div 3600 * 3600)"
  "slot_start Daily now = Some (unix_secs now div 86400 * 86400)"
  by (simp_all add: slot_start_def rotation_defs Let_def)

lemma floor_div: "0 < a \<Longrightarrow> 0 < b \<Longrightarrow> (x div a * a) div (b * a) = x div (b * a :: int)"
  by (simp add: mult.commute [of b a] zdiv_zmult2_eq)

lemma mod_div_outer: "0 < a \<Longrightarrow> 0 < b \<Longrightarrow> x mod (b * a) div a = x div a mod (b :: int)"
proof -
  assume "0 < a" "0 < b"
  then have "x mod (a * b) = a * (x div a mod b) + x mod a" by (simp add: zmod_zmult2_eq)
  then show ?thesis using \<open>0 < a\<close> by (simp add: mult.commute [of b a])
qed

lemma floor_mod_div: "0 < a \<Longrightarrow> 0 < b \<Longrightarrow> (x div a * a) mod (b * a) div a = x mod (b * a) div (a :: int)"
  by (simp add: mod_div_outer)

lemma multiple_mod: "(q * a) mod a = (0::int)" "(q * (b * a)) mod a = 0"
  by simp_all

lemma day_start:
  "from_unix_micros (x div 86400 * 86400 * 1000000) 0 =
     (from_unix_micros (x * 1000000) 0)\<lparr>ts_hour := 0, ts_minute := 0, ts_second := 0\<rparr>"
proof -
  define q where "q = x div 86400"
  have "q * 86400 div 86400 = q" "q * 86400 mod 86400 = 0" by simp_all
  moreover have "q * 86400 mod 3600 = 0" using multiple_mod(2) [of q 24 3600] by simp
  moreover have "q * 86400 mod 60 = 0" using multiple_mod(2) [of q 1440 60] by simp
  ultimately show ?thesis
    unfolding q_def [symmetric] from_unix_micros_secs by (simp add: q_def split: prod.split)
qed

lemma hour_start:
  "from_unix_micros (x div 3600 * 3600 * 1000000) 0 =
     (from_unix_micros (x * 1000000) 0)\<lparr>ts_minute := 0, ts_second := 0\<rparr>"
proof -
  define h where "h = x div 3600 * 3600"
  have "h div 86400 = x div 86400" using floor_div [of 3600 24 x] by (simp add: h_def)
  moreover have "h mod 86400 div 3600 = x mod 86400 div 3600"
    using floor_mod_div [of 3600 24 x] by (simp add: h_def)
  moreover have "h mod 3600 = 0" by (simp add: h_def)
  moreover have "h mod 60 = 0" using multiple_mod(2) [of "x div 3600" 60 60] by (simp add: h_def)
  moreover obtain y m d where "civil_from_days (x div 86400) = (y, m, d)"
    by (cases "civil_from_days (x div 86400)")
  moreover have "(0::int) div 60 = 0" by simp
  ultimately show ?thesis
    unfolding h_def [symmetric] from_unix_micros_secs
    by (simp only: prod.case timestamp.update_convs)
qed

lemma week_start:
  fixes x :: int
  assumes "0 \<le> x"
  defines "w \<equiv> (x + 259200) div 604800 * 604800 - 259200"
  shows "if w < 0 then x < 604800 else w \<le> x \<and> x < w + 604800 \<and> w mod 86400 = 0 \<and> (w div 86400 - 4) mod 7 = 0"
proof -
  define q where "q = (x + 259200) div 604800"
  have "x + 259200 = q * 604800 + (x + 259200) mod 604800" by (simp add: q_def)
  moreover have "0 \<le> (x + 259200) mod 604800" "(x + 259200) mod 604800 < 604800" by simp_all
  ultimately have bounds: "w \<le> x" "x < w + 604800"
    unfolding w_def q_def [symmetric] by linarith+
  have w: "w = (q * 7 - 3) * 86400" by (simp add: w_def q_def)
  have "w mod 86400 = 0" unfolding w by (rule multiple_mod)
  moreover have "w div 86400 = q * 7 - 3" unfolding w by (rule nonzero_mult_div_cancel_right) simp
  moreover have "(q * 7 - 3 - 4) mod 7 = 0"
  proof -
    have "q * 7 - 3 - 4 = (q - 1) * 7" by simp
    then show ?thesis by (simp only: multiple_mod)
  qed
  ultimately show ?thesis using bounds by (simp split: if_split)
qed

lemma slot_start_week: "slot_start Weekly now = Some (nat ((int (unix_secs now) + 259200) div 604800 * 604800 - 259200))"
  by (simp add: slot_start_def iso_week_start_secs_def Let_def)

subsection \<open>Properties\<close>

text \<open>Claim C24: whatever the interval and the two clock readings, the slot of the later check is
  beyond the slot the file belongs to exactly when a boundary of the interval (a multiple of the
  period from the epoch, or a Monday 00:00 for weeks) lies after the first reading and not after
  the second: a rotation is neither missed nor repeated within a slot.\<close>

theorem rotation_due_at_boundary:
  assumes "period_secs i = Some p" "slot_start i t = Some a" "slot_start i t' = Some b"
  shows "a < b \<longleftrightarrow> boundary_between i p (unix_secs t) (unix_secs t')"
  using assms by (rule slot_start_less_iff)

theorem rotation_due_at_boundary_witness:
  "(345600::nat) < 950400 \<longleftrightarrow> boundary_between Weekly 604800 (unix_secs 400000000000000) (unix_secs 1000000000000000)"
proof (rule rotation_due_at_boundary)
  show "period_secs Weekly = Some 604800" by (simp add: rotation_defs)
  show "slot_start Weekly 400000000000000 = Some 345600" "slot_start Weekly 1000000000000000 = Some 950400"
    by (simp_all add: slot_start_def unix_secs_def iso_week_start_secs_def Let_def)
qed

text \<open>On the calendar, a daily slot starts at the midnight of its day, an hourly slot at
  the full hour, and a weekly slot at the midnight of a Monday at most six days back (or at the epoch,
  for the three days before the first Monday of 1970).\<close>

theorem slots_align_to_calendar:
  "(let s = int (unix_secs now); t = from_unix_micros (s * 1000000) 0;
        day = int (the (slot_start Daily now)); hour = int (the (slot_start Hourly now));
        week = int (the (slot_start Weekly now))
    in from_unix_micros (day * 1000000) 0 = t\<lparr>ts_hour := 0, ts_minute := 0, ts_second := 0\<rparr> \<and>
       from_unix_micros (hour * 1000000) 0 = t\<lparr>ts_minute := 0, ts_second := 0\<rparr> \<and>
       week \<le> s \<and> s < week + 604800 \<and> week mod 86400 = 0 \<and>
       (week = 0 \<or> (week div 86400 - days_from_civil 1970 1 5) mod 7 = 0))"
proof -
  define x where "x = int (unix_secs now)"
  have x: "0 \<le> x" by (simp add: x_def)
  have day: "int (the (slot_start Daily now)) = x div 86400 * 86400"
    by (simp add: slot_start_times x_def zdiv_int)
  have hour: "int (the (slot_start Hourly now)) = x div 3600 * 3600"
    by (simp add: slot_start_times x_def zdiv_int)
  define w where "w = (x + 259200) div 604800 * 604800 - 259200"
  have week: "int (the (slot_start Weekly now)) = (if w < 0 then 0 else w)"
    by (simp add: slot_start_week x_def [symmetric] w_def [symmetric])
  have monday: "days_from_civil 1970 1 5 = 4"
    by (simp add: days_from_civil_def days_before_year_def days_before_month_def)
  have "int (the (slot_start Weekly now)) \<le> x \<and> x < int (the (slot_start Weekly now)) + 604800 \<and>
      int (the (slot_start Weekly now)) mod 86400 = 0 \<and>
      (int (the (slot_start Weekly now)) = 0 \<or> (int (the (slot_start Weekly now)) div 86400 - 4) mod 7 = 0)"
    using week_start [OF x, folded w_def] x unfolding week by (simp split: if_splits)
  then show ?thesis
    unfolding Let_def day hour monday x_def [symmetric] by (simp only: day_start hour_start simp_thms)
qed

end
