(* ===== verification/Xos_Utf8.thy ===== *)
theory Xos_Utf8
  imports Xos_Str
begin

section \<open>UTF-8: encoding, lossy decoding, cutting a byte string\<close>

text \<open>
  \<open>String::as_bytes\<close> and \<open>String::from_utf8_lossy\<close>, which \<open>src/json.rs\<close>, \<open>src/logger.rs\<close> and
  \<open>src/syslog.rs\<close> use. The decoder follows \<open>core::str::lossy\<close>: at an ill-formed sequence the
  bytes already accepted as its prefix become one U+FFFD and decoding goes on behind them. The
  main facts are the round trip and what a cut in the middle of a character decodes to.
\<close>

definition utf8_char :: "rchar \<Rightarrow> bytes" where
  "utf8_char c =
     (if c < 0x80 then [of_nat c]
      else if c < 0x800 then [of_nat (0xC0 + c div 64), of_nat (0x80 + c mod 64)]
      else if c < 0x10000 then
        [of_nat (0xE0 + c div 4096), of_nat (0x80 + c div 64 mod 64), of_nat (0x80 + c mod 64)]
      else
        [of_nat (0xF0 + c div 262144), of_nat (0x80 + c div 4096 mod 64),
         of_nat (0x80 + c div 64 mod 64), of_nat (0x80 + c mod 64)])"

definition utf8 :: "rstr \<Rightarrow> bytes" where
  "utf8 s = concat (map utf8_char s)"

definition str_len :: "rstr \<Rightarrow> nat" where
  "str_len s = length (utf8 s)"

lemma utf8_simps [simp]:
  "utf8 [] = []"
  "utf8 (c # s) = utf8_char c @ utf8 s"
  "utf8 (s @ t) = utf8 s @ utf8 t"
  by (simp_all add: utf8_def)

lemma str_len_append [simp]: "str_len (s @ t) = str_len s + str_len t"
  by (simp add: str_len_def)

lemma utf8_char_ascii: "c < 128 \<Longrightarrow> utf8_char c = [of_nat c]"
  by (simp add: utf8_char_def)

lemma utf8_ascii: "\<forall>c \<in> set s. c < 128 \<Longrightarrow> utf8 s = map of_nat s"
  by (induction s) (auto simp: utf8_char_ascii)

lemma str_len_ascii: "\<forall>c \<in> set s. c < 128 \<Longrightarrow> str_len s = length s"
  by (simp add: str_len_def utf8_ascii)

lemma length_utf8_char: "1 \<le> length (utf8_char c)" "length (utf8_char c) \<le> 4"
  by (simp_all add: utf8_char_def)

lemma utf8_char_ne [simp]: "utf8_char c \<noteq> []"
  by (simp add: utf8_char_def)

subsection \<open>The decoder\<close>

definition replacement :: rchar where
  "replacement = 0xFFFD"

definition utf8_char_width :: "nat \<Rightarrow> nat" where
  "utf8_char_width n =
     (if n < 0x80 then 1 else if 0xC2 \<le> n \<and> n \<le> 0xDF then 2
      else if 0xE0 \<le> n \<and> n \<le> 0xEF then 3 else if 0xF0 \<le> n \<and> n \<le> 0xF4 then 4 else 0)"

definition is_cont :: "u8 \<Rightarrow> bool" where
  "is_cont b \<longleftrightarrow> 0x80 \<le> unat b \<and> unat b \<le> 0xBF"

definition second_of_3 :: "nat \<Rightarrow> u8 \<Rightarrow> bool" where
  "second_of_3 n b \<longleftrightarrow>
     (if n = 0xE0 then 0xA0 \<le> unat b \<and> unat b \<le> 0xBF
      else if n = 0xED then 0x80 \<le> unat b \<and> unat b \<le> 0x9F
      else is_cont b)"

definition second_of_4 :: "nat \<Rightarrow> u8 \<Rightarrow> bool" where
  "second_of_4 n b \<longleftrightarrow>
     (if n = 0xF0 then 0x90 \<le> unat b \<and> unat b \<le> 0xBF
      else if n = 0xF4 then 0x80 \<le> unat b \<and> unat b \<le> 0x8F
      else is_cont b)"

definition cont_bits :: "u8 \<Rightarrow> nat" where
  "cont_bits b = unat b - 0x80"

text \<open>One character: the scalar value (or U+FFFD) and the bytes behind what was consumed.\<close>

definition utf8_step :: "u8 \<Rightarrow> bytes \<Rightarrow> rchar \<times> bytes" where
  "utf8_step b bs = (let n = unat b in
     if utf8_char_width n = 1 then (n, bs)
     else if utf8_char_width n = 2 then
       (case bs of
          c1 # bs1 \<Rightarrow> if is_cont c1 then ((n - 0xC0) * 64 + cont_bits c1, bs1) else (replacement, bs)
        | [] \<Rightarrow> (replacement, []))
     else if utf8_char_width n = 3 then
       (case bs of
          c1 # bs1 \<Rightarrow>
            if second_of_3 n c1 then
              (case bs1 of
                 c2 # bs2 \<Rightarrow>
                   if is_cont c2 then ((n - 0xE0) * 4096 + cont_bits c1 * 64 + cont_bits c2, bs2)
                   else (replacement, bs1)
               | [] \<Rightarrow> (replacement, []))
            else (replacement, bs)
        | [] \<Rightarrow> (replacement, []))
     else if utf8_char_width n = 4 then
       (case bs of
          c1 # bs1 \<Rightarrow>
            if second_of_4 n c1 then
              (case bs1 of
                 c2 # bs2 \<Rightarrow>
                   if is_cont c2 then
                     (case bs2 of
                        c3 # bs3 \<Rightarrow>
                          if is_cont c3 then
                            ((n - 0xF0) * 262144 + cont_bits c1 * 4096 + cont_bits c2 * 64
                               + cont_bits c3, bs3)
                          else (replacement, bs2)
                      | [] \<Rightarrow> (replacement, []))
                   else (replacement, bs1)
               | [] \<Rightarrow> (replacement, []))
            else (replacement, bs)
        | [] \<Rightarrow> (replacement, []))
     else (replacement, bs))"

lemma utf8_step_length: "utf8_step b bs = (c, rest) \<Longrightarrow> length rest \<le> length bs"
  by (auto simp: utf8_step_def Let_def split: if_splits list.splits)

function from_utf8_lossy :: "bytes \<Rightarrow> rstr" where
  "from_utf8_lossy [] = []"
| "from_utf8_lossy (b # bs) = (case utf8_step b bs of (c, rest) \<Rightarrow> c # from_utf8_lossy rest)"
  by pat_completeness auto
termination
  by (relation "measure length") (auto dest: utf8_step_length [OF sym] simp: le_imp_less_Suc)

subsection \<open>Round trip\<close>

lemma unat_u8 [simp]: "n < 256 \<Longrightarrow> unat (of_nat n :: u8) = n"
  by (simp add: unat_of_nat)

lemma is_cont_u8: "r < 64 \<Longrightarrow> is_cont (of_nat (0x80 + r))" "r < 64 \<Longrightarrow> cont_bits (of_nat (0x80 + r)) = r"
  by (simp_all add: is_cont_def cont_bits_def del: of_nat_add)

text \<open>Base-64 expansions.\<close>

lemma base64_3: "(c::nat) = 4096 * (c div 4096) + 64 * (c div 64 mod 64) + c mod 64"
proof -
  have "c div 4096 = c div 64 div 64" by (simp add: div_mult2_eq [symmetric])
  then show ?thesis
    using mult_div_mod_eq [of 64 c] mult_div_mod_eq [of 64 "c div 64"] by linarith
qed

lemma base64_4:
  "(c::nat) = 262144 * (c div 262144) + 4096 * (c div 4096 mod 64) + 64 * (c div 64 mod 64) + c mod 64"
proof -
  have "c div 262144 = c div 4096 div 64" by (simp add: div_mult2_eq [symmetric])
  then show ?thesis
    using base64_3 [of c] mult_div_mod_eq [of 64 "c div 4096"] by linarith
qed

lemma utf8_step_2:
  assumes "2 \<le> q" "q < 32" "t < 64"
  shows "utf8_step (of_nat (0xC0 + q)) (of_nat (0x80 + t) # bs) = (64 * q + t, bs)"
proof -
  have "unat (of_nat (0xC0 + q) :: u8) = 0xC0 + q" using assms by (intro unat_u8) simp
  then show ?thesis
    using assms is_cont_u8 [of t]
    by (simp add: utf8_step_def utf8_char_width_def del: of_nat_add)
qed

lemma second_of_3_u8:
  assumes "q < 16" "r < 64" "q = 0 \<longrightarrow> 32 \<le> r" "q = 13 \<longrightarrow> r < 32"
  shows "second_of_3 (0xE0 + q) (of_nat (0x80 + r))"
proof -
  have "unat (of_nat (0x80 + r) :: u8) = 0x80 + r" using assms by (intro unat_u8) simp
  then show ?thesis using assms is_cont_u8 [of r] by (auto simp: second_of_3_def simp del: of_nat_add)
qed

lemma second_of_4_u8:
  assumes "q < 5" "r < 64" "q = 0 \<longrightarrow> 16 \<le> r" "q = 4 \<longrightarrow> r < 16"
  shows "second_of_4 (0xF0 + q) (of_nat (0x80 + r))"
proof -
  have "unat (of_nat (0x80 + r) :: u8) = 0x80 + r" using assms by (intro unat_u8) simp
  then show ?thesis using assms is_cont_u8 [of r] by (auto simp: second_of_4_def simp del: of_nat_add)
qed

lemma utf8_step_3:
  assumes "q < 16" "r < 64" "q = 0 \<longrightarrow> 32 \<le> r" "q = 13 \<longrightarrow> r < 32"
  shows "t < 64 \<Longrightarrow> utf8_step (of_nat (0xE0 + q)) (of_nat (0x80 + r) # of_nat (0x80 + t) # bs) =
           (4096 * q + 64 * r + t, bs)"
    and "utf8_step (of_nat (0xE0 + q)) [of_nat (0x80 + r)] = (replacement, [])"
    and "utf8_step (of_nat (0xE0 + q)) [] = (replacement, [])"
proof -
  have "unat (of_nat (0xE0 + q) :: u8) = 0xE0 + q" using assms by (intro unat_u8) simp
  then show "t < 64 \<Longrightarrow> utf8_step (of_nat (0xE0 + q)) (of_nat (0x80 + r) # of_nat (0x80 + t) # bs) =
           (4096 * q + 64 * r + t, bs)"
    and "utf8_step (of_nat (0xE0 + q)) [of_nat (0x80 + r)] = (replacement, [])"
    and "utf8_step (of_nat (0xE0 + q)) [] = (replacement, [])"
    using assms is_cont_u8 [of t] is_cont_u8 [of r] second_of_3_u8 [OF assms]
    by (simp_all add: utf8_step_def utf8_char_width_def del: of_nat_add)
qed

lemma utf8_step_4:
  assumes "q < 5" "r < 64" "q = 0 \<longrightarrow> 16 \<le> r" "q = 4 \<longrightarrow> r < 16" "s < 64"
  shows "t < 64 \<Longrightarrow> utf8_step (of_nat (0xF0 + q))
             (of_nat (0x80 + r) # of_nat (0x80 + s) # of_nat (0x80 + t) # bs) =
           (262144 * q + 4096 * r + 64 * s + t, bs)"
    and "utf8_step (of_nat (0xF0 + q)) [of_nat (0x80 + r), of_nat (0x80 + s)] = (replacement, [])"
    and "utf8_step (of_nat (0xF0 + q)) [of_nat (0x80 + r)] = (replacement, [])"
    and "utf8_step (of_nat (0xF0 + q)) [] = (replacement, [])"
proof -
  have "unat (of_nat (0xF0 + q) :: u8) = 0xF0 + q" using assms by (intro unat_u8) simp
  then show "t < 64 \<Longrightarrow> utf8_step (of_nat (0xF0 + q))
             (of_nat (0x80 + r) # of_nat (0x80 + s) # of_nat (0x80 + t) # bs) =
           (262144 * q + 4096 * r + 64 * s + t, bs)"
    and "utf8_step (of_nat (0xF0 + q)) [of_nat (0x80 + r), of_nat (0x80 + s)] = (replacement, [])"
    and "utf8_step (of_nat (0xF0 + q)) [of_nat (0x80 + r)] = (replacement, [])"
    and "utf8_step (of_nat (0xF0 + q)) [] = (replacement, [])"
    using assms is_cont_u8 [of s] is_cont_u8 [of t] is_cont_u8 [of r]
      second_of_4_u8 [OF assms(1-4)]
    by (simp_all add: utf8_step_def utf8_char_width_def del: of_nat_add)
qed

text \<open>The four shapes of an encoded scalar value, with the digits of its base-64 expansion.\<close>

lemma scalar_cases:
  assumes "scalar c"
  obtains
    (one) "c < 128" "utf8_char c = [of_nat c]"
  | (two) q t where "c = 64 * q + t" "2 \<le> q" "q < 32" "t < 64"
      "utf8_char c = [of_nat (0xC0 + q), of_nat (0x80 + t)]"
  | (three) q r t where "c = 4096 * q + 64 * r + t" "q < 16" "r < 64" "t < 64"
      "q = 0 \<longrightarrow> 32 \<le> r" "q = 13 \<longrightarrow> r < 32"
      "utf8_char c = [of_nat (0xE0 + q), of_nat (0x80 + r), of_nat (0x80 + t)]"
  | (four) q r s t where "c = 262144 * q + 4096 * r + 64 * s + t"
      "q < 5" "r < 64" "s < 64" "t < 64" "q = 0 \<longrightarrow> 16 \<le> r" "q = 4 \<longrightarrow> r < 16"
      "utf8_char c = [of_nat (0xF0 + q), of_nat (0x80 + r), of_nat (0x80 + s), of_nat (0x80 + t)]"
proof -
  consider "c < 0x80" | "0x80 \<le> c" "c < 0x800" | "0x800 \<le> c" "c < 0x10000" | "0x10000 \<le> c"
    by linarith
  then show thesis
  proof cases
    case 1
    then show thesis by (intro one) (simp_all add: utf8_char_ascii)
  next
    case 2
    then show thesis by (intro two [of "c div 64" "c mod 64"]) (simp_all add: utf8_char_def)
  next
    case 3
    define q r where "q = c div 4096" and "r = c div 64 mod 64"
    have c: "c = 4096 * q + 64 * r + c mod 64" unfolding q_def r_def by (rule base64_3)
    have q: "q < 16" "r < 64" using 3 unfolding q_def r_def by simp_all
    have "q = 0 \<longrightarrow> 32 \<le> r" using 3 c by auto
    moreover have "q = 13 \<longrightarrow> r < 32" 
      using assms c q 3 mod_less_divisor [of 64 c] unfolding scalar_def by auto
    ultimately show thesis
      using 3 c q by (intro three [of q r "c mod 64"]) (simp_all add: utf8_char_def q_def r_def)
  next
    case 4
    define q r s where "q = c div 262144" and "r = c div 4096 mod 64" and "s = c div 64 mod 64"
    have c: "c = 262144 * q + 4096 * r + 64 * s + c mod 64"
      unfolding q_def r_def s_def by (rule base64_4)
    have hi: "c < 0x110000" using assms 4 unfolding scalar_def by auto
    have q: "q < 5" "r < 64" "s < 64" using hi unfolding q_def r_def s_def by simp_all
    have a: "q = 0 \<longrightarrow> 16 \<le> r" using 4 c q by auto
    have b: "q = 4 \<longrightarrow> r < 16" using hi c by auto
    have u: "utf8_char c = [of_nat (0xF0 + q), of_nat (0x80 + r), of_nat (0x80 + s),
        of_nat (0x80 + c mod 64)]"
      using 4 by (simp add: utf8_char_def q_def r_def s_def)
    show thesis by (rule four [OF c q _ a b u]) simp
  qed
qed

lemma lossy_utf8_char:
  assumes "scalar c"
  shows "from_utf8_lossy (utf8_char c @ bs) = c # from_utf8_lossy bs"
  using assms
proof (cases rule: scalar_cases)
  case one
  then show ?thesis by (simp add: utf8_step_def utf8_char_width_def)
next
  case (two q t)
  then show ?thesis by (simp add: utf8_step_2 del: of_nat_add)
next
  case (three q r t)
  then show ?thesis by (simp add: utf8_step_3 del: of_nat_add)
next
  case (four q r s t)
  then show ?thesis by (simp add: utf8_step_4 del: of_nat_add)
qed

theorem from_utf8_lossy_utf8 [simp]: "valid_str s \<Longrightarrow> from_utf8_lossy (utf8 s) = s"
  by (induction s) (simp_all add: lossy_utf8_char)

lemma from_utf8_lossy_append:
  "valid_str s \<Longrightarrow> from_utf8_lossy (utf8 s @ bs) = s @ from_utf8_lossy bs"
  by (induction s) (simp_all add: lossy_utf8_char)

lemma utf8_inject: "valid_str s \<Longrightarrow> valid_str t \<Longrightarrow> utf8 s = utf8 t \<longleftrightarrow> s = t"
  by (metis from_utf8_lossy_utf8)

subsection \<open>Cutting an encoded string\<close>

text \<open>A proper prefix of one encoded character decodes to a single U+FFFD.\<close>

lemma lossy_cut_char:
  assumes "scalar c" "0 < k" "k < length (utf8_char c)"
  shows "from_utf8_lossy (take k (utf8_char c)) = [replacement]"
  using assms(1)
proof (cases rule: scalar_cases)
  case one
  with assms show ?thesis by simp
next
  case (two q t)
  with assms have "k = 1" by simp
  moreover have "unat (of_nat (0xC0 + q) :: u8) = 0xC0 + q" using two by (intro unat_u8) simp
  ultimately show ?thesis
    using two by (simp add: utf8_step_def utf8_char_width_def del: of_nat_add)
next
  case (three q r t)
  with assms have "k = 1 \<or> k = 2" by auto
  with three utf8_step_3 [of q r] show ?thesis by (auto simp del: of_nat_add)
next
  case (four q r s t)
  with assms have "k = 1 \<or> k = 2 \<or> k = 3" by auto
  with four utf8_step_4 [of q r s] show ?thesis
    by (auto simp: numeral_2_eq_2 numeral_3_eq_3 simp del: of_nat_add)
qed

text \<open>
  Cutting the bytes of a string after \<open>n\<close> bytes and decoding: whole characters, and one U+FFFD
  exactly when the cut falls inside a character.
\<close>

lemma lossy_cut:
  assumes "valid_str s"
  obtains (boundary) j where "from_utf8_lossy (take n (utf8 s)) = take j s" "str_len (take j s) \<le> n"
      "take n (utf8 s) = utf8 (take j s)"
    | (inside) j where "from_utf8_lossy (take n (utf8 s)) = take j s @ [replacement]"
      "str_len (take j s) < n"
proof -
  have "(\<exists>j. take n (utf8 s) = utf8 (take j s)) \<or>
        (\<exists>j. from_utf8_lossy (take n (utf8 s)) = take j s @ [replacement] \<and> str_len (take j s) < n)"
    using assms
  proof (induction s arbitrary: n)
    case Nil
    then show ?case by simp
  next
    case (Cons c s)
    let ?l = "length (utf8_char c)"
    have sc: "scalar c" and vs: "valid_str s" using Cons.prems by auto
    consider "n = 0" | "0 < n" "n < ?l" | "?l \<le> n" by linarith
    then show ?case
    proof cases
      case 1
      have "take n (utf8 (c # s)) = utf8 (take 0 (c # s))" using 1 by simp
      then show ?thesis by blast
    next
      case 2
      have "from_utf8_lossy (take n (utf8 (c # s))) = take 0 (c # s) @ [replacement]"
        using 2 lossy_cut_char [OF sc, of n] by simp
      moreover have "str_len (take 0 (c # s)) < n" using 2 by (simp add: str_len_def)
      ultimately show ?thesis by blast
    next
      case 3
      from Cons.IH [OF vs, of "n - ?l"] show ?thesis
      proof (elim disjE exE conjE)
        fix j assume "take (n - ?l) (utf8 s) = utf8 (take j s)"
        then have "take n (utf8 (c # s)) = utf8 (take (Suc j) (c # s))" using 3 by simp
        then show ?thesis by blast
      next
        fix j assume "from_utf8_lossy (take (n - ?l) (utf8 s)) = take j s @ [replacement]"
          and "str_len (take j s) < n - ?l"
        then have "from_utf8_lossy (take n (utf8 (c # s))) = take (Suc j) (c # s) @ [replacement]"
          and "str_len (take (Suc j) (c # s)) < n"
          using 3 sc by (simp_all add: lossy_utf8_char str_len_def)
        then show ?thesis by blast
      qed
    qed
  qed
  then show thesis
  proof (elim disjE exE conjE)
    fix j assume eq: "take n (utf8 s) = utf8 (take j s)"
    have "valid_str (take j s)" using assms by (auto simp: valid_str_def dest: in_set_takeD)
    then show thesis
      using eq by (intro boundary [of j]) (simp_all add: str_len_def, simp flip: eq)
  next
    fix j assume "from_utf8_lossy (take n (utf8 s)) = take j s @ [replacement]" "str_len (take j s) < n"
    then show thesis by (rule inside)
  qed
qed

lemma str_len_replacement [simp]: "str_len [replacement] = 3"
  by (simp add: str_len_def utf8_char_def replacement_def)

text \<open>Decoding a cut string and encoding it again adds at most two bytes to the cut.\<close>

lemma lossy_cut_length:
  "valid_str s \<Longrightarrow> str_len (from_utf8_lossy (take n (utf8 s))) \<le> n + 2"
  by (erule lossy_cut [of s n]) auto

end
