(* ===== verification/Xos_World.thy ===== *)
theory Xos_World
  imports Xos_Time Xos_Utf8
begin

section \<open>The outside world: clock, files, standard streams, sockets\<close>

text \<open>
  What the crate uses of \<open>std::fs\<close>, \<open>std::io\<close>, \<open>std::time\<close> and the datagram sockets, as state.

  \<^item> Every call that can fail takes the next element of \<open>w_fault\<close>: \<open>None\<close> lets it succeed,
    \<open>Some k\<close> makes it fail (a write after its first \<open>k\<close> bytes). Theorems quantify over the whole
    sequence, so they hold for every pattern of failures.
  \<^item> Every reading of the clock takes the next element of \<open>w_clock\<close>; the clock may jump.
  \<^item> A path names an inode; a file handle keeps its inode when the path is renamed or removed.
    Directories are not tracked: that a directory is missing or not writable is a failure of the
    call.
  \<^item> Nothing else writes the files (another process sharing the log file is outside the model).
  \<^item> Bytes written to a standard stream appear there at once: the code flushes after each write.
\<close>

type_synonym path = rstr

record world =
  w_clock :: "nat \<Rightarrow> system_time"
  w_ticks :: nat
  w_fault :: "nat \<Rightarrow> nat option"
  w_calls :: nat
  w_dir :: "path \<Rightarrow> nat option"
  w_data :: "nat \<Rightarrow> bytes"
  w_mtime :: "nat \<Rightarrow> system_time"
  w_next :: nat
  w_stdout :: bytes
  w_stderr :: bytes
  w_sent :: "(path \<times> bytes) list"

record fhandle =
  fd_inode :: nat
  fd_append :: bool
  fd_pos :: nat

text \<open>\<open>SystemTime::now()\<close>.\<close>

definition system_now :: "world \<Rightarrow> system_time \<times> world" where
  "system_now w = (w_clock w (w_ticks w), w\<lparr>w_ticks := Suc (w_ticks w)\<rparr>)"

definition syscall :: "world \<Rightarrow> nat option \<times> world" where
  "syscall w = (w_fault w (w_calls w), w\<lparr>w_calls := Suc (w_calls w)\<rparr>)"

subsection \<open>Files\<close>

text \<open>\<open>create_dir_all\<close>; directories are not tracked.\<close>

definition fs_create_dir_all :: "path \<Rightarrow> world \<Rightarrow> unit io_result \<times> world" where
  "fs_create_dir_all p w =
     (case syscall w of (None, w) \<Rightarrow> (Inr (), w) | (Some _, w) \<Rightarrow> (Inl OtherError, w))"

text \<open>The inode of a path, a new empty one when the path names nothing.\<close>

definition fs_lookup_create :: "path \<Rightarrow> world \<Rightarrow> nat \<times> world" where
  "fs_lookup_create p w =
     (case w_dir w p of
        Some i \<Rightarrow> (i, w)
      | None \<Rightarrow> (let i = w_next w in
          (i, w\<lparr>w_dir := (w_dir w)(p \<mapsto> i), w_data := (w_data w)(i := []),
               w_mtime := (w_mtime w)(i := w_clock w (w_ticks w)), w_next := Suc i\<rparr>)))"

text \<open>\<open>OpenOptions::new().create(true).append(true).open(p)\<close>.\<close>

definition fs_open_append :: "path \<Rightarrow> world \<Rightarrow> fhandle io_result \<times> world" where
  "fs_open_append p w =
     (case syscall w of
        (Some _, w) \<Rightarrow> (Inl OtherError, w)
      | (None, w) \<Rightarrow> (case fs_lookup_create p w of
          (i, w) \<Rightarrow> (Inr \<lparr>fd_inode = i, fd_append = True, fd_pos = 0\<rparr>, w)))"

text \<open>\<open>OpenOptions::new().create(true).write(true).truncate(true).open(p)\<close>.\<close>

definition fs_open_truncate :: "path \<Rightarrow> world \<Rightarrow> fhandle io_result \<times> world" where
  "fs_open_truncate p w =
     (case syscall w of
        (Some _, w) \<Rightarrow> (Inl OtherError, w)
      | (None, w) \<Rightarrow> (case fs_lookup_create p w of
          (i, w) \<Rightarrow> (Inr \<lparr>fd_inode = i, fd_append = False, fd_pos = 0\<rparr>,
                       w\<lparr>w_data := (w_data w)(i := []),
                         w_mtime := (w_mtime w)(i := w_clock w (w_ticks w))\<rparr>)))"

text \<open>Writing at a position: a gap is filled with zeros, what lies behind stays.\<close>

definition write_at :: "nat \<Rightarrow> bytes \<Rightarrow> bytes \<Rightarrow> bytes" where
  "write_at n bs d = take n d @ replicate (n - length d) 0 @ bs @ drop (n + length bs) d"

definition fs_put :: "fhandle \<Rightarrow> bytes \<Rightarrow> world \<Rightarrow> fhandle \<times> world" where
  "fs_put f bs w =
     (let i = fd_inode f; d = w_data w i;
          d' = (if fd_append f then d @ bs else write_at (fd_pos f) bs d)
      in (f\<lparr>fd_pos := (if fd_append f then length d' else fd_pos f + length bs)\<rparr>,
          w\<lparr>w_data := (w_data w)(i := d'),
            w_mtime := (w_mtime w)(i := w_clock w (w_ticks w))\<rparr>))"

text \<open>\<open>File::write_all\<close>.\<close>

definition fs_write_all :: "fhandle \<Rightarrow> bytes \<Rightarrow> world \<Rightarrow> unit io_result \<times> fhandle \<times> world" where
  "fs_write_all f bs w =
     (case syscall w of
        (None, w) \<Rightarrow> (case fs_put f bs w of (f, w) \<Rightarrow> (Inr (), f, w))
      | (Some k, w) \<Rightarrow> (case fs_put f (take k bs) w of (f, w) \<Rightarrow> (Inl OtherError, f, w)))"

text \<open>\<open>File::flush\<close> does nothing and succeeds; \<open>sync_all\<close> can fail and changes no contents.\<close>

definition fs_flush :: "fhandle \<Rightarrow> world \<Rightarrow> unit io_result \<times> world" where
  "fs_flush f w = (Inr (), w)"

definition fs_sync_all :: "fhandle \<Rightarrow> world \<Rightarrow> unit io_result \<times> world" where
  "fs_sync_all f w =
     (case syscall w of (None, w) \<Rightarrow> (Inr (), w) | (Some _, w) \<Rightarrow> (Inl OtherError, w))"

text \<open>\<open>File::metadata\<close>: length and modification time.\<close>

definition fs_metadata :: "fhandle \<Rightarrow> world \<Rightarrow> (nat \<times> system_time) io_result \<times> world" where
  "fs_metadata f w =
     (case syscall w of
        (None, w) \<Rightarrow> (Inr (length (w_data w (fd_inode f)), w_mtime w (fd_inode f)), w)
      | (Some _, w) \<Rightarrow> (Inl OtherError, w))"

definition fs_remove_file :: "path \<Rightarrow> world \<Rightarrow> unit io_result \<times> world" where
  "fs_remove_file p w =
     (case syscall w of
        (Some _, w) \<Rightarrow> (Inl OtherError, w)
      | (None, w) \<Rightarrow> (case w_dir w p of
            None \<Rightarrow> (Inl NotFound, w)
          | Some _ \<Rightarrow> (Inr (), w\<lparr>w_dir := (w_dir w)(p := None)\<rparr>)))"

definition fs_rename :: "path \<Rightarrow> path \<Rightarrow> world \<Rightarrow> unit io_result \<times> world" where
  "fs_rename src dst w =
     (case syscall w of
        (Some _, w) \<Rightarrow> (Inl OtherError, w)
      | (None, w) \<Rightarrow> (case w_dir w src of
            None \<Rightarrow> (Inl NotFound, w)
          | Some i \<Rightarrow> (Inr (), w\<lparr>w_dir := ((w_dir w)(src := None))(dst \<mapsto> i)\<rparr>)))"

subsection \<open>Standard streams\<close>

definition stdout_write_all :: "bytes \<Rightarrow> world \<Rightarrow> unit io_result \<times> world" where
  "stdout_write_all bs w =
     (case syscall w of
        (None, w) \<Rightarrow> (Inr (), w\<lparr>w_stdout := w_stdout w @ bs\<rparr>)
      | (Some k, w) \<Rightarrow> (Inl OtherError, w\<lparr>w_stdout := w_stdout w @ take k bs\<rparr>))"

definition stderr_write_all :: "bytes \<Rightarrow> world \<Rightarrow> unit io_result \<times> world" where
  "stderr_write_all bs w =
     (case syscall w of
        (None, w) \<Rightarrow> (Inr (), w\<lparr>w_stderr := w_stderr w @ bs\<rparr>)
      | (Some k, w) \<Rightarrow> (Inl OtherError, w\<lparr>w_stderr := w_stderr w @ take k bs\<rparr>))"

definition std_flush :: "world \<Rightarrow> unit io_result \<times> world" where
  "std_flush w =
     (case syscall w of (None, w) \<Rightarrow> (Inr (), w) | (Some _, w) \<Rightarrow> (Inl OtherError, w))"

subsection \<open>Datagram sockets\<close>

text \<open>A connected socket is its destination. \<open>send\<close> on a datagram socket delivers all or nothing.\<close>

definition sock_connect :: "path \<Rightarrow> world \<Rightarrow> bool \<times> world" where
  "sock_connect p w = (case syscall w of (None, w) \<Rightarrow> (True, w) | (Some _, w) \<Rightarrow> (False, w))"

definition sock_create :: "world \<Rightarrow> bool \<times> world" where
  "sock_create w = (case syscall w of (None, w) \<Rightarrow> (True, w) | (Some _, w) \<Rightarrow> (False, w))"

definition sock_send :: "path \<Rightarrow> bytes \<Rightarrow> world \<Rightarrow> unit io_result \<times> world" where
  "sock_send dest bs w =
     (case syscall w of
        (None, w) \<Rightarrow> (Inr (), w\<lparr>w_sent := w_sent w @ [(dest, bs)]\<rparr>)
      | (Some _, w) \<Rightarrow> (Inl OtherError, w))"

end
