(* ===== verification/Xos_Level.thy ===== *)
theory Xos_Level
  imports Xos_Str
begin

section \<open>Severity levels (\<open>src/level.rs\<close>)\<close>

text \<open>
  \<open>enum Level\<close> with the order derived from its declaration, \<open>Level::as_str\<close> and
  \<open>Level::parse\<close>. The order is an instance of \<open>linorder\<close>, so that the library's lemmas on
  linear orders apply to thresholds.
\<close>

datatype level = Trace | Debug | Info | Warn | Error | Off

text \<open>The discriminant (\<open>#[repr(u8)]\<close>), on which \<open>PartialOrd\<close> and \<open>Ord\<close> are derived.\<close>

fun level_repr :: "level \<Rightarrow> nat" where
  "level_repr Trace = 0"
| "level_repr Debug = 1"
| "level_repr Info = 2"
| "level_repr Warn = 3"
| "level_repr Error = 4"
| "level_repr Off = 5"

lemma level_repr_inject [simp]: "level_repr a = level_repr b \<longleftrightarrow> a = b"
  by (cases a; cases b) simp_all

text \<open>The comparison operators the derivation generates, and the instance they give.\<close>

definition level_le :: "level \<Rightarrow> level \<Rightarrow> bool" where
  "level_le a b \<longleftrightarrow> level_repr a \<le> level_repr b"

definition level_lt :: "level \<Rightarrow> level \<Rightarrow> bool" where
  "level_lt a b \<longleftrightarrow> level_repr a < level_repr b"

instantiation level :: linorder
begin

definition less_eq_level :: "level \<Rightarrow> level \<Rightarrow> bool" where
  "less_eq_level a b \<longleftrightarrow> level_le a b"

definition less_level :: "level \<Rightarrow> level \<Rightarrow> bool" where
  "less_level a b \<longleftrightarrow> level_lt a b"

instance
  by standard (auto simp: less_eq_level_def less_level_def level_le_def level_lt_def)

end

lemmas level_order_defs [xos_defs] = less_eq_level_def less_level_def level_le_def level_lt_def

lemma level_le_Off [simp]: "(l::level) \<le> Off"
  by (cases l) (simp_all add: level_order_defs)

lemma level_Trace_le [simp]: "Trace \<le> (l::level)"
  by (cases l) (simp_all add: level_order_defs)

lemma level_less_Trace [simp]: "\<not> (l::level) < Trace"
  by (simp add: not_less)

lemma level_Off_less [simp]: "\<not> Off < (l::level)"
  by (simp add: not_less)

lemma Off_le_iff [simp]: "Off \<le> (l::level) \<longleftrightarrow> l = Off"
  by (auto intro: antisym)

definition level_as_str :: "level \<Rightarrow> rstr" where
  "level_as_str l = (case l of
     Trace \<Rightarrow> lit ''TRACE''
   | Debug \<Rightarrow> lit ''DEBUG''
   | Info \<Rightarrow> lit ''INFO''
   | Warn \<Rightarrow> lit ''WARN''
   | Error \<Rightarrow> lit ''ERROR''
   | Off \<Rightarrow> lit ''OFF'')"

definition level_parse :: "rstr \<Rightarrow> level option" where
  "level_parse input = (let s = to_ascii_lowercase (trim input) in
     if s = lit ''trace'' then Some Trace
     else if s = lit ''debug'' then Some Debug
     else if s = lit ''info'' then Some Info
     else if s = lit ''warn'' \<or> s = lit ''warning'' then Some Warn
     else if s = lit ''error'' then Some Error
     else if s = lit ''off'' then Some Off
     else None)"

subsection \<open>Properties\<close>

text \<open>The lower-case names of each level that \<open>parse\<close> accepts.\<close>

definition level_names :: "level \<Rightarrow> rstr set" where
  "level_names l = (case l of
     Trace \<Rightarrow> {lit ''trace''}
   | Debug \<Rightarrow> {lit ''debug''}
   | Info \<Rightarrow> {lit ''info''}
   | Warn \<Rightarrow> {lit ''warn'', lit ''warning''}
   | Error \<Rightarrow> {lit ''error''}
   | Off \<Rightarrow> {lit ''off''})"

lemma level_parse_iff:
  "level_parse s = Some l \<longleftrightarrow> to_ascii_lowercase (trim s) \<in> level_names l"
  by (cases l) (auto simp: level_parse_def level_names_def Let_def)

lemma level_parse_empty [simp]: "level_parse [] = None"
  by (simp add: level_parse_def trim_def trim_start_def trim_end_def to_ascii_lowercase_def)

lemma level_parse_trim [simp]: "level_parse (trim s) = level_parse s"
  by (simp add: level_parse_def)

lemma level_parse_case:
  "to_ascii_lowercase (trim s) = to_ascii_lowercase (trim t) \<Longrightarrow> level_parse s = level_parse t"
  by (simp add: level_parse_def)

lemma level_parse_as_str [simp]: "level_parse (level_as_str l) = Some l"
  by (cases l) (simp_all add: level_parse_iff level_names_def level_as_str_def trim_def trim_start_def
      trim_end_def is_whitespace_def to_ascii_lowercase_def to_ascii_lowercase_char_def)

lemma trim_padded:
  assumes "list_all is_whitespace a" "list_all is_whitespace b"
    and "w \<noteq> []" "\<not> is_whitespace (hd w)" "\<not> is_whitespace (last w)"
  shows "trim (a @ w @ b) = w"
proof -
  obtain c w' where w: "w = c # w'" using assms(3) by (cases w) auto
  obtain v d where v: "w = v @ [d]" using assms(3) by (cases w rule: rev_cases) auto
  have "trim_start (a @ w @ b) = w @ b"
    using assms(1,4) unfolding trim_start_def w by (simp add: list_all_iff dropWhile_append_not)
  moreover have "trim_end (w @ b) = w"
    using assms(2,5) unfolding trim_end_def v by (simp add: list_all_iff dropWhile_append_not)
  ultimately show ?thesis by (simp add: trim_def)
qed

lemma trim_decompose:
  "\<exists>a b. s = a @ trim s @ b \<and> list_all is_whitespace a \<and> list_all is_whitespace b"
proof -
  let ?a = "takeWhile is_whitespace s" and ?r = "trim_start s"
  have "?r = trim_end ?r @ rev (takeWhile is_whitespace (rev ?r))"
    unfolding trim_end_def by (metis rev_append rev_rev_ident takeWhile_dropWhile_id)
  then have "s = ?a @ trim s @ rev (takeWhile is_whitespace (rev ?r))"
    by (metis takeWhile_dropWhile_id trim_def trim_start_def)
  moreover have "list_all is_whitespace ?a" "list_all is_whitespace (rev (takeWhile is_whitespace (rev ?r)))"
    by (auto simp: list_all_iff dest: set_takeWhileD)
  ultimately show ?thesis by blast
qed

lemma lower_whitespace: "is_whitespace c \<Longrightarrow> to_ascii_lowercase_char c = c"
  by (auto simp: is_whitespace_def to_ascii_lowercase_char_def)

lemma level_name_ends:
  assumes "to_ascii_lowercase w \<in> level_names l"
  shows "w \<noteq> [] \<and> \<not> is_whitespace (hd w) \<and> \<not> is_whitespace (last w)"
proof -
  let ?n = "to_ascii_lowercase w"
  have n: "?n \<noteq> [] \<and> \<not> is_whitespace (hd ?n) \<and> \<not> is_whitespace (last ?n)"
    using assms by (cases l) (auto simp: level_names_def is_whitespace_def)
  then have "w \<noteq> []" by (auto simp: to_ascii_lowercase_def)
  moreover from this have "hd ?n = to_ascii_lowercase_char (hd w)" "last ?n = to_ascii_lowercase_char (last w)"
    by (simp_all add: to_ascii_lowercase_def hd_map last_map)
  ultimately show ?thesis using n by (metis lower_whitespace)
qed

subsection \<open>Property\<close>

text \<open>\<open>parse\<close> accepts exactly the names of a level, in any mix of upper and lower case
  and with any white space around them; among them is the name \<open>as_str\<close> gives the level.\<close>

theorem level_parse_exact:
  "(level_parse s = Some l \<longleftrightarrow>
     (\<exists>a w b. s = a @ w @ b \<and> list_all is_whitespace a \<and> list_all is_whitespace b \<and>
        to_ascii_lowercase w \<in> level_names l)) \<and>
   to_ascii_lowercase (level_as_str l) \<in> level_names l"
proof -
  have "to_ascii_lowercase (level_as_str l) \<in> level_names l"
    using level_parse_as_str [of l] unfolding level_parse_iff
    by (cases l) (simp_all add: level_as_str_def level_names_def to_ascii_lowercase_def
        to_ascii_lowercase_char_def)
  moreover have "trim (a @ w @ b) = w" if "list_all is_whitespace a" "list_all is_whitespace b"
      "to_ascii_lowercase w \<in> level_names l" for a w b
    using trim_padded that level_name_ends by blast
  ultimately show ?thesis using trim_decompose [of s] by (auto simp: level_parse_iff)
qed

end
