(* ===== verification/Xos_Float.thy ===== *)
theory Xos_Float
  imports Xos_Str
begin

section \<open>64-bit floats and their shortest decimal form\<close>

text \<open>
  What \<open>src/entry.rs\<close> and \<open>src/json.rs\<close> use of \<open>f64\<close>: \<open>is_finite\<close> and \<open>Display\<close>. A float is its
  IEEE 754 bit pattern. \<open>fmt_f64\<close> is the standard library's shortest formatting: the decoding of
  the bits with the rounding interval of the neighbours, the exact digit generation (Steele and
  White's algorithm, as in \<open>core::num::flt2dec\<close>), and the layout without an exponent.
\<close>

type_synonym f64 = "64 word"

definition f64_negative :: "f64 \<Rightarrow> bool" where
  "f64_negative f \<longleftrightarrow> 2 ^ 63 \<le> unat f"

definition f64_exponent :: "f64 \<Rightarrow> nat" where
  "f64_exponent f = unat f div 2 ^ 52 mod 2 ^ 11"

definition f64_fraction :: "f64 \<Rightarrow> nat" where
  "f64_fraction f = unat f mod 2 ^ 52"

definition f64_is_finite :: "f64 \<Rightarrow> bool" where
  "f64_is_finite f \<longleftrightarrow> f64_exponent f \<noteq> 2047"

text \<open>\<open>f64::from(f32)\<close>: the exact widening; a NaN stays a NaN (and is quieted).\<close>

type_synonym f32 = "32 word"

fun bit_length :: "nat \<Rightarrow> nat" where
  "bit_length n = (if n = 0 then 0 else Suc (bit_length (n div 2)))"

declare bit_length.simps [simp del]

definition f64_from_f32 :: "f32 \<Rightarrow> f64" where
  "f64_from_f32 w =
     (let s = unat w div 2 ^ 31 * 2 ^ 63; e = unat w div 2 ^ 23 mod 2 ^ 8; m = unat w mod 2 ^ 23 in
      if e = 255 then
        (if m = 0 then of_nat (s + 2047 * 2 ^ 52)
         else of_nat (s + 2047 * 2 ^ 52 + 2 ^ 51 + m * 2 ^ 29 mod 2 ^ 51))
      else if e = 0 then
        (if m = 0 then of_nat s
         else (let b = bit_length m in of_nat (s + (b + 873) * 2 ^ 52 + (m * 2 ^ (53 - b) - 2 ^ 52))))
      else of_nat (s + (e + 896) * 2 ^ 52 + m * 2 ^ 29))"

text \<open>
  A decoded finite non-zero value: \<open>mant * 2 ^ ex\<close>; every number between
  \<open>(mant - mn) * 2 ^ ex\<close> and \<open>(mant + pl) * 2 ^ ex\<close> rounds to it, the ends included when
  \<open>inclusive\<close>.
\<close>

record decoded =
  dc_mant :: nat
  dc_minus :: nat
  dc_plus :: nat
  dc_exp :: int
  dc_inclusive :: bool

definition decode_finite :: "f64 \<Rightarrow> decoded" where
  "decode_finite f =
     (let e = f64_exponent f; m = f64_fraction f in
      if e = 0 then
        \<lparr>dc_mant = 2 * m, dc_minus = 1, dc_plus = 1, dc_exp = - 1075, dc_inclusive = even m\<rparr>
      else if m = 0 then
        \<lparr>dc_mant = 4 * 2 ^ 52, dc_minus = 1, dc_plus = 2, dc_exp = int e - 1077, dc_inclusive = True\<rparr>
      else
        \<lparr>dc_mant = 2 * (2 ^ 52 + m), dc_minus = 1, dc_plus = 1, dc_exp = int e - 1076,
         dc_inclusive = even m\<rparr>)"

text \<open>
  Digit generation on exact fractions: \<open>mant\<close>, \<open>minus\<close> and \<open>plus\<close> over \<open>scale\<close>. \<open>over\<close> is the
  code's comparison with \<open>rounding\<close>: at the end of the interval an inclusive one counts.
\<close>

definition over :: "bool \<Rightarrow> nat \<Rightarrow> nat \<Rightarrow> bool" where
  "over incl a b \<longleftrightarrow> (if incl then a \<le> b else a < b)"

text \<open>The scale: the least power of ten that the upper end does not exceed.\<close>

function scale_up :: "bool \<Rightarrow> nat \<Rightarrow> nat \<Rightarrow> int \<Rightarrow> nat \<times> int" where
  "scale_up incl high scale k =
     (if 0 < scale \<and> over incl scale high then scale_up incl high (10 * scale) (k + 1) else (scale, k))"
  by pat_completeness auto
termination
  by (relation "measure (\<lambda>(incl, high, scale, k). Suc high - scale)") (auto simp: over_def split: if_splits)

declare scale_up.simps [simp del]

text \<open>Powers of ten into the fraction while a tenth of the scale still is not exceeded.\<close>

function scale_down :: "bool \<Rightarrow> nat \<Rightarrow> nat \<Rightarrow> nat \<Rightarrow> nat \<Rightarrow> int \<Rightarrow> nat \<times> nat \<times> nat \<times> int" where
  "scale_down incl mant mn pl scale k =
     (if 0 < mant + pl \<and> \<not> over incl scale (10 * (mant + pl))
      then scale_down incl (10 * mant) (10 * mn) (10 * pl) scale (k - 1)
      else (mant, mn, pl, k))"
  by pat_completeness auto
termination
  by (relation "measure (\<lambda>(incl, mant, mn, pl, scale, k). scale - (mant + pl))")
    (auto simp: over_def split: if_splits)

declare scale_down.simps [simp del]

text \<open>The digits: stop when what is left is inside the interval on either side.\<close>

function gen_digits :: "bool \<Rightarrow> nat \<Rightarrow> nat \<Rightarrow> nat \<Rightarrow> nat \<Rightarrow> nat list \<times> bool" where
  "gen_digits incl mant mn pl scale =
     (let d = mant div scale; rest = mant mod scale;
          down = over incl rest mn; up = over incl scale (rest + pl) in
      if down \<or> up \<or> mn = 0 \<or> scale = 0 then ([d], up \<and> (\<not> down \<or> scale \<le> 2 * rest))
      else case gen_digits incl (10 * rest) (10 * mn) (10 * pl) scale of
             (ds, round) \<Rightarrow> (d # ds, round))"
  by pat_completeness auto
termination
proof (relation "measure (\<lambda>(incl, mant, mn, pl, scale). scale - mn)")
  fix incl and mant mn pl scale d rest :: nat and down up
  assume "d = mant div scale" "rest = mant mod scale" "down = over incl rest mn"
    "up = over incl scale (rest + pl)" "\<not> (down \<or> up \<or> mn = 0 \<or> scale = 0)"
  then have "mn \<le> rest" "rest < scale" "0 < mn" by (auto simp: over_def split: if_splits)
  then show "((incl, 10 * rest, 10 * mn, 10 * pl, scale), incl, mant, mn, pl, scale) \<in>
      measure (\<lambda>(incl, mant, mn, pl, scale). scale - mn)" by simp
qed simp

declare gen_digits.simps [simp del]

text \<open>\<open>round_up\<close>: the successor of a digit string; the flag tells that it grew by one digit.\<close>

fun succ_digits :: "nat list \<Rightarrow> nat list \<times> bool" where
  "succ_digits [] = ([], True)"
| "succ_digits (d # ds) =
     (case succ_digits ds of (ds', carry) \<Rightarrow>
        if carry then (if d = 9 then (0 # ds', True) else (Suc d # ds', False)) else (d # ds', False))"

definition round_up :: "nat list \<Rightarrow> int \<Rightarrow> nat list \<times> int" where
  "round_up ds k = (case succ_digits ds of (ds', grew) \<Rightarrow> if grew then (1 # ds', k + 1) else (ds', k))"

definition shortest_digits :: "decoded \<Rightarrow> nat list \<times> int" where
  "shortest_digits dc =
     (let sh = 2 ^ nat (dc_exp dc);
          mant = dc_mant dc * sh; mn = dc_minus dc * sh; pl = dc_plus dc * sh;
          (scale, k) = scale_up (dc_inclusive dc) (mant + pl) (2 ^ nat (- dc_exp dc)) 0;
          (mant, mn, pl, k) = scale_down (dc_inclusive dc) mant mn pl scale k;
          (ds, round) = gen_digits (dc_inclusive dc) (10 * mant) (10 * mn) (10 * pl) scale
      in if round then round_up ds k else (ds, k))"

text \<open>The value \<open>0.d1 d2 ... * 10 ^ k\<close> without an exponent and without fraction digits to spare.\<close>

definition digits_to_dec_str :: "nat list \<Rightarrow> int \<Rightarrow> rstr" where
  "digits_to_dec_str ds k =
     (let s = map (\<lambda>d. 48 + d) ds in
      if k \<le> 0 then lit ''0.'' @ replicate (nat (- k)) 48 @ s
      else if nat k < length s then take (nat k) s @ lit ''.'' @ drop (nat k) s
      else s @ replicate (nat k - length s) 48)"

definition fmt_f64 :: "f64 \<Rightarrow> rstr" where
  "fmt_f64 f =
     (if \<not> f64_is_finite f then
        (if f64_fraction f \<noteq> 0 then lit ''NaN''
         else if f64_negative f then lit ''-inf'' else lit ''inf'')
      else (if f64_negative f then lit ''-'' else []) @
        (if f64_exponent f = 0 \<and> f64_fraction f = 0 then lit ''0''
         else (case shortest_digits (decode_finite f) of (ds, k) \<Rightarrow> digits_to_dec_str ds k)))"

subsection \<open>The form of the printed digits\<close>

lemma over_simps: "over incl a b \<Longrightarrow> a \<le> b" "\<not> over incl a b \<Longrightarrow> b \<le> a"
  by (auto simp: over_def split: if_splits)

lemma gen_digits_form:
  "mant < 10 * scale \<Longrightarrow> gen_digits incl mant mn pl scale = (ds, r) \<Longrightarrow>
     ds \<noteq> [] \<and> (\<forall>d \<in> set ds. d \<le> 9)"
proof (induction incl mant mn pl scale arbitrary: ds r rule: gen_digits.induct)
  case (1 incl mant mn pl scale)
  have d: "mant div scale \<le> 9" using 1(2) by (simp add: less_mult_imp_div_less less_Suc_eq_le [symmetric])
  have "10 * (mant mod scale) < 10 * scale" using 1(2) by (cases "scale = 0") auto
  with 1 d show ?case
    by (subst (asm) (2) gen_digits.simps) (auto simp: Let_def split: if_splits prod.splits)
qed

text \<open>The first digit is zero only when rounding is going to raise it.\<close>

lemma gen_digits_first:
  assumes gen: "gen_digits incl mant mn pl scale = (ds, r)"
    and up: "over incl scale (mant + pl)" and low: "\<not> over incl mant mn" and scale: "0 < scale"
  shows "hd ds \<noteq> 0 \<or> ds = [0] \<and> r"
proof (cases "mant div scale = 0")
  case True
  then have "mant mod scale = mant" using scale by (simp add: div_eq_0_iff)
  then show ?thesis
    using gen up low True by (subst (asm) gen_digits.simps) (auto simp: Let_def)
next
  case False
  then show ?thesis
    using gen by (subst (asm) gen_digits.simps) (auto simp: Let_def split: if_splits prod.splits)
qed

lemma succ_digits_range: "\<forall>d \<in> set ds. d \<le> 9 \<Longrightarrow> succ_digits ds = (ds', c) \<Longrightarrow> d \<in> set ds' \<Longrightarrow> d \<le> 9"
  by (induction ds arbitrary: ds' c d) (fastforce split: prod.splits if_splits)+

lemma round_up_form:
  assumes "ds \<noteq> []" "\<forall>d \<in> set ds. d \<le> 9" "hd ds \<noteq> 0 \<or> ds = [0]" "round_up ds k = (ds', k')"
  shows "ds' \<noteq> [] \<and> (\<forall>d \<in> set ds'. d \<le> 9) \<and> hd ds' \<noteq> 0"
proof -
  obtain d0 ds0 where ds: "ds = d0 # ds0" using assms(1) by (cases ds) auto
  obtain t c where s: "succ_digits ds0 = (t, c)" by (cases "succ_digits ds0")
  have "\<forall>d \<in> set t. d \<le> 9" using succ_digits_range [OF _ s] assms(2) ds by auto
  then show ?thesis
    using assms ds s by (auto simp: round_up_def split: if_splits)
qed

lemma scale_up_exit:
  "0 < scale \<Longrightarrow> scale_up incl high scale k = (scale', k') \<Longrightarrow>
     0 < scale' \<and> \<not> over incl scale' high"
proof (induction incl high scale k rule: scale_up.induct)
  case (1 incl high scale k)
  then show ?case by (subst (asm) (2) scale_up.simps) (auto split: if_splits)
qed

lemma scale_down_exit:
  assumes "scale_down incl mant mn pl scale k = (mant', mn', pl', k')"
    and "\<not> over incl scale (mant + pl)" "0 < mant" "mn < mant" "0 < pl" "0 < scale"
  shows "over incl scale (10 * (mant' + pl')) \<and> \<not> over incl scale (mant' + pl') \<and>
    mn' < mant' \<and> 0 < pl'"
  using assms
proof (induction incl mant mn pl scale k rule: scale_down.induct)
  case (1 incl mant mn pl scale k)
  then show ?case
    by (subst (asm) (2) scale_down.simps) (auto split: if_splits simp: algebra_simps)
qed

lemma decode_finite_bounds:
  assumes "f64_exponent f \<noteq> 0 \<or> f64_fraction f \<noteq> 0"
  shows "0 < dc_mant (decode_finite f)" "dc_minus (decode_finite f) < dc_mant (decode_finite f)"
    "0 < dc_plus (decode_finite f)"
  using assms by (auto simp: decode_finite_def Let_def)

lemma shortest_digits_form:
  assumes "dc_minus dc < dc_mant dc" "0 < dc_plus dc" "shortest_digits dc = (ds, k)"
  shows "ds \<noteq> [] \<and> (\<forall>d \<in> set ds. d \<le> 9) \<and> hd ds \<noteq> 0"
proof -
  define sh where "sh = (2::nat) ^ nat (dc_exp dc)"
  have sh: "0 < sh" by (simp add: sh_def)
  let ?incl = "dc_inclusive dc"
  obtain scale k1 where up: "scale_up ?incl (dc_mant dc * sh + dc_plus dc * sh) (2 ^ nat (- dc_exp dc)) 0 = (scale, k1)"
    by (cases "scale_up ?incl (dc_mant dc * sh + dc_plus dc * sh) (2 ^ nat (- dc_exp dc)) 0")
  obtain mant mn pl k2 where down:
    "scale_down ?incl (dc_mant dc * sh) (dc_minus dc * sh) (dc_plus dc * sh) scale k1 = (mant, mn, pl, k2)"
    by (cases "scale_down ?incl (dc_mant dc * sh) (dc_minus dc * sh) (dc_plus dc * sh) scale k1")
  obtain ds0 r where gen: "gen_digits ?incl (10 * mant) (10 * mn) (10 * pl) scale = (ds0, r)"
    by (cases "gen_digits ?incl (10 * mant) (10 * mn) (10 * pl) scale")
  have u: "0 < scale" "\<not> over ?incl scale (dc_mant dc * sh + dc_plus dc * sh)"
    using scale_up_exit [OF _ up] by simp_all
  have d: "over ?incl scale (10 * (mant + pl))" "\<not> over ?incl scale (mant + pl)" "mn < mant" "0 < pl"
    using scale_down_exit [OF down u(2)] assms(1,2) u(1) sh by auto
  have "mant < scale" using over_simps(2) [OF d(2)] d(4) by simp
  then have form: "ds0 \<noteq> []" "\<forall>d \<in> set ds0. d \<le> 9" using gen_digits_form [OF _ gen] by auto
  have "\<not> over ?incl (10 * mant) (10 * mn)" using d(3) by (simp add: over_def)
  then have first: "hd ds0 \<noteq> 0 \<or> ds0 = [0] \<and> r"
    using gen_digits_first [OF gen] d(1) u(1) by (simp add: algebra_simps)
  have "(ds, k) = (if r then round_up ds0 k2 else (ds0, k2))"
    using assms(3) up down gen by (simp add: shortest_digits_def Let_def sh_def)
  then show ?thesis
    using form first round_up_form [OF form, of k2 ds k] by (cases r) auto
qed

text \<open>
  The numbers of RFC 8259 without an exponent: an optional sign, an integer part without leading
  zeros, an optional fraction with at least one digit.
\<close>

definition decimal_lexeme :: "rstr \<Rightarrow> bool" where
  "decimal_lexeme s \<longleftrightarrow>
     (let u = (case s of c # t \<Rightarrow> if c = 45 then t else s | [] \<Rightarrow> s);
          ip = takeWhile is_digit u; fp = dropWhile is_digit u
      in ip \<noteq> [] \<and> (ip = [48] \<or> hd ip \<noteq> 48) \<and>
         (case fp of [] \<Rightarrow> True | c # q \<Rightarrow> c = 46 \<and> q \<noteq> [] \<and> list_all is_digit q))"

lemma decimal_lexeme_intro:
  assumes ip: "ip \<noteq> []" "ip = [48] \<or> hd ip \<noteq> 48" "\<forall>c \<in> set ip. is_digit c"
    and sg: "sg = [] \<or> sg = [45]"
    and fp: "fp = [] \<or> (\<exists>q. fp = 46 # q \<and> q \<noteq> [] \<and> (\<forall>c \<in> set q. is_digit c))"
  shows "decimal_lexeme (sg @ ip @ fp)"
proof -
  have stop: "\<not> is_digit 46" "\<not> is_digit 45" by (simp_all add: is_digit_def)
  have u: "(case sg @ ip @ fp of c # t \<Rightarrow> if c = 45 then t else sg @ ip @ fp | [] \<Rightarrow> sg @ ip @ fp) = ip @ fp"
    using sg ip(1,3) stop by (cases ip) auto
  have "takeWhile is_digit (ip @ fp) = ip" "dropWhile is_digit (ip @ fp) = fp"
    using ip(3) fp stop by (auto simp: takeWhile_append dropWhile_append)
  then show ?thesis
    unfolding decimal_lexeme_def Let_def u using ip(1,2) fp by (auto simp: list_all_iff)
qed

lemma decimal_lexeme_fmt_int [simp]: "decimal_lexeme (fmt_int i)"
proof -
  have first: "fmt_nat n = [48] \<or> hd (fmt_nat n) \<noteq> 48" for n
  proof (induction n rule: fmt_nat.induct)
    case (1 n)
    show ?case
    proof (cases "n < 10")
      case False
      then have "hd (fmt_nat (n div 10)) \<noteq> 48"
        using 1 fmt_nat_inject [of "n div 10" 0] fmt_nat_small [of 0] by auto
      with False show ?thesis by (simp add: fmt_nat_big)
    qed (auto simp: fmt_nat_small)
  qed
  show ?thesis
    unfolding fmt_int_def
    using decimal_lexeme_intro [of "fmt_nat (nat (- i))" "[45]" "[]"]
      decimal_lexeme_intro [of "fmt_nat (nat i)" "[]" "[]"] first fmt_nat_digits by auto
qed

lemma digit_code [simp]: "d \<le> 9 \<Longrightarrow> is_digit (48 + d)"
  by (simp add: is_digit_def)

text \<open>The layout of a non-zero value: an integer part and possibly a fraction.\<close>

lemma digits_to_dec_str_form:
  assumes ds: "ds \<noteq> []" "\<forall>d \<in> set ds. d \<le> 9" "hd ds \<noteq> 0"
  obtains ip fp where "digits_to_dec_str ds k = ip @ fp" "ip \<noteq> []" "ip = [48] \<or> hd ip \<noteq> 48"
    "\<forall>c \<in> set ip. is_digit c"
    "fp = [] \<or> (\<exists>q. fp = 46 # q \<and> q \<noteq> [] \<and> (\<forall>c \<in> set q. is_digit c))"
proof -
  let ?s = "map (\<lambda>d. 48 + d) ds"
  have s: "?s \<noteq> []" "hd ?s \<noteq> 48" "\<forall>c \<in> set ?s. is_digit c"
    using ds by (auto simp: hd_map)
  have zero: "is_digit 48" by (simp add: is_digit_def)
  consider "k \<le> 0" | "0 < k" "nat k < length ?s" | "0 < k" "length ?s \<le> nat k" by linarith
  then show thesis
  proof cases
    case 1
    then show thesis
      using s zero
      by (intro that [of "[48]" "46 # replicate (nat (- k)) 48 @ ?s"]) (auto simp: digits_to_dec_str_def)
  next
    case 2
    moreover have "take (nat k) ?s \<noteq> []" "hd (take (nat k) ?s) = hd ?s" "drop (nat k) ?s \<noteq> []"
      using 2 s(1) by (auto simp: hd_take)
    ultimately show thesis
      using s by (intro that [of "take (nat k) ?s" "46 # drop (nat k) ?s"])
        (auto simp: digits_to_dec_str_def Let_def take_map drop_map dest: in_set_takeD in_set_dropD)
  next
    case 3
    then show thesis
      using s zero by (intro that [of "?s @ replicate (nat k - length ?s) 48" "[]"])
        (auto simp: digits_to_dec_str_def)
  qed
qed

lemma decimal_lexeme_fmt_f64:
  assumes "f64_is_finite f"
  shows "decimal_lexeme (fmt_f64 f)"
proof -
  let ?sg = "if f64_negative f then [45] else [] :: rstr"
  have sg: "?sg = [] \<or> ?sg = [45]" by simp
  show ?thesis
  proof (cases "f64_exponent f = 0 \<and> f64_fraction f = 0")
    case True
    then have "fmt_f64 f = ?sg @ [48] @ []" using assms by (simp add: fmt_f64_def)
    then show ?thesis using decimal_lexeme_intro [of "[48]" ?sg "[]"] by (simp add: is_digit_def)
  next
    case False
    obtain ds k where dk: "shortest_digits (decode_finite f) = (ds, k)"
      by (cases "shortest_digits (decode_finite f)")
    have "ds \<noteq> []" "\<forall>d \<in> set ds. d \<le> 9" "hd ds \<noteq> 0"
      using shortest_digits_form [OF _ _ dk] decode_finite_bounds [of f] False by auto
    then obtain ip fp where form: "digits_to_dec_str ds k = ip @ fp" "ip \<noteq> []" "ip = [48] \<or> hd ip \<noteq> 48"
      "\<forall>c \<in> set ip. is_digit c"
      "fp = [] \<or> (\<exists>q. fp = 46 # q \<and> q \<noteq> [] \<and> (\<forall>c \<in> set q. is_digit c))"
      using digits_to_dec_str_form by blast
    have "fmt_f64 f = ?sg @ ip @ fp"
      using assms False dk form(1) by (auto simp: fmt_f64_def)
    then show ?thesis using decimal_lexeme_intro [OF form(2,3,4) sg form(5)] by simp
  qed
qed

end
