(* ===== verification/Xos_Entry.thy ===== *)
theory Xos_Entry
  imports Xos_Level Xos_Time Xos_Float
begin

section \<open>Log records and structured fields (\<open>src/entry.rs\<close>)\<close>

text \<open>
  \<open>FieldValue\<close> with its conversions from Rust's primitive types, \<open>Field\<close>, \<open>LogEntry\<close> and the
  merge of the calling thread's context into a record. Integers are at their width: an \<open>i64\<close> is a
  64-bit word read by \<open>sint\<close>; \<open>isize\<close> and \<open>usize\<close> have 64 bits.
\<close>

datatype field_value =
    Str rstr
  | Int64 "64 word"
  | Float f64
  | Bool bool
  | Null

definition is_string :: "field_value \<Rightarrow> bool" where
  "is_string v = (case v of Str _ \<Rightarrow> True | _ \<Rightarrow> False)"

subsection \<open>Conversions (\<open>impl From<...> for FieldValue\<close>)\<close>

definition from_string :: "rstr \<Rightarrow> field_value" where "from_string v = Str v"
definition from_str :: "rstr \<Rightarrow> field_value" where "from_str v = Str v"
definition from_string_ref :: "rstr \<Rightarrow> field_value" where "from_string_ref v = Str v"
definition from_char :: "rchar \<Rightarrow> field_value" where "from_char c = Str [c]"
definition from_bool :: "bool \<Rightarrow> field_value" where "from_bool b = Bool b"
definition from_i8 :: "8 word \<Rightarrow> field_value" where "from_i8 v = Int64 (scast v)"
definition from_i16 :: "16 word \<Rightarrow> field_value" where "from_i16 v = Int64 (scast v)"
definition from_i32 :: "32 word \<Rightarrow> field_value" where "from_i32 v = Int64 (scast v)"
definition from_i64 :: "64 word \<Rightarrow> field_value" where "from_i64 v = Int64 v"
definition from_isize :: "64 word \<Rightarrow> field_value" where "from_isize v = Int64 v"
definition from_u8 :: "8 word \<Rightarrow> field_value" where "from_u8 v = Int64 (ucast v)"
definition from_u16 :: "16 word \<Rightarrow> field_value" where "from_u16 v = Int64 (ucast v)"
definition from_u32 :: "32 word \<Rightarrow> field_value" where "from_u32 v = Int64 (ucast v)"

text \<open>\<open>i64::try_from(u64)\<close> fails beyond \<open>i64::MAX\<close>; the value is then kept as its decimal string.\<close>

definition from_u64 :: "64 word \<Rightarrow> field_value" where
  "from_u64 v = (if unat v < 2 ^ 63 then Int64 v else Str (fmt_nat (unat v)))"

text \<open>\<open>value as i64\<close> reinterprets the bits.\<close>

definition from_usize :: "64 word \<Rightarrow> field_value" where "from_usize v = Int64 v"

definition from_f32 :: "f32 \<Rightarrow> field_value" where "from_f32 v = Float (f64_from_f32 v)"
definition from_f64 :: "f64 \<Rightarrow> field_value" where "from_f64 v = Float v"

subsection \<open>Fields and records\<close>

record field =
  f_key :: rstr
  f_value :: field_value

definition field_new :: "rstr \<Rightarrow> field_value \<Rightarrow> field" where
  "field_new k v = \<lparr>f_key = k, f_value = v\<rparr>"

definition field_str :: "rstr \<Rightarrow> rstr \<Rightarrow> field" where "field_str k v = field_new k (Str v)"
definition field_int :: "rstr \<Rightarrow> 64 word \<Rightarrow> field" where "field_int k v = field_new k (Int64 v)"
definition field_float :: "rstr \<Rightarrow> f64 \<Rightarrow> field" where "field_float k v = field_new k (Float v)"
definition field_bool :: "rstr \<Rightarrow> bool \<Rightarrow> field" where "field_bool k v = field_new k (Bool v)"

record log_entry =
  le_timestamp :: timestamp
  le_level :: level
  le_message :: rstr
  le_target :: rstr
  le_file :: rstr
  le_line :: u32
  le_fields :: "field list"

text \<open>\<open>now\<close> is the clock reading of the placeholder timestamp.\<close>

definition entry_new :: "system_time \<Rightarrow> level \<Rightarrow> rstr \<Rightarrow> rstr \<Rightarrow> rstr \<Rightarrow> u32 \<Rightarrow> log_entry" where
  "entry_new now level message target file line =
     \<lparr>le_timestamp = timestamp_now now 0, le_level = level, le_message = message, le_target = target,
      le_file = file, le_line = line, le_fields = []\<rparr>"

definition entry_field :: "log_entry \<Rightarrow> rstr \<Rightarrow> field_value \<Rightarrow> log_entry" where
  "entry_field e k v = e\<lparr>le_fields := le_fields e @ [field_new k v]\<rparr>"

definition with_fields :: "log_entry \<Rightarrow> field list \<Rightarrow> log_entry" where
  "with_fields e fs = e\<lparr>le_fields := le_fields e @ fs\<rparr>"

fun merge_loop :: "field list \<Rightarrow> field list \<Rightarrow> field list" where
  "merge_loop [] own = own"
| "merge_loop (f # ctx) own =
     (if \<exists>x \<in> set own. f_key x = f_key f then merge_loop ctx own
      else merge_loop ctx (own @ [f]))"

definition merge_context :: "log_entry \<Rightarrow> field list \<Rightarrow> log_entry" where
  "merge_context e ctx = e\<lparr>le_fields := merge_loop ctx (le_fields e)\<rparr>"

definition location :: "log_entry \<Rightarrow> rstr" where
  "location e =
     (if le_file e = [] then []
      else le_file e @ lit '':'' @ fmt_nat (unat (le_line e)) @ lit '' @ '' @ le_target e)"

subsection \<open>What the merge keeps and adds\<close>

lemma any_key_iff: "(\<exists>x \<in> set own. f_key x = k) \<longleftrightarrow> k \<in> f_key ` set own"
  by (auto simp: image_iff)

lemma merge_loop_append:
  "distinct (map f_key ctx) \<Longrightarrow>
     merge_loop ctx own = own @ filter (\<lambda>f. f_key f \<notin> f_key ` set own) ctx"
proof (induction ctx arbitrary: own)
  case (Cons f ctx)
  have "filter (\<lambda>x. f_key x \<notin> f_key ` set (own @ [f])) ctx =
      filter (\<lambda>x. f_key x \<notin> f_key ` set own) ctx"
    using Cons.prems by (intro filter_cong) (auto simp: image_iff eq_commute)
  with Cons show ?case by (simp add: any_key_iff)
qed simp

lemma merge_loop_find:
  "find_key f_key k (merge_loop ctx own) =
     (case find_key f_key k own of None \<Rightarrow> find_key f_key k ctx | Some f \<Rightarrow> Some f)"
proof (induction ctx arbitrary: own)
  case (Cons f ctx)
  show ?case
  proof (cases "\<exists>x \<in> set own. f_key x = f_key f")
    case True
    then have "find_key f_key (f_key f) own \<noteq> None" by (simp add: find_key_None_iff any_key_iff)
    with True Cons show ?thesis by (auto split: option.splits)
  next
    case False
    then have "find_key f_key (f_key f) own = None" by (simp add: find_key_None_iff any_key_iff)
    with False Cons show ?thesis by (auto simp: find_key_append split: option.splits)
  qed
qed (auto split: option.split)

lemma merge_loop_keys: "f_key ` set (merge_loop ctx own) = f_key ` set own \<union> f_key ` set ctx"
  by (induction ctx arbitrary: own) (auto simp: any_key_iff)

subsection \<open>The integer a field value stands for\<close>

text \<open>The number a value denotes: an integer, or a decimal string standing for one.\<close>

definition denotes :: "field_value \<Rightarrow> int \<Rightarrow> bool" where
  "denotes v i \<longleftrightarrow> v = Int64 (word_of_int i) \<and> - (2 ^ 63) \<le> i \<and> i < 2 ^ 63 \<or> v = Str (fmt_int i)"

lemma sint_lt_64: "sint (w :: 64 word) < 2 ^ 63"
  using sint_lt [of w] by simp

lemma sint_ge_64: "- (2 ^ 63) \<le> sint (w :: 64 word)"
  using sint_ge [of w] by simp

lemma denotes_Int_sint: "denotes (Int64 w) (sint w)"
  using sint_lt_64 [of w] sint_ge_64 [of w] by (simp add: denotes_def)

lemma denotes_Str: "denotes (Str (fmt_int i)) i"
  unfolding denotes_def by (rule disjI2) (rule refl)

lemma denotes_Int_iff: "denotes (Int64 (word_of_int i)) i \<longleftrightarrow> - (2 ^ 63) \<le> i \<and> i < 2 ^ 63"
  by (simp add: denotes_def)

lemma sint_scast_64:
  assumes "LENGTH('a::len) \<le> 64"
  shows "sint (scast (v :: 'a word) :: 64 word) = sint v"
proof -
  have "(2::int) ^ (LENGTH('a) - 1) \<le> 2 ^ 63" using assms by (intro power_increasing) auto
  then have "- (2 ^ 63) \<le> sint v" "sint v < 2 ^ 63" using sint_lt [of v] sint_ge [of v] by auto
  then show ?thesis by (simp add: signed_scast_eq signed_take_bit_int_eq_self)
qed

lemma denotes_scast: "LENGTH('a::len) \<le> 64 \<Longrightarrow> denotes (Int64 (scast (v :: 'a word))) (sint v)"
  using denotes_Int_sint [of "scast v"] by (simp add: sint_scast_64)

lemma denotes_small: "uint v < 2 ^ 63 \<Longrightarrow> denotes (Int64 (word_of_int (uint v))) (uint (v :: 'a::len word))"
proof -
  assume "uint v < 2 ^ 63"
  moreover have "- (2 ^ 63) \<le> uint v" by (rule order_trans [OF _ uint_ge_0]) simp
  ultimately show ?thesis unfolding denotes_Int_iff by (rule conjI [rotated])
qed

lemma unat_small_iff: "unat (v :: 64 word) < 2 ^ 63 \<longleftrightarrow> uint v < 2 ^ 63"
proof -
  have "unat v < 2 ^ 63 \<longleftrightarrow> int (unat v) < int (2 ^ 63)" by (simp only: of_nat_less_iff)
  also have "int (unat v) = uint v" by simp
  also have "int (2 ^ 63) = 2 ^ 63" by (simp only: of_nat_power of_nat_numeral)
  finally show ?thesis .
qed

lemma denotes_ucast: "LENGTH('a::len) < 64 \<Longrightarrow> denotes (Int64 (ucast (v :: 'a word))) (uint v)"
proof -
  assume "LENGTH('a) < 64"
  then have "uint v < 2 ^ 63"
    using uint_lt2p [of v] power_increasing [of "LENGTH('a)" 63 "2::int"] by linarith
  from denotes_small [OF this] show ?thesis by (simp add: unsigned_ucast_eq)
qed

lemma wrap_sint: "2 ^ 63 \<le> x \<Longrightarrow> x < 2 ^ 64 \<Longrightarrow> (x + 2 ^ 63) mod 2 ^ 64 - 2 ^ 63 = x - (2 ^ 64 :: int)"
proof -
  assume "2 ^ 63 \<le> x" "x < 2 ^ 64"
  then have "(x + 2 ^ 63 - 2 ^ 64) mod 2 ^ 64 = x + 2 ^ 63 - 2 ^ 64" by (intro mod_pos_pos_trivial) simp_all
  then have "(x + 2 ^ 63) mod 2 ^ 64 = x + 2 ^ 63 - (2 ^ 64 :: int)" by (metis minus_mod_self2)
  then show ?thesis by simp
qed

lemma uint_as_sint:
  assumes "\<not> uint (v :: 64 word) < 2 ^ 63"
  shows "sint v = uint v - 2 ^ 64"
proof -
  have "sint (word_of_int (uint v) :: 64 word) = (uint v + 2 ^ 63) mod 2 ^ 64 - 2 ^ 63"
    by (simp only: int_word_sint) simp
  also have "\<dots> = uint v - 2 ^ 64"
    using assms uint_lt2p [of v] by (intro wrap_sint) simp_all
  finally show ?thesis by simp
qed

subsection \<open>Properties\<close>

lemma from_u64_denotes: "denotes (from_u64 v) (uint v)"
proof (cases "uint v < 2 ^ 63")
  case True
  from denotes_small [OF True] True show ?thesis
    by (simp only: from_u64_def unat_small_iff word_of_int_uint if_True)
next
  case False
  have "fmt_int (uint v) = fmt_nat (unat v)" by (simp add: fmt_int_def)
  with False have "from_u64 v = Str (fmt_int (uint v))"
    by (simp only: from_u64_def unat_small_iff if_False)
  then show ?thesis by (simp only: denotes_Str)
qed

text \<open>A \<open>usize\<close> is reinterpreted as an \<open>i64\<close>: the field holds the number exactly when it
  is below \<open>2^63\<close>; a larger one becomes negative, unlike the same value as a \<open>u64\<close>.\<close>

lemma usize_conversion_wraps:
  "if uint v < 2 ^ 63 then denotes (from_usize v) (uint v)
   else \<not> denotes (from_usize v) (uint v) \<and> denotes (from_usize v) (uint v - 2 ^ 64) \<and>
     from_usize v \<noteq> from_u64 v"
proof (cases "uint v < 2 ^ 63")
  case True
  then have "denotes (from_usize v) (uint v)"
    using denotes_small [of v] by (simp only: from_usize_def word_of_int_uint)
  with True show ?thesis by (simp only: if_True)
next
  case False
  then have "\<not> denotes (from_usize v) (uint v)" by (simp only: from_usize_def denotes_def) simp
  moreover have "denotes (from_usize v) (uint v - 2 ^ 64)"
    using denotes_Int_sint [of v] by (simp only: uint_as_sint [OF False] from_usize_def)
  moreover have "from_usize v \<noteq> from_u64 v"
    using False by (simp only: from_usize_def from_u64_def unat_small_iff) simp
  ultimately show ?thesis using False by (simp only: if_False simp_thms)
qed

text \<open>Claim C40: every conversion from an integer of at most 64 bits keeps the number, as a
  64-bit integer or, for a \<open>u64\<close> beyond \<open>i64::MAX\<close>, as its decimal string. The one exception
  is a \<open>usize\<close>: it keeps the number exactly below \<open>2^63\<close>, and is otherwise stored as the number
  less \<open>2^64\<close>, a negative one.\<close>

theorem integer_conversions_exact:
  "denotes (from_i8 a) (sint a) \<and> denotes (from_i16 b) (sint b) \<and> denotes (from_i32 c) (sint c) \<and>
   denotes (from_i64 d) (sint d) \<and> denotes (from_isize e) (sint e) \<and> denotes (from_u8 f) (uint f) \<and>
   denotes (from_u16 g) (uint g) \<and> denotes (from_u32 h) (uint h) \<and> denotes (from_u64 i) (uint i) \<and>
   (denotes (from_usize j) (uint j) \<longleftrightarrow> uint j < 2 ^ 63) \<and>
   (uint j < 2 ^ 63 \<or> denotes (from_usize j) (uint j - 2 ^ 64))"
proof -
  have "denotes (from_usize j) (uint j) \<longleftrightarrow> uint j < 2 ^ 63"
    and "uint j < 2 ^ 63 \<or> denotes (from_usize j) (uint j - 2 ^ 64)"
    using usize_conversion_wraps [of j] by (auto split: if_splits)
  then show ?thesis
    unfolding from_i8_def from_i16_def from_i32_def from_i64_def from_isize_def from_u8_def
      from_u16_def from_u32_def
    by (intro conjI denotes_scast denotes_ucast denotes_Int_sint from_u64_denotes) simp_all
qed

end
