(* ===== verification/Xos_Sink.thy ===== *)
theory Xos_Sink
  imports Xos_Rotation Xos_World Xos_Entry
begin

section \<open>Standard streams and the rotating file (\<open>src/sink.rs\<close>)\<close>

text \<open>
  \<open>StdoutSink\<close>, \<open>StderrSink\<close> and \<open>FileSink\<close> with all its operations, on the world of
  \<open>Xos_World\<close>. The size counter and the size limit are \<open>u64\<close> words; \<open>max_backups\<close> is a
  natural (a \<open>usize\<close> used only to count slots).
\<close>

subsection \<open>Standard streams\<close>

definition stdout_write_bytes :: "bytes \<Rightarrow> world \<Rightarrow> unit io_result \<times> world" where
  "stdout_write_bytes bs w =
     (case stdout_write_all bs w of
        (Inl e, w) \<Rightarrow> (Inl e, w)
      | (Inr _, w) \<Rightarrow> std_flush w)"

definition stderr_write_bytes :: "bytes \<Rightarrow> world \<Rightarrow> unit io_result \<times> world" where
  "stderr_write_bytes bs w =
     (case stderr_write_all bs w of
        (Inl e, w) \<Rightarrow> (Inl e, w)
      | (Inr _, w) \<Rightarrow> std_flush w)"

subsection \<open>The file sink\<close>

datatype clock = System | Frozen system_time

record file_sink =
  fs_path :: path
  fs_file :: fhandle
  fs_max_size :: u64
  fs_max_backups :: nat
  fs_size :: u64
  fs_interval :: rotation_interval
  fs_interval_start :: "nat option"
  fs_clock :: clock

definition clock_now :: "clock \<Rightarrow> world \<Rightarrow> system_time \<times> world" where
  "clock_now c w = (case c of System \<Rightarrow> system_now w | Frozen t \<Rightarrow> (t, w))"

text \<open>\<open>Path::parent\<close>: the components but the last one (none of them for a root or an empty path);
  \<open>.\<close> counts only at the start of a relative path.\<close>

definition path_components :: "path \<Rightarrow> rstr list" where
  "path_components p =
     (let parts = str_split 47 p;
          keep = (\<lambda>c. c \<noteq> [] \<and> c \<noteq> lit ''.'')
      in if p \<noteq> [] \<and> hd p \<noteq> 47 \<and> hd parts = lit ''.'' then lit ''.'' # filter keep (tl parts)
         else filter keep parts)"

fun join_slash :: "rstr list \<Rightarrow> rstr" where
  "join_slash [] = []"
| "join_slash [c] = c"
| "join_slash (c # cs) = c @ 47 # join_slash cs"

definition path_parent :: "path \<Rightarrow> path option" where
  "path_parent p =
     (let cs = path_components p; root = (if p \<noteq> [] \<and> hd p = 47 then lit ''/'' else [])
      in if cs = [] then None else Some (root @ join_slash (butlast cs)))"

definition backup_path :: "path \<Rightarrow> nat \<Rightarrow> path" where
  "backup_path p n = p @ lit ''.'' @ fmt_nat n"

definition interval_start_for ::
  "fhandle \<Rightarrow> rotation_interval \<Rightarrow> clock \<Rightarrow> world \<Rightarrow> nat option \<times> world" where
  "interval_start_for f interval c w =
     (case clock_now c w of (now, w) \<Rightarrow>
        (case slot_start interval now of
           None \<Rightarrow> (None, w)
         | Some now_slot \<Rightarrow>
             (case c of
                System \<Rightarrow>
                  (case fs_metadata f w of (m, w) \<Rightarrow>
                     (case m of
                        Inl _ \<Rightarrow> (Some now_slot, w)
                      | Inr (_, modified) \<Rightarrow>
                          (case slot_start interval modified of
                             Some s \<Rightarrow> (Some s, w)
                           | None \<Rightarrow> (Some now_slot, w))))
              | Frozen _ \<Rightarrow> (Some now_slot, w))))"

definition open_with ::
  "path \<Rightarrow> u64 \<Rightarrow> nat \<Rightarrow> rotation_interval \<Rightarrow> clock \<Rightarrow> world \<Rightarrow> file_sink io_result \<times> world" where
  "open_with p max_size max_backups interval c w =
     (let (made, w) =
        (case path_parent p of
           Some parent \<Rightarrow> if parent \<noteq> [] then fs_create_dir_all parent w else (Inr (), w)
         | None \<Rightarrow> (Inr (), w))
      in case made of
           Inl e \<Rightarrow> (Inl e, w)
         | Inr _ \<Rightarrow>
             (case fs_open_append p w of
                (Inl e, w) \<Rightarrow> (Inl e, w)
              | (Inr f, w) \<Rightarrow>
                  (case fs_metadata f w of (m, w) \<Rightarrow>
                     let size = (case m of Inr (len, _) \<Rightarrow> word_of_nat len | Inl _ \<Rightarrow> 0)
                     in case interval_start_for f interval c w of (start, w) \<Rightarrow>
                       (Inr \<lparr>fs_path = p, fs_file = f, fs_max_size = max_size,
                             fs_max_backups = max_backups, fs_size = size, fs_interval = interval,
                             fs_interval_start = start, fs_clock = c\<rparr>, w))))"

definition file_open :: "path \<Rightarrow> u64 \<Rightarrow> nat \<Rightarrow> world \<Rightarrow> file_sink io_result \<times> world" where
  "file_open p max_size max_backups w = open_with p max_size max_backups Never System w"

definition open_with_interval ::
  "path \<Rightarrow> u64 \<Rightarrow> nat \<Rightarrow> rotation_interval \<Rightarrow> world \<Rightarrow> file_sink io_result \<times> world" where
  "open_with_interval p max_size max_backups interval w =
     open_with p max_size max_backups interval System w"

definition rotate_every :: "rotation_interval \<Rightarrow> file_sink \<Rightarrow> world \<Rightarrow> file_sink \<times> world" where
  "rotate_every interval s w =
     (let s = s\<lparr>fs_interval := interval\<rparr>
      in case clock_now (fs_clock s) w of (now, w) \<Rightarrow>
           (s\<lparr>fs_interval_start := slot_start interval now\<rparr>, w))"

definition interval_elapsed :: "file_sink \<Rightarrow> world \<Rightarrow> bool \<times> world" where
  "interval_elapsed s w =
     (case clock_now (fs_clock s) w of (now, w) \<Rightarrow>
        ((case (fs_interval_start s, slot_start (fs_interval s) now) of
            (Some opened, Some now) \<Rightarrow> now > opened
          | _ \<Rightarrow> False), w))"

text \<open>The loop of \<open>shift_backups\<close>: \<open>for slot in (1..max_backups).rev()\<close>, from the highest slot
  down; a failed rename is ignored.\<close>

fun shift_loop :: "path \<Rightarrow> nat \<Rightarrow> world \<Rightarrow> world" where
  "shift_loop p 0 w = w"
| "shift_loop p (Suc n) w =
     shift_loop p n (snd (fs_rename (backup_path p (Suc n)) (backup_path p (Suc n + 1)) w))"

definition shift_backups :: "file_sink \<Rightarrow> world \<Rightarrow> unit io_result \<times> world" where
  "shift_backups s w =
     (let p = fs_path s;
          w = snd (fs_remove_file (backup_path p (fs_max_backups s)) w);
          w = shift_loop p (fs_max_backups s - 1) w
      in fs_rename p (backup_path p 1) w)"

definition rotate_finish :: "fhandle \<Rightarrow> file_sink \<Rightarrow> world \<Rightarrow> unit io_result \<times> file_sink \<times> world" where
  "rotate_finish f s w =
     (let s = s\<lparr>fs_file := f, fs_size := 0\<rparr>
      in case clock_now (fs_clock s) w of (now, w) \<Rightarrow>
           (Inr (), s\<lparr>fs_interval_start := slot_start (fs_interval s) now\<rparr>, w))"

definition rotate_file :: "file_sink \<Rightarrow> world \<Rightarrow> unit io_result \<times> file_sink \<times> world" where
  "rotate_file s w =
     (case fs_flush (fs_file s) w of
        (Inl e, w) \<Rightarrow> (Inl e, s, w)
      | (Inr _, w) \<Rightarrow>
          (let w = snd (fs_sync_all (fs_file s) w) in
           if fs_max_backups s > 0 then
             (case shift_backups s w of
                (Inl e, w) \<Rightarrow> (Inl e, s, w)
              | (Inr _, w) \<Rightarrow>
                  (case fs_open_append (fs_path s) w of
                     (Inl e, w) \<Rightarrow> (Inl e, s, w)
                   | (Inr f, w) \<Rightarrow> rotate_finish f s w))
           else
             (case fs_open_truncate (fs_path s) w of
                (Inl e, w) \<Rightarrow> (Inl e, s, w)
              | (Inr f, w) \<Rightarrow> rotate_finish f s w)))"

definition size_hit :: "file_sink \<Rightarrow> bytes \<Rightarrow> bool" where
  "size_hit s bs \<longleftrightarrow>
     fs_max_size s > 0 \<and> saturating_add (fs_size s) (word_of_nat (length bs)) > fs_max_size s"

definition file_append :: "bytes \<Rightarrow> file_sink \<Rightarrow> world \<Rightarrow> unit io_result \<times> file_sink \<times> world" where
  "file_append bs s w =
     (case fs_write_all (fs_file s) bs w of
        (Inl e, f, w) \<Rightarrow> (Inl e, s\<lparr>fs_file := f\<rparr>, w)
      | (Inr _, f, w) \<Rightarrow>
          (Inr (), s\<lparr>fs_file := f, fs_size := fs_size s + word_of_nat (length bs)\<rparr>, w))"

definition file_write_bytes :: "bytes \<Rightarrow> file_sink \<Rightarrow> world \<Rightarrow> unit io_result \<times> file_sink \<times> world" where
  "file_write_bytes bs s w =
     (let hit = size_hit s bs;
          (due, w) = (if hit then (True, w) else interval_elapsed s w)
      in if due then
           (case rotate_file s w of
              (Inl e, s, w) \<Rightarrow> (Inl e, s, w)
            | (Inr _, s, w) \<Rightarrow> file_append bs s w)
         else file_append bs s w)"

definition file_flush :: "file_sink \<Rightarrow> world \<Rightarrow> unit io_result \<times> world" where
  "file_flush s w = fs_flush (fs_file s) w"

subsection \<open>Calls that succeed\<close>

text \<open>A calm world: no call fails.\<close>

definition calm :: "world \<Rightarrow> bool" where
  "calm w \<longleftrightarrow> (\<forall>n. w_fault w n = None)"

lemma syscall_calm: "calm w \<Longrightarrow> syscall w = (None, w\<lparr>w_calls := Suc (w_calls w)\<rparr>)"
  by (simp add: syscall_def calm_def)

lemma calm_fault: "w_fault w' = w_fault w \<Longrightarrow> calm w' \<longleftrightarrow> calm w"
  by (simp add: calm_def)

lemma calm_update [simp]:
  "calm (w\<lparr>w_calls := c\<rparr>) \<longleftrightarrow> calm w" "calm (w\<lparr>w_ticks := t\<rparr>) \<longleftrightarrow> calm w"
  "calm (w\<lparr>w_dir := d\<rparr>) \<longleftrightarrow> calm w" "calm (w\<lparr>w_data := dt\<rparr>) \<longleftrightarrow> calm w"
  "calm (w\<lparr>w_mtime := m\<rparr>) \<longleftrightarrow> calm w" "calm (w\<lparr>w_next := n\<rparr>) \<longleftrightarrow> calm w"
  "calm (w\<lparr>w_stdout := so\<rparr>) \<longleftrightarrow> calm w" "calm (w\<lparr>w_stderr := se\<rparr>) \<longleftrightarrow> calm w"
  "calm (w\<lparr>w_sent := sn\<rparr>) \<longleftrightarrow> calm w"
  by (simp_all add: calm_def)

text \<open>Two worlds with the same files; the later one reads the same clock, no earlier.\<close>

definition same_files :: "world \<Rightarrow> world \<Rightarrow> bool" where
  "same_files w w' \<longleftrightarrow> w_dir w' = w_dir w \<and> w_data w' = w_data w \<and> w_next w' = w_next w \<and>
     w_fault w' = w_fault w \<and> w_clock w' = w_clock w \<and> w_ticks w \<le> w_ticks w'"

lemma same_files_refl [simp]: "same_files w w"
  by (simp add: same_files_def)

lemma same_files_trans: "same_files w w' \<Longrightarrow> same_files w' w'' \<Longrightarrow> same_files w w''"
  by (simp add: same_files_def)

lemma same_files_calm: "same_files w w' \<Longrightarrow> calm w' \<longleftrightarrow> calm w"
  by (simp add: same_files_def calm_def)

lemma clock_now_files: "same_files w (snd (clock_now c w))"
  by (cases c) (simp_all add: clock_now_def system_now_def same_files_def)

lemma fs_sync_all_files: "same_files w (snd (fs_sync_all f w))"
  by (simp add: fs_sync_all_def syscall_def same_files_def split: option.split)

lemma fs_metadata_files: "same_files w (snd (fs_metadata f w))"
  by (simp add: fs_metadata_def syscall_def same_files_def split: option.split)

lemma interval_elapsed_files: "same_files w (snd (interval_elapsed s w))"
  using clock_now_files [of w "fs_clock s"] by (cases "clock_now (fs_clock s) w") (simp add: interval_elapsed_def)

lemma interval_start_for_files: "same_files w (snd (interval_start_for f i c w))"
proof -
  obtain now w1 where c: "clock_now c w = (now, w1)" by (cases "clock_now c w")
  then have 1: "same_files w w1" using clock_now_files [of w c] by simp
  obtain m w2 where m: "fs_metadata f w1 = (m, w2)" by (cases "fs_metadata f w1")
  then have "same_files w w2" using 1 fs_metadata_files [of w1 f] same_files_trans by auto
  with 1 c m show ?thesis
    by (auto simp: interval_start_for_def split: option.split clock.split sum.split prod.split)
qed

lemma fs_create_dir_all_files: "same_files w (snd (fs_create_dir_all p w))"
  by (simp add: fs_create_dir_all_def syscall_def same_files_def split: option.split)

subsection \<open>Backups shift up by one\<close>

lemma backup_path_inject [simp]: "backup_path p m = backup_path p n \<longleftrightarrow> m = n"
  by (simp add: backup_path_def)

lemma backup_path_neq [simp]: "backup_path p n \<noteq> p" "p \<noteq> backup_path p n"
  by (simp_all add: backup_path_def)

text \<open>Generation 0 is the active file, generation \<open>k\<close> the \<open>k\<close>-th backup.\<close>

definition gen_path :: "path \<Rightarrow> nat \<Rightarrow> path" where
  "gen_path p k = (if k = 0 then p else backup_path p k)"

lemma gen_path_inject [simp]: "gen_path p m = gen_path p n \<longleftrightarrow> m = n"
  by (auto simp: gen_path_def)

lemma fs_rename_calm:
  assumes "calm w"
  shows "w_dir (snd (fs_rename a b w)) =
      (case w_dir w a of None \<Rightarrow> w_dir w | Some i \<Rightarrow> ((w_dir w)(a := None))(b \<mapsto> i))"
    "fst (fs_rename a b w) = (case w_dir w a of None \<Rightarrow> Inl NotFound | Some i \<Rightarrow> Inr ())"
    "w_data (snd (fs_rename a b w)) = w_data w" "w_next (snd (fs_rename a b w)) = w_next w"
    "calm (snd (fs_rename a b w))"
  using assms by (simp_all add: fs_rename_def syscall_calm split: option.split)

lemma fs_remove_calm:
  assumes "calm w"
  shows "w_dir (snd (fs_remove_file a w)) = (w_dir w)(a := None)"
    "w_data (snd (fs_remove_file a w)) = w_data w" "w_next (snd (fs_remove_file a w)) = w_next w"
    "calm (snd (fs_remove_file a w))"
  using assms by (auto simp: fs_remove_file_def syscall_calm fun_upd_idem split: option.split)

lemma shift_loop_calm:
  "calm w \<Longrightarrow> w_data (shift_loop p n w) = w_data w \<and> w_next (shift_loop p n w) = w_next w \<and>
     calm (shift_loop p n w)"
  by (induction p n w rule: shift_loop.induct) (simp_all add: fs_rename_calm)

lemma shift_loop_dir:
  "calm w \<Longrightarrow> w_dir w (backup_path p (Suc n)) = None \<Longrightarrow>
     w_dir (shift_loop p n w) (backup_path p 1) = None \<and>
     (\<forall>k. 1 \<le> k \<and> k \<le> n \<longrightarrow> w_dir (shift_loop p n w) (backup_path p (Suc k)) = w_dir w (backup_path p k)) \<and>
     (\<forall>q. (\<forall>k. 1 \<le> k \<and> k \<le> Suc n \<longrightarrow> q \<noteq> backup_path p k) \<longrightarrow> w_dir (shift_loop p n w) q = w_dir w q)"
proof (induction n arbitrary: w)
  case (Suc n)
  let ?w = "snd (fs_rename (backup_path p (Suc n)) (backup_path p (Suc n + 1)) w)"
  have dir: "w_dir ?w = ((w_dir w)(backup_path p (Suc n) := None))(backup_path p (Suc (Suc n)) := w_dir w (backup_path p (Suc n)))"
    using Suc.prems by (auto simp: fs_rename_calm(1) fun_upd_idem fun_upd_twist split: option.split)
  have "calm ?w" "w_dir ?w (backup_path p (Suc n)) = None"
    using Suc.prems dir by (simp_all add: fs_rename_calm)
  note IH = Suc.IH [OF this]
  show ?case
  proof (intro conjI allI impI)
    show "w_dir (shift_loop p (Suc n) w) (backup_path p 1) = None" using IH by simp
  next
    fix k assume k: "1 \<le> k \<and> k \<le> Suc n"
    show "w_dir (shift_loop p (Suc n) w) (backup_path p (Suc k)) = w_dir w (backup_path p k)"
    proof (cases "k = Suc n")
      case True
      then show ?thesis using IH dir by simp
    next
      case False
      then have "1 \<le> k \<and> k \<le> n" using k by simp
      then have "w_dir (shift_loop p n ?w) (backup_path p (Suc k)) = w_dir ?w (backup_path p k)"
        using IH by blast
      then show ?thesis using dir k False by simp
    qed
  next
    fix q assume q: "\<forall>k. 1 \<le> k \<and> k \<le> Suc (Suc n) \<longrightarrow> q \<noteq> backup_path p k"
    then have "\<forall>k. 1 \<le> k \<and> k \<le> Suc n \<longrightarrow> q \<noteq> backup_path p k" by simp
    then have "w_dir (shift_loop p n ?w) q = w_dir ?w q" using IH by blast
    moreover have "q \<noteq> backup_path p (Suc n)" "q \<noteq> backup_path p (Suc (Suc n))" using q by auto
    ultimately show "w_dir (shift_loop p (Suc n) w) q = w_dir w q" using dir by simp
  qed
qed simp

lemma shift_backups_calm:
  assumes calm: "calm w" and act: "w_dir w (fs_path s) = Some i" and mb: "0 < fs_max_backups s"
  obtains w' where "shift_backups s w = (Inr (), w')" "calm w'" "w_data w' = w_data w"
    "w_next w' = w_next w" "w_dir w' (fs_path s) = None"
    "\<And>k. k < fs_max_backups s \<Longrightarrow> w_dir w' (gen_path (fs_path s) (Suc k)) = w_dir w (gen_path (fs_path s) k)"
proof -
  define p n where "p = fs_path s" and "n = fs_max_backups s - 1"
  have mb_n: "fs_max_backups s = Suc n" using mb by (simp add: n_def)
  let ?w1 = "snd (fs_remove_file (backup_path p (Suc n)) w)"
  let ?w2 = "shift_loop p n ?w1"
  let ?r = "fs_rename p (backup_path p 1) ?w2"
  have c1: "calm ?w1" "w_dir ?w1 = (w_dir w)(backup_path p (Suc n) := None)"
    using calm by (simp_all add: fs_remove_calm)
  note loop = shift_loop_dir [OF c1(1), of p n] shift_loop_calm [OF c1(1), of p n]
  have gone: "w_dir ?w1 (backup_path p (Suc n)) = None" by (simp add: c1)
  have act2: "w_dir ?w2 p = Some i"
    using loop(1) [OF gone] act by (simp add: c1 p_def [symmetric])
  have c2: "calm ?w2" "w_data ?w2 = w_data w" "w_next ?w2 = w_next w"
    using loop(2) calm by (simp_all add: fs_remove_calm)
  have r: "?r = (Inr (), snd ?r)" using fs_rename_calm(2) [OF c2(1), of p "backup_path p 1"] act2
    by (cases ?r) simp
  have dir: "w_dir (snd ?r) = ((w_dir ?w2)(p := None))(backup_path p 1 \<mapsto> i)"
    using fs_rename_calm(1) [OF c2(1), of p "backup_path p 1"] act2 by simp
  show thesis
  proof (rule that)
    show "shift_backups s w = (Inr (), snd ?r)"
      using r by (simp add: shift_backups_def Let_def mb_n p_def [symmetric])
    show "calm (snd ?r)" "w_data (snd ?r) = w_data w" "w_next (snd ?r) = w_next w"
      using c2 by (simp_all add: fs_rename_calm)
    show "w_dir (snd ?r) (fs_path s) = None" unfolding dir by (simp add: p_def)
    fix k assume k: "k < fs_max_backups s"
    show "w_dir (snd ?r) (gen_path (fs_path s) (Suc k)) = w_dir w (gen_path (fs_path s) k)"
    proof (cases k)
      case 0
      then show ?thesis using act unfolding dir by (simp add: gen_path_def p_def)
    next
      case (Suc m)
      then have "1 \<le> k \<and> k \<le> n" using k mb_n by simp
      then have "w_dir ?w2 (backup_path p (Suc k)) = w_dir ?w1 (backup_path p k)"
        using loop(1) [OF gone] by blast
      then show ?thesis using Suc k mb_n unfolding dir by (simp add: gen_path_def p_def [symmetric] c1)
    qed
  qed
qed

subsection \<open>The generations of a log\<close>

text \<open>
  The history of a file sink as a list of generations, oldest first, each the list of the records
  written to it. The files on disk hold the last ones: the active file the last, backup \<open>k\<close> the
  \<open>k\<close>-th before it.
\<close>

definition generation :: "file_sink \<Rightarrow> world \<Rightarrow> nat \<Rightarrow> bytes option" where
  "generation s w k = map_option (w_data w) (w_dir w (gen_path (fs_path s) k))"

definition gens_inv :: "file_sink \<Rightarrow> world \<Rightarrow> bytes list list \<Rightarrow> bool" where
  "gens_inv s w gens \<longleftrightarrow>
     calm w \<and> gens \<noteq> [] \<and>
     (\<forall>k \<le> fs_max_backups s. generation s w k =
        (if k < length gens then Some (concat (gens ! (length gens - Suc k))) else None)) \<and>
     w_dir w (fs_path s) = Some (fd_inode (fs_file s)) \<and>
     (fd_append (fs_file s) \<or> fd_pos (fs_file s) = length (w_data w (fd_inode (fs_file s)))) \<and>
     fs_size s = word_of_nat (length (w_data w (fd_inode (fs_file s)))) \<and>
     (\<forall>k \<le> fs_max_backups s. \<forall>l \<le> fs_max_backups s. \<forall>i.
        w_dir w (gen_path (fs_path s) k) = Some i \<longrightarrow> w_dir w (gen_path (fs_path s) l) = Some i \<longrightarrow> k = l) \<and>
     (\<forall>k \<le> fs_max_backups s. \<forall>i. w_dir w (gen_path (fs_path s) k) = Some i \<longrightarrow> i < w_next w)"

lemma gens_inv_files: "gens_inv s w gens \<Longrightarrow> same_files w w' \<Longrightarrow> gens_inv s w' gens"
  by (simp add: gens_inv_def same_files_def generation_def calm_def)

lemma gens_inv_last:
  assumes "gens_inv s w gens"
  shows "w_data w (fd_inode (fs_file s)) = concat (last gens)" "gens \<noteq> []" "calm w"
proof -
  have "generation s w 0 = Some (concat (gens ! (length gens - 1)))" "gens \<noteq> []"
    using assms by (auto simp: gens_inv_def)
  then show "w_data w (fd_inode (fs_file s)) = concat (last gens)" "gens \<noteq> []"
    using assms by (simp_all add: generation_def gens_inv_def gen_path_def last_conv_nth)
  show "calm w" using assms by (simp add: gens_inv_def)
qed

lemma write_at_end: "write_at (length d) bs d = d @ bs"
  by (simp add: write_at_def)

text \<open>What the last generation gains shows in the active file only.\<close>

lemma nth_gens_last:
  "0 < k \<Longrightarrow> k < length gens \<Longrightarrow> (butlast gens @ [g]) ! (length gens - Suc k) = gens ! (length gens - Suc k)"
proof -
  assume "0 < k" "k < length gens"
  then have "length gens - Suc k < length (butlast gens)" by simp
  then show ?thesis by (simp add: nth_append nth_butlast)
qed

lemma generations_append:
  assumes inv: "gens_inv s w gens" and k: "k \<le> fs_max_backups s" and "fs_path s' = fs_path s" "w_dir w' = w_dir w"
    and data: "w_data w' = (w_data w)(fd_inode (fs_file s) := concat (last gens) @ bs)"
  shows "generation s' w' k =
    (if k < length gens then Some (concat ((butlast gens @ [last gens @ [bs]]) ! (length gens - Suc k))) else None)"
proof (cases "k = 0")
  case True
  then show ?thesis
    using assms gens_inv_last(2) [OF inv] by (simp add: gens_inv_def generation_def gen_path_def nth_append)
next
  case False
  have "w_dir w (gen_path (fs_path s) 0) = Some (fd_inode (fs_file s))" using inv by (simp add: gens_inv_def gen_path_def)
  then have "w_dir w (gen_path (fs_path s) k) \<noteq> Some (fd_inode (fs_file s))"
    using inv False k unfolding gens_inv_def by blast
  then have "generation s' w' k = generation s w k"
    using assms(3-5) by (cases "w_dir w (gen_path (fs_path s) k)") (simp_all add: generation_def)
  then show ?thesis using inv k False nth_gens_last [of k gens "last gens @ [bs]"] by (simp add: gens_inv_def)
qed

lemma file_append_gens:
  assumes inv: "gens_inv s w gens"
  obtains s' w' where "file_append bs s w = (Inr (), s', w')"
    "gens_inv s' w' (butlast gens @ [last gens @ [bs]])"
    "fs_path s' = fs_path s" "fs_max_backups s' = fs_max_backups s" "fs_max_size s' = fs_max_size s"
    "fs_interval s' = fs_interval s"
proof -
  define i where "i = fd_inode (fs_file s)"
  define d where "d = w_data w i"
  define w1 where "w1 = w\<lparr>w_calls := Suc (w_calls w)\<rparr>"
  define f' where "f' = (fs_file s)\<lparr>fd_pos := length (d @ bs)\<rparr>"
  define w' where "w' = w1\<lparr>w_data := (w_data w)(i := d @ bs), w_mtime := (w_mtime w)(i := w_clock w (w_ticks w))\<rparr>"
  define s' where "s' = s\<lparr>fs_file := f', fs_size := fs_size s + word_of_nat (length bs)\<rparr>"
  have calm: "calm w" using inv by (rule gens_inv_last)
  have put: "fs_put (fs_file s) bs w1 = (f', w')"
    using inv by (auto simp: fs_put_def Let_def f'_def w'_def w1_def gens_inv_def i_def d_def write_at_end)
  have app: "file_append bs s w = (Inr (), s', w')"
    using syscall_calm [OF calm] put
    by (simp add: file_append_def fs_write_all_def w1_def [symmetric] s'_def)
  have d: "d = concat (last gens)" "gens \<noteq> []"
    using gens_inv_last [OF inv] by (simp_all add: d_def i_def)
  have "generation s' w' k = (if k < length gens
      then Some (concat ((butlast gens @ [last gens @ [bs]]) ! (length gens - Suc k))) else None)"
    if "k \<le> fs_max_backups s" for k
    by (rule generations_append [OF inv that]) (simp_all add: s'_def w'_def w1_def i_def d(1) [symmetric])
  moreover have "length (butlast gens @ [last gens @ [bs]]) = length gens" using d(2) by simp
  ultimately have "gens_inv s' w' (butlast gens @ [last gens @ [bs]])"
    using inv by (simp add: gens_inv_def s'_def w'_def w1_def f'_def i_def d_def)
  then show thesis using that app by (simp add: s'_def)
qed

lemma rotate_finish_calm:
  obtains s' w' where "rotate_finish f s w = (Inr (), s', w')" "same_files w w'"
    "fs_file s' = f" "fs_size s' = 0" "fs_path s' = fs_path s"
    "fs_max_backups s' = fs_max_backups s" "fs_max_size s' = fs_max_size s"
    "fs_interval s' = fs_interval s"
proof -
  obtain now w' where c: "clock_now (fs_clock s) w = (now, w')" by (cases "clock_now (fs_clock s) w")
  then have "same_files w w'" using clock_now_files [of w "fs_clock s"] by simp
  moreover have fin: "rotate_finish f s w =
      (Inr (), s\<lparr>fs_file := f, fs_size := 0, fs_interval_start := slot_start (fs_interval s) now\<rparr>, w')"
    using c by (simp add: rotate_finish_def Let_def)
  ultimately show thesis by (intro that [OF fin]) simp_all
qed

lemma fs_open_append_calm:
  assumes "calm w" "w_dir w p = None"
  obtains w' where "fs_open_append p w = (Inr \<lparr>fd_inode = w_next w, fd_append = True, fd_pos = 0\<rparr>, w')"
    "calm w'" "w_dir w' = (w_dir w)(p \<mapsto> w_next w)" "w_data w' = (w_data w)(w_next w := [])"
    "w_next w' = Suc (w_next w)" "w_mtime w' (w_next w) = w_clock w' (w_ticks w')"
  using assms by (simp add: fs_open_append_def syscall_calm fs_lookup_create_def Let_def)

lemma fs_open_truncate_calm:
  assumes "calm w" "w_dir w p = Some i"
  obtains w' where "fs_open_truncate p w = (Inr \<lparr>fd_inode = i, fd_append = False, fd_pos = 0\<rparr>, w')"
    "calm w'" "w_dir w' = w_dir w" "w_data w' = (w_data w)(i := [])" "w_next w' = w_next w"
  using assms by (simp add: fs_open_truncate_def syscall_calm fs_lookup_create_def)

lemma nth_gens_snoc: "0 < k \<Longrightarrow> k < Suc (length gens) \<Longrightarrow>
    (gens @ [g]) ! (Suc (length gens) - Suc k) = gens ! (length gens - Suc (k - 1))"
proof -
  assume k: "0 < k" "k < Suc (length gens)"
  then obtain m where m: "k = Suc m" "m < length gens" by (cases k) auto
  then have "length gens - Suc m < length gens" by arith
  with m show ?thesis by (simp add: nth_append)
qed

text \<open>Every name moved up by one, and a new empty file under the active name.\<close>

definition shifted_up :: "path \<Rightarrow> nat \<Rightarrow> world \<Rightarrow> world \<Rightarrow> bool" where
  "shifted_up p mb w w' \<longleftrightarrow> w_dir w' (gen_path p 0) = Some (w_next w) \<and>
     (\<forall>k < mb. w_dir w' (gen_path p (Suc k)) = w_dir w (gen_path p k)) \<and>
     w_data w' = (w_data w)(w_next w := []) \<and> w_next w' = Suc (w_next w)"

lemma gens_inv_old:
  assumes "gens_inv s w gens" "k \<le> fs_max_backups s" "w_dir w (gen_path (fs_path s) k) = Some i"
  shows "i < w_next w"
  using assms by (simp add: gens_inv_def)

lemma gens_inv_inject:
  assumes "gens_inv s w gens" "k \<le> fs_max_backups s" "l \<le> fs_max_backups s"
    "w_dir w (gen_path (fs_path s) k) = Some i" "w_dir w (gen_path (fs_path s) l) = Some i"
  shows "k = l"
  using assms unfolding gens_inv_def by blast

lemma shifted_up_generations:
  assumes "gens_inv s w gens" "shifted_up (fs_path s) (fs_max_backups s) w w'" "fs_path s' = fs_path s"
    "k \<le> fs_max_backups s"
  shows "generation s' w' k =
    (if k < Suc (length gens) then Some (concat ((gens @ [[]]) ! (Suc (length gens) - Suc k))) else None)"
proof (cases k)
  case 0
  then show ?thesis using assms(2,3) by (simp add: generation_def shifted_up_def nth_append)
next
  case (Suc m)
  have "generation s' w' k = generation s w m"
    using assms(2-4) Suc gens_inv_old [OF assms(1), of m]
    by (cases "w_dir w (gen_path (fs_path s) m)") (auto simp: generation_def shifted_up_def)
  also have "\<dots> = (if m < length gens then Some (concat (gens ! (length gens - Suc m))) else None)"
    using assms(1,4) Suc by (simp add: gens_inv_def)
  finally show ?thesis using Suc nth_gens_snoc [of k gens "[]"] by simp
qed

lemma shifted_up_inject:
  assumes inv: "gens_inv s w gens" and up: "shifted_up (fs_path s) (fs_max_backups s) w w'"
    and k: "k \<le> fs_max_backups s" "w_dir w' (gen_path (fs_path s) k) = Some i"
    and l: "l \<le> fs_max_backups s" "w_dir w' (gen_path (fs_path s) l) = Some i"
  shows "k = l"
proof -
  have fresh: "\<not> w_dir w' (gen_path (fs_path s) (Suc m)) = Some (w_next w)" if "Suc m \<le> fs_max_backups s" for m
    using gens_inv_old [OF inv, of m "w_next w"] up that by (auto simp: shifted_up_def)
  show ?thesis
  proof (cases k; cases l)
    fix k' l' assume "k = Suc k'" "l = Suc l'"
    then show ?thesis using gens_inv_inject [OF inv, of k' l' i] up k l by (simp add: shifted_up_def)
  qed (use fresh up k l in \<open>auto simp: shifted_up_def\<close>)
qed

lemma shifted_up_new:
  assumes "gens_inv s w gens" "shifted_up (fs_path s) (fs_max_backups s) w w'"
    "k \<le> fs_max_backups s" "w_dir w' (gen_path (fs_path s) k) = Some i"
  shows "i < w_next w'"
proof (cases k)
  case (Suc m)
  then have "i < w_next w" using assms(2-4) by (intro gens_inv_old [OF assms(1), of m]) (simp_all add: shifted_up_def)
  then show ?thesis using assms(2) by (simp add: shifted_up_def)
qed (use assms in \<open>simp add: shifted_up_def\<close>)

lemma gens_inv_shifted:
  assumes inv: "gens_inv s w gens" and up: "shifted_up (fs_path s) (fs_max_backups s) w w'" and "calm w'"
    and s': "fs_file s' = \<lparr>fd_inode = w_next w, fd_append = True, fd_pos = 0\<rparr>" "fs_size s' = 0"
      "fs_path s' = fs_path s" "fs_max_backups s' = fs_max_backups s"
  shows "gens_inv s' w' (gens @ [[]])"
proof -
  have "w_dir w' (fs_path s) = Some (w_next w)" "w_data w' (w_next w) = []"
    using up by (simp_all add: shifted_up_def gen_path_def)
  then show ?thesis
    unfolding gens_inv_def s'
    using shifted_up_generations [OF inv up s'(3)] shifted_up_inject [OF inv up] shifted_up_new [OF inv up] \<open>calm w'\<close>
    by (intro conjI allI impI) simp_all
qed

text \<open>The two ways a rotation begins the next generation.\<close>

lemma rotate_with_backups:
  assumes inv: "gens_inv s w gens" and mb: "0 < fs_max_backups s"
  obtains f w2 w3 where "shift_backups s w = (Inr (), w2)" "fs_open_append (fs_path s) w2 = (Inr f, w3)"
    "shifted_up (fs_path s) (fs_max_backups s) w w3" "calm w3"
    "f = \<lparr>fd_inode = w_next w, fd_append = True, fd_pos = 0\<rparr>"
proof -
  have "calm w" "w_dir w (fs_path s) = Some (fd_inode (fs_file s))" using inv by (simp_all add: gens_inv_def)
  then obtain w2 where sh: "shift_backups s w = (Inr (), w2)" "calm w2" "w_data w2 = w_data w"
      "w_next w2 = w_next w" "w_dir w2 (fs_path s) = None"
      "\<And>k. k < fs_max_backups s \<Longrightarrow> w_dir w2 (gen_path (fs_path s) (Suc k)) = w_dir w (gen_path (fs_path s) k)"
    using shift_backups_calm [OF _ _ mb] by metis
  obtain w3 where op: "fs_open_append (fs_path s) w2 = (Inr \<lparr>fd_inode = w_next w2, fd_append = True, fd_pos = 0\<rparr>, w3)"
      "calm w3" "w_dir w3 = (w_dir w2)(fs_path s \<mapsto> w_next w2)" "w_data w3 = (w_data w2)(w_next w2 := [])"
      "w_next w3 = Suc (w_next w2)"
    using fs_open_append_calm [OF sh(2,5)] by metis
  have "shifted_up (fs_path s) (fs_max_backups s) w w3"
    using op(3-5) sh(3,4,6) by (simp add: shifted_up_def gen_path_def)
  then show thesis using that sh(1,4) op(1,2) by simp
qed

lemma rotate_file_gens:
  assumes inv: "gens_inv s w gens"
  obtains s' w' where "rotate_file s w = (Inr (), s', w')" "gens_inv s' w' (gens @ [[]])"
    "fs_path s' = fs_path s" "fs_max_backups s' = fs_max_backups s" "fs_max_size s' = fs_max_size s"
    "fs_interval s' = fs_interval s"
proof -
  define w1 where "w1 = snd (fs_sync_all (fs_file s) w)"
  have inv1: "gens_inv s w1 gens" using gens_inv_files [OF inv fs_sync_all_files] by (simp add: w1_def)
  show thesis
  proof (cases "0 < fs_max_backups s")
    case True
    obtain f w2 w3 where go: "shift_backups s w1 = (Inr (), w2)" "fs_open_append (fs_path s) w2 = (Inr f, w3)"
        "shifted_up (fs_path s) (fs_max_backups s) w1 w3" "calm w3"
        "f = \<lparr>fd_inode = w_next w1, fd_append = True, fd_pos = 0\<rparr>"
      by (rule rotate_with_backups [OF inv1 True])
    obtain s' w' where fin: "rotate_finish f s w3 = (Inr (), s', w')" "same_files w3 w'"
        "fs_file s' = f" "fs_size s' = 0" "fs_path s' = fs_path s" "fs_max_backups s' = fs_max_backups s"
        "fs_max_size s' = fs_max_size s" "fs_interval s' = fs_interval s"
      using rotate_finish_calm [of f s w3] by metis
    have "rotate_file s w = (Inr (), s', w')"
      using True go(1,2) fin(1) by (simp add: rotate_file_def fs_flush_def Let_def w1_def [symmetric])
    moreover have "gens_inv s' w' (gens @ [[]])"
      using gens_inv_files [OF gens_inv_shifted [OF inv1 go(3,4) fin(3) [unfolded go(5)] fin(4-6)] fin(2)] .
    ultimately show thesis using that fin(5-8) by blast
  next
    case False
    define f where "f = \<lparr>fd_inode = fd_inode (fs_file s), fd_append = False, fd_pos = 0\<rparr>"
    have "calm w1" and act: "w_dir w1 (fs_path s) = Some (fd_inode (fs_file s))" using inv1 by (simp_all add: gens_inv_def)
    then obtain w3 where op: "fs_open_truncate (fs_path s) w1 = (Inr f, w3)" "calm w3" "w_dir w3 = w_dir w1"
        "w_data w3 = (w_data w1)(fd_inode (fs_file s) := [])" "w_next w3 = w_next w1"
      using fs_open_truncate_calm unfolding f_def by metis
    obtain s' w' where fin: "rotate_finish f s w3 = (Inr (), s', w')" "same_files w3 w'"
        "fs_file s' = f" "fs_size s' = 0" "fs_path s' = fs_path s" "fs_max_backups s' = fs_max_backups s"
        "fs_max_size s' = fs_max_size s" "fs_interval s' = fs_interval s"
      using rotate_finish_calm [of f s w3] by metis
    have rot: "rotate_file s w = (Inr (), s', w')"
      using False op(1) fin(1) by (simp add: rotate_file_def fs_flush_def Let_def w1_def [symmetric])
    have "gens_inv s' w3 (gens @ [[]])"
      using inv1 False op fin act by (simp add: gens_inv_def generation_def f_def gen_path_def)
    then show thesis using that rot gens_inv_files [OF _ fin(2)] fin(5-8) by blast
  qed
qed

text \<open>When a size limit is set, a generation holds at most that many bytes, or a single record.\<close>

definition gens_bounded :: "u64 \<Rightarrow> bytes list list \<Rightarrow> bool" where
  "gens_bounded m gens \<longleftrightarrow>
     m = 0 \<or> list_all (\<lambda>g. length (concat g) \<le> unat m \<or> length g \<le> 1) gens"

text \<open>Without a time interval, a new generation is begun only by a record that does not fit.\<close>

definition gens_tight :: "u64 \<Rightarrow> bytes list list \<Rightarrow> bool" where
  "gens_tight m gens \<longleftrightarrow>
     successively (\<lambda>g h. h \<noteq> [] \<and> m \<noteq> 0 \<and> unat m < length (concat g) + length (hd h)) gens"

lemma size_hit_iff:
  assumes "fs_size s = word_of_nat n" "n + length bs < 2 ^ 64"
  shows "size_hit s bs \<longleftrightarrow> fs_max_size s \<noteq> 0 \<and> unat (fs_max_size s) < n + length bs"
proof -
  have "unat (fs_size s) = n" "unat (word_of_nat (length bs) :: u64) = length bs"
    using assms by (simp_all add: unat_of_nat)
  then have "unat (saturating_add (fs_size s) (word_of_nat (length bs))) = n + length bs"
    using assms(2) by (simp add: unat_saturating_add)
  then show ?thesis
    by (simp add: size_hit_def word_less_nat_alt word_neq_0_conv)
qed

lemma gens_bounded_snoc: "gens_bounded m gens \<Longrightarrow> gens_bounded m (gens @ [[bs]])"
  by (simp add: gens_bounded_def)

lemma gens_bounded_last:
  assumes "gens_bounded m gens" "gens \<noteq> []"
    "\<not> (m \<noteq> 0 \<and> unat m < length (concat (last gens)) + length bs)"
  shows "gens_bounded m (butlast gens @ [last gens @ [bs]])"
proof -
  have "gens = butlast gens @ [last gens]" using assms(2) by simp
  then have "m = 0 \<or> list_all (\<lambda>g. length (concat g) \<le> unat m \<or> length g \<le> 1) (butlast gens @ [last gens])"
    using assms(1) by (simp add: gens_bounded_def)
  then show ?thesis using assms(3) by (auto simp: gens_bounded_def)
qed

lemma gens_tight_snoc:
  assumes "gens_tight m gens" "m \<noteq> 0" "unat m < length (concat (last gens)) + length bs"
  shows "gens_tight m (gens @ [[bs]])"
  using assms by (simp add: gens_tight_def successively_append_iff)

lemma gens_tight_last:
  assumes "gens_tight m gens" "gens \<noteq> []"
  shows "gens_tight m (butlast gens @ [last gens @ [bs]])"
proof -
  have "gens = butlast gens @ [last gens]" using assms(2) by simp
  then have "gens_tight m (butlast gens @ [last gens])" using assms(1) by simp
  then show ?thesis by (auto simp: gens_tight_def successively_append_iff)
qed

subsection \<open>When a generation is begun\<close>

text \<open>The \<open>k\<close>-th reading of the clock of a sink, and whether one instant lies in a later slot of the
  interval than another.\<close>

definition clock_reading :: "clock \<Rightarrow> (nat \<Rightarrow> system_time) \<Rightarrow> nat \<Rightarrow> system_time" where
  "clock_reading c clk k = (case c of System \<Rightarrow> clk k | Frozen t \<Rightarrow> t)"

definition later_slot :: "rotation_interval \<Rightarrow> system_time \<Rightarrow> system_time \<Rightarrow> bool" where
  "later_slot iv t u = (case (slot_start iv t, slot_start iv u) of (Some a, Some b) \<Rightarrow> a < b | _ \<Rightarrow> False)"

lemma clock_reading_System [simp]: "clock_reading System clk = clk"
  by (simp add: clock_reading_def fun_eq_iff)

text \<open>With \<open>ks\<close> the readings at which the generations were begun: every generation but the first was
  begun by a record, either because the record did not fit behind the one before it or because the clock
  had been read in a later slot than the one that generation was begun in.\<close>

definition gens_due ::
  "rotation_interval \<Rightarrow> u64 \<Rightarrow> (nat \<Rightarrow> system_time) \<Rightarrow> nat list \<Rightarrow> bytes list list \<Rightarrow> bool" where
  "gens_due iv m clk ks gens \<longleftrightarrow> length ks = length gens \<and>
     successively (\<lambda>(j, g) (k, h). j \<le> k \<and> h \<noteq> [] \<and>
       (m \<noteq> 0 \<and> unat m < length (concat g) + length (hd h) \<or>
        (\<exists>i. j \<le> i \<and> i \<le> k \<and> later_slot iv (clk j) (clk i)))) (zip ks gens)"

text \<open>Without an interval only a record that does not fit begins a generation.\<close>

lemma gens_due_tight:
  assumes "gens_due Never m clk ks gens"
  shows "gens_tight m gens"
proof -
  have "successively (\<lambda>a b. snd b \<noteq> [] \<and> m \<noteq> 0 \<and> unat m < length (concat (snd a)) + length (hd (snd b))) (zip ks gens)"
    using assms unfolding gens_due_def
    by (auto simp: later_slot_def slot_start_def elim!: successively_mono split: option.splits)
  then have "successively (\<lambda>g h. h \<noteq> [] \<and> m \<noteq> 0 \<and> unat m < length (concat g) + length (hd h)) (map snd (zip ks gens))"
    by (simp add: successively_map)
  then show ?thesis using assms by (simp add: gens_due_def gens_tight_def)
qed

definition gens_timed :: "file_sink \<Rightarrow> world \<Rightarrow> bytes list list \<Rightarrow> bool" where
  "gens_timed s w gens \<longleftrightarrow> (\<exists>ks.
     gens_due (fs_interval s) (fs_max_size s) (clock_reading (fs_clock s) (w_clock w)) ks gens \<and>
     ks \<noteq> [] \<and> last ks \<le> w_ticks w \<and>
     fs_interval_start s = slot_start (fs_interval s) (clock_reading (fs_clock s) (w_clock w) (last ks)))"

lemma gens_timed_same: "gens_timed s w gens \<Longrightarrow> same_files w w' \<Longrightarrow> gens_timed s w' gens"
  unfolding gens_timed_def same_files_def by (metis le_trans)

lemma gens_timed_first:
  "k \<le> w_ticks w \<Longrightarrow> fs_interval_start s = slot_start (fs_interval s) (clock_reading (fs_clock s) (w_clock w) k) \<Longrightarrow>
     gens_timed s w [g]"
  unfolding gens_timed_def gens_due_def by (rule exI [of _ "[k]"]) simp

lemma zip_snoc_last: "length xs = length ys \<Longrightarrow> xs \<noteq> [] \<Longrightarrow> last (zip xs ys) = (last xs, last ys)"
  by (induction rule: list_induct2) auto

lemma gens_due_snoc:
  assumes "gens_due iv m clk ks gens" "ks \<noteq> []" "last ks \<le> k"
    "m \<noteq> 0 \<and> unat m < length (concat (last gens)) + length bs \<or>
     (\<exists>i. last ks \<le> i \<and> i \<le> k \<and> later_slot iv (clk (last ks)) (clk i))"
  shows "gens_due iv m clk (ks @ [k]) (gens @ [[bs]])"
  using assms by (simp add: gens_due_def successively_append_iff zip_snoc_last)

lemma gens_due_last:
  assumes "gens_due iv m clk ks gens" "gens \<noteq> []"
  shows "gens_due iv m clk ks (butlast gens @ [last gens @ [bs]])"
proof -
  obtain ks' k gens' g where split: "ks = ks' @ [k]" "gens = gens' @ [g]" "length ks' = length gens'"
    using assms by (cases ks rule: rev_cases; cases gens rule: rev_cases) (auto simp: gens_due_def)
  with assms(1) show ?thesis
    by (auto simp: gens_due_def successively_append_iff split: prod.splits)
qed

text \<open>What the operations do to the clock.\<close>

lemma fs_calls_clock:
  "w_clock (snd (fs_sync_all f w)) = w_clock w" "w_ticks (snd (fs_sync_all f w)) = w_ticks w"
  "w_clock (snd (fs_rename p q w)) = w_clock w" "w_ticks (snd (fs_rename p q w)) = w_ticks w"
  "w_clock (snd (fs_remove_file p w)) = w_clock w" "w_ticks (snd (fs_remove_file p w)) = w_ticks w"
  "w_clock (snd (fs_open_append p w)) = w_clock w" "w_ticks (snd (fs_open_append p w)) = w_ticks w"
  "w_clock (snd (fs_open_truncate p w)) = w_clock w" "w_ticks (snd (fs_open_truncate p w)) = w_ticks w"
  by (simp_all add: fs_sync_all_def fs_rename_def fs_remove_file_def fs_open_append_def fs_open_truncate_def
      fs_lookup_create_def syscall_def Let_def split: option.split)

lemma shift_loop_clock:
  "w_clock (shift_loop p n w) = w_clock w" "w_ticks (shift_loop p n w) = w_ticks w"
  by (induction p n w rule: shift_loop.induct) (simp_all add: fs_calls_clock)

lemma shift_backups_clock:
  "w_clock (snd (shift_backups s w)) = w_clock w" "w_ticks (snd (shift_backups s w)) = w_ticks w"
  by (simp_all add: shift_backups_def Let_def fs_calls_clock shift_loop_clock)

lemma clock_now_reading:
  "clock_now c w = (now, w') \<Longrightarrow> now = clock_reading c (w_clock w) (w_ticks w) \<and> w_clock w' = w_clock w \<and>
     w_ticks w \<le> w_ticks w'"
  by (cases c) (auto simp: clock_now_def system_now_def clock_reading_def)

lemma file_append_clock:
  "file_append bs s w = (r, s', w') \<Longrightarrow> w_clock w' = w_clock w \<and> w_ticks w' = w_ticks w \<and>
     fs_clock s' = fs_clock s \<and> fs_interval_start s' = fs_interval_start s \<and> fs_interval s' = fs_interval s \<and>
     fs_max_size s' = fs_max_size s"
  by (auto simp: file_append_def fs_write_all_def fs_put_def syscall_def Let_def split: option.splits prod.splits)

lemma rotate_finish_clock:
  assumes "rotate_finish f s w = (r, s', w')"
  shows "w_clock w' = w_clock w \<and> w_ticks w \<le> w_ticks w' \<and> fs_clock s' = fs_clock s \<and>
    fs_interval s' = fs_interval s \<and> fs_max_size s' = fs_max_size s \<and>
    fs_interval_start s' = slot_start (fs_interval s) (clock_reading (fs_clock s) (w_clock w) (w_ticks w))"
  using assms by (auto simp: rotate_finish_def Let_def dest: clock_now_reading split: prod.splits)

lemma rotate_file_clock:
  assumes "rotate_file s w = (Inr (), s', w')"
  shows "w_clock w' = w_clock w \<and> w_ticks w \<le> w_ticks w' \<and> fs_clock s' = fs_clock s \<and>
    fs_interval s' = fs_interval s \<and> fs_max_size s' = fs_max_size s \<and>
    fs_interval_start s' = slot_start (fs_interval s) (clock_reading (fs_clock s) (w_clock w) (w_ticks w))"
proof -
  define w1 where "w1 = snd (fs_sync_all (fs_file s) w)"
  have w1: "w_clock w1 = w_clock w" "w_ticks w1 = w_ticks w" by (simp_all add: w1_def fs_calls_clock)
  have go: "(if fs_max_backups s > 0 then
       (case shift_backups s w1 of
          (Inl e, w) \<Rightarrow> (Inl e, s, w)
        | (Inr _, w) \<Rightarrow> (case fs_open_append (fs_path s) w of
            (Inl e, w) \<Rightarrow> (Inl e, s, w) | (Inr f, w) \<Rightarrow> rotate_finish f s w))
     else (case fs_open_truncate (fs_path s) w1 of
            (Inl e, w) \<Rightarrow> (Inl e, s, w) | (Inr f, w) \<Rightarrow> rotate_finish f s w)) = (Inr (), s', w')"
    using assms by (simp only: rotate_file_def fs_flush_def w1_def Let_def prod.case sum.case)
  have "\<exists>f w2. rotate_finish f s w2 = (Inr (), s', w') \<and> w_clock w2 = w_clock w1 \<and> w_ticks w2 = w_ticks w1"
  proof (cases "fs_max_backups s > 0")
    case True
    obtain r w2 where 2: "shift_backups s w1 = (r, w2)" by (cases "shift_backups s w1")
    obtain r3 w3 where 3: "fs_open_append (fs_path s) w2 = (r3, w3)" by (cases "fs_open_append (fs_path s) w2")
    show ?thesis
      using go True 2 3 shift_backups_clock [of s w1] fs_calls_clock(7,8) [of "fs_path s" w2]
      by (cases r; cases r3) auto
  next
    case False
    obtain r3 w3 where 3: "fs_open_truncate (fs_path s) w1 = (r3, w3)" by (cases "fs_open_truncate (fs_path s) w1")
    show ?thesis using go False 3 fs_calls_clock(9,10) [of "fs_path s" w1] by (cases r3) auto
  qed
  then obtain f w2 where "rotate_finish f s w2 = (Inr (), s', w')" "w_clock w2 = w_clock w" "w_ticks w2 = w_ticks w"
    using w1 by auto
  from rotate_finish_clock [OF this(1)] this(2,3) show ?thesis by simp
qed

lemma interval_elapsed_clock:
  "interval_elapsed s w = (due, w') \<Longrightarrow> w_clock w' = w_clock w \<and> w_ticks w \<le> w_ticks w'"
  by (auto simp: interval_elapsed_def dest: clock_now_reading split: prod.splits)

lemma interval_elapsed_due:
  "interval_elapsed s w = (True, w') \<Longrightarrow> \<exists>opened b. fs_interval_start s = Some opened \<and>
     slot_start (fs_interval s) (clock_reading (fs_clock s) (w_clock w) (w_ticks w)) = Some b \<and> opened < b"
  by (auto simp: interval_elapsed_def dest: clock_now_reading split: prod.splits option.splits)

text \<open>A record that rotates begins a generation that is due; one that does not belongs to the last.\<close>

lemma gens_timed_rotated:
  assumes timed: "gens_timed s w gens" and rot: "rotate_file s w1 = (Inr (), s1, w2)"
    and app: "file_append bs s1 w2 = (Inr (), s', w')"
    and due: "(if hit then (True, w) else interval_elapsed s w) = (True, w1)"
    and hit: "hit \<longleftrightarrow> fs_max_size s \<noteq> 0 \<and> unat (fs_max_size s) < length (concat (last gens)) + length bs"
  shows "gens_timed s' w' (gens @ [[bs]])"
proof -
  let ?clk = "clock_reading (fs_clock s) (w_clock w)"
  obtain ks where ks: "gens_due (fs_interval s) (fs_max_size s) ?clk ks gens" "ks \<noteq> []" "last ks \<le> w_ticks w"
      "fs_interval_start s = slot_start (fs_interval s) (?clk (last ks))"
    using timed by (auto simp: gens_timed_def)
  have w1: "w_clock w1 = w_clock w" "w_ticks w \<le> w_ticks w1"
    using due interval_elapsed_clock [of s w True w1] by (auto split: if_splits)
  have "hit \<or> later_slot (fs_interval s) (?clk (last ks)) (?clk (w_ticks w))"
  proof (cases hit)
    case False
    then obtain opened b where "fs_interval_start s = Some opened"
        "slot_start (fs_interval s) (?clk (w_ticks w)) = Some b" "opened < b"
      using due interval_elapsed_due [of s w w1] by auto
    then show ?thesis using ks(4) by (simp add: later_slot_def)
  qed simp
  then have reason: "fs_max_size s \<noteq> 0 \<and> unat (fs_max_size s) < length (concat (last gens)) + length bs \<or>
      (\<exists>i. last ks \<le> i \<and> i \<le> w_ticks w1 \<and> later_slot (fs_interval s) (?clk (last ks)) (?clk i))"
    using hit ks(3) w1(2) by blast
  have "last ks \<le> w_ticks w1" using ks(3) w1(2) by simp
  from gens_due_snoc [OF ks(1,2) this reason] show ?thesis
    using rotate_file_clock [OF rot] file_append_clock [OF app] w1 unfolding gens_timed_def
    by (intro exI [of _ "ks @ [w_ticks w1]"]) simp
qed

lemma gens_timed_appended:
  assumes timed: "gens_timed s w gens" and "gens \<noteq> []" and app: "file_append bs s w1 = (Inr (), s', w')"
    and w1: "w_clock w1 = w_clock w" "w_ticks w \<le> w_ticks w1"
  shows "gens_timed s' w' (butlast gens @ [last gens @ [bs]])"
proof -
  let ?clk = "clock_reading (fs_clock s) (w_clock w)"
  obtain ks where ks: "gens_due (fs_interval s) (fs_max_size s) ?clk ks gens" "ks \<noteq> []" "last ks \<le> w_ticks w"
      "fs_interval_start s = slot_start (fs_interval s) (?clk (last ks))"
    using timed by (auto simp: gens_timed_def)
  show ?thesis
    unfolding gens_timed_def
    using gens_due_last [OF ks(1) assms(2), of bs] ks(2-4) file_append_clock [OF app] w1
    by (intro exI [of _ ks]) simp
qed

text \<open>A record before which the sink rotates, and one before which it does not.\<close>

lemma rotate_append_gens:
  assumes inv: "gens_inv s w gens"
  obtains s1 w1 s' w' where "rotate_file s w = (Inr (), s1, w1)" "file_append bs s1 w1 = (Inr (), s', w')"
    "gens_inv s' w' (gens @ [[bs]])" "fs_path s' = fs_path s" "fs_max_backups s' = fs_max_backups s"
    "fs_max_size s' = fs_max_size s" "fs_interval s' = fs_interval s"
proof -
  obtain s1 w1 where rot: "rotate_file s w = (Inr (), s1, w1)" "gens_inv s1 w1 (gens @ [[]])"
      "fs_path s1 = fs_path s" "fs_max_backups s1 = fs_max_backups s" "fs_max_size s1 = fs_max_size s"
      "fs_interval s1 = fs_interval s"
    using rotate_file_gens [OF inv] by metis
  obtain s' w' where app: "file_append bs s1 w1 = (Inr (), s', w')" "gens_inv s' w' (gens @ [[bs]])"
      "fs_path s' = fs_path s1" "fs_max_backups s' = fs_max_backups s1" "fs_max_size s' = fs_max_size s1"
      "fs_interval s' = fs_interval s1"
    using file_append_gens [OF rot(2), of bs] by (metis append_Nil butlast_snoc last_snoc)
  show thesis using that [OF rot(1) app(1,2)] app(3-) rot(3-) by simp
qed

lemma never_due: "fs_interval s = Never \<Longrightarrow> \<not> fst (interval_elapsed s w)"
  by (simp add: interval_elapsed_def slot_start_def split: prod.split option.split)

lemma file_write_gens:
  assumes inv: "gens_inv s w gens" and small: "length (concat (last gens)) + length bs < 2 ^ 64"
    and bounded: "gens_bounded (fs_max_size s) gens"
  obtains s' w' gens' where "file_write_bytes bs s w = (Inr (), s', w')" "gens_inv s' w' gens'"
    "concat gens' = concat gens @ [bs]" "gens_bounded (fs_max_size s) gens'"
    "fs_interval s = Never \<and> gens_tight (fs_max_size s) gens \<longrightarrow> gens_tight (fs_max_size s) gens'"
    "gens_timed s w gens \<longrightarrow> gens_timed s' w' gens'"
    "fs_path s' = fs_path s" "fs_max_backups s' = fs_max_backups s" "fs_max_size s' = fs_max_size s"
    "fs_interval s' = fs_interval s"
proof -
  have n: "fs_size s = word_of_nat (length (concat (last gens)))" "gens \<noteq> []"
    using inv gens_inv_last [OF inv] by (simp_all add: gens_inv_def)
  note hit = size_hit_iff [OF n(1) small]
  obtain due w1 where due: "(if size_hit s bs then (True, w) else interval_elapsed s w) = (due, w1)"
    by (cases "if size_hit s bs then (True, w) else interval_elapsed s w")
  then have inv1: "gens_inv s w1 gens"
    using inv gens_inv_files [OF inv interval_elapsed_files [of w s]] by (auto split: if_splits)
  show thesis
  proof (cases due)
    case True
    obtain s1 w2 s' w' where go: "rotate_file s w1 = (Inr (), s1, w2)" "file_append bs s1 w2 = (Inr (), s', w')"
        "gens_inv s' w' (gens @ [[bs]])" "fs_path s' = fs_path s" "fs_max_backups s' = fs_max_backups s"
        "fs_max_size s' = fs_max_size s" "fs_interval s' = fs_interval s"
      by (rule rotate_append_gens [OF inv1])
    have "file_write_bytes bs s w = (Inr (), s', w')"
      using due True go(1,2) by (simp add: file_write_bytes_def)
    moreover have "gens_tight (fs_max_size s) (gens @ [[bs]])"
      if never: "fs_interval s = Never" "gens_tight (fs_max_size s) gens"
    proof -
      have "size_hit s bs" using due True never_due [OF never(1), of w] by (auto split: if_splits)
      then show ?thesis using never hit by (intro gens_tight_snoc) simp_all
    qed
    moreover have "gens_timed s' w' (gens @ [[bs]])" if "gens_timed s w gens"
    proof -
      have "(if size_hit s bs then (True, w) else interval_elapsed s w) = (True, w1)" using due True by simp
      from gens_timed_rotated [OF that go(1,2) this hit] show ?thesis .
    qed
    ultimately show thesis using that [of s' w' "gens @ [[bs]]"] go gens_bounded_snoc [OF bounded] by simp
  next
    case False
    obtain s' w' where app: "file_append bs s w1 = (Inr (), s', w')"
        "gens_inv s' w' (butlast gens @ [last gens @ [bs]])"
        "fs_path s' = fs_path s" "fs_max_backups s' = fs_max_backups s" "fs_max_size s' = fs_max_size s"
        "fs_interval s' = fs_interval s"
      using file_append_gens [OF inv1, of bs] by metis
    have "file_write_bytes bs s w = (Inr (), s', w')"
      using due False app(1) by (simp add: file_write_bytes_def)
    moreover have "gens_bounded (fs_max_size s) (butlast gens @ [last gens @ [bs]])"
      using gens_bounded_last [OF bounded n(2), of bs] hit due False by (auto split: if_splits)
    moreover have "concat (butlast gens @ [last gens @ [bs]]) = concat gens @ [bs]"
      using n(2) by (metis append_butlast_last_id append.assoc concat.simps concat_append append_Nil2)
    moreover have "gens_timed s' w' (butlast gens @ [last gens @ [bs]])" if "gens_timed s w gens"
      using gens_timed_appended [OF that n(2) app(1)] due interval_elapsed_clock [of s w due w1]
      by (auto split: if_splits)
    ultimately show thesis
      using that [of s' w' "butlast gens @ [last gens @ [bs]]"] app gens_tight_last [OF _ n(2)] by simp
  qed
qed

lemma file_write_bytes_clock:
  assumes "file_write_bytes bs s w = (Inr (), s', w')"
  shows "fs_clock s' = fs_clock s \<and> w_clock w' = w_clock w"
proof -
  obtain due w1 where due: "(if size_hit s bs then (True, w) else interval_elapsed s w) = (due, w1)"
    by (cases "if size_hit s bs then (True, w) else interval_elapsed s w")
  then have w1: "w_clock w1 = w_clock w" using interval_elapsed_clock by (auto split: if_splits)
  show ?thesis
  proof (cases due)
    case True
    obtain r s1 w2 where rot: "rotate_file s w1 = (r, s1, w2)" by (cases "rotate_file s w1")
    then have app: "r = Inr ()" "file_append bs s1 w2 = (Inr (), s', w')"
      using assms due True by (auto simp: file_write_bytes_def split: sum.splits)
    then show ?thesis using rotate_file_clock [OF rot [unfolded app(1)]] file_append_clock [OF app(2)] w1 by simp
  next
    case False
    then show ?thesis using assms due file_append_clock [of bs s w1] w1 by (simp add: file_write_bytes_def)
  qed
qed

text \<open>A sequence of records written to the sink, with the results of the calls.\<close>

fun file_writes :: "bytes list \<Rightarrow> file_sink \<Rightarrow> world \<Rightarrow> unit io_result list \<times> file_sink \<times> world" where
  "file_writes [] s w = ([], s, w)"
| "file_writes (bs # bss) s w =
     (case file_write_bytes bs s w of (r, s, w) \<Rightarrow>
        (case file_writes bss s w of (rs, s, w) \<Rightarrow> (r # rs, s, w)))"

lemma length_last_le: "gens \<noteq> [] \<Longrightarrow> length (concat (last gens)) \<le> length (concat (concat gens))"
  by (induction gens) auto

lemma file_writes_gens:
  assumes "gens_inv s w gens" "length (concat (concat gens @ bss)) < 2 ^ 64"
    "gens_bounded (fs_max_size s) gens"
  shows "\<exists>s' w' gens'. file_writes bss s w = (replicate (length bss) (Inr ()), s', w') \<and>
    gens_inv s' w' gens' \<and> concat gens' = concat gens @ bss \<and> gens_bounded (fs_max_size s) gens' \<and>
    (fs_interval s = Never \<and> gens_tight (fs_max_size s) gens \<longrightarrow> gens_tight (fs_max_size s) gens') \<and>
    fs_path s' = fs_path s \<and> fs_max_backups s' = fs_max_backups s"
  using assms
proof (induction bss arbitrary: s w gens)
  case (Cons bs bss)
  have "length (concat (last gens)) + length bs < 2 ^ 64"
    using Cons.prems(2) length_last_le [of gens] gens_inv_last(2) [OF Cons.prems(1)] by simp
  then obtain s1 w1 gens1 where step: "file_write_bytes bs s w = (Inr (), s1, w1)" "gens_inv s1 w1 gens1"
      "concat gens1 = concat gens @ [bs]" "gens_bounded (fs_max_size s) gens1"
      "fs_interval s = Never \<and> gens_tight (fs_max_size s) gens \<longrightarrow> gens_tight (fs_max_size s) gens1"
      "fs_path s1 = fs_path s" "fs_max_backups s1 = fs_max_backups s" "fs_max_size s1 = fs_max_size s"
      "fs_interval s1 = fs_interval s"
    using file_write_gens [OF Cons.prems(1) _ Cons.prems(3)] by metis
  have "length (concat (concat gens1 @ bss)) < 2 ^ 64" using Cons.prems(2) step(3) by simp
  from Cons.IH [OF step(2) this] step show ?case by auto
qed (auto intro: exI)

lemma interval_start_for_any:
  obtains st w' where "interval_start_for f i c w = (st, w')" "same_files w w'"
  using interval_start_for_files [of w f i c] by (cases "interval_start_for f i c w") auto

text \<open>A sink starts in the slot its file was last written in, or in that of the first reading.\<close>

definition mtime_read :: "fhandle \<Rightarrow> world \<Rightarrow> bool" where
  "mtime_read f w \<longleftrightarrow> (\<exists>k \<le> w_ticks w. w_mtime w (fd_inode f) = w_clock w k)"

definition start_read :: "file_sink \<Rightarrow> world \<Rightarrow> bool" where
  "start_read s w \<longleftrightarrow> (\<exists>k \<le> w_ticks w.
     fs_interval_start s = slot_start (fs_interval s) (clock_reading (fs_clock s) (w_clock w) k))"

lemma start_read_timed: "start_read s w \<Longrightarrow> gens_timed s w [g]"
  unfolding start_read_def using gens_timed_first by blast

lemma fs_metadata_mtime: "fs_metadata f w = (m, w') \<Longrightarrow> w_mtime w' = w_mtime w \<and> w_clock w' = w_clock w \<and>
    w_ticks w' = w_ticks w \<and> (case m of Inr (_, modified) \<Rightarrow> modified = w_mtime w (fd_inode f) | Inl _ \<Rightarrow> True)"
  by (auto simp: fs_metadata_def syscall_def split: option.splits)

lemma clock_now_mtime: "clock_now c w = (now, w') \<Longrightarrow> w_mtime w' = w_mtime w"
  by (cases c) (auto simp: clock_now_def system_now_def)

lemma interval_start_for_read:
  assumes run: "interval_start_for f iv c w = (st, w')" and read: "mtime_read f w"
  shows "mtime_read f w' \<and> (\<exists>k \<le> w_ticks w'. st = slot_start iv (clock_reading c (w_clock w') k))"
proof -
  obtain now w1 where now: "clock_now c w = (now, w1)" by (cases "clock_now c w")
  note w1 = clock_now_reading [OF now] clock_now_mtime [OF now]
  obtain m w2 where m: "fs_metadata f w1 = (m, w2)" by (cases "fs_metadata f w1")
  note w2 = fs_metadata_mtime [OF m]
  obtain k where k: "k \<le> w_ticks w" "w_mtime w (fd_inode f) = w_clock w k" using read by (auto simp: mtime_read_def)
  have same: "w' = w1 \<or> w' = w2"
    using run now m by (auto simp: interval_start_for_def split: option.splits clock.splits sum.splits)
  then have w': "w_clock w' = w_clock w" "w_ticks w \<le> w_ticks w'" "w_mtime w' = w_mtime w" using w1 w2 by auto
  have "st = slot_start iv (clock_reading c (w_clock w) (w_ticks w)) \<or> st = slot_start iv (clock_reading c (w_clock w) k)"
    using run now m w1 w2 k(2) slot_start_None_iff [of iv]
    by (auto simp: interval_start_for_def clock_reading_def split: option.splits clock.splits sum.splits)
  then show ?thesis unfolding mtime_read_def w'(1,3) using k w'(2) le_trans by blast
qed

lemma create_parent_calm:
  assumes "calm w"
  obtains w1 where "(case path_parent p of
     Some parent \<Rightarrow> if parent \<noteq> [] then fs_create_dir_all parent w else (Inr (), w) | None \<Rightarrow> (Inr (), w)) = (Inr (), w1)"
    "same_files w w1"
proof -
  have "\<exists>w1. (case path_parent p of
     Some parent \<Rightarrow> if parent \<noteq> [] then fs_create_dir_all parent w else (Inr (), w) | None \<Rightarrow> (Inr (), w)) = (Inr (), w1) \<and>
    same_files w w1"
    using assms by (auto simp: fs_create_dir_all_def syscall_calm same_files_def split: option.split)
  then show thesis using that by blast
qed

lemma create_parent_mtime:
  "(case path_parent p of
     Some parent \<Rightarrow> if parent \<noteq> [] then fs_create_dir_all parent w else (Inr (), w) | None \<Rightarrow> (Inr (), w)) = (r, w') \<Longrightarrow>
   w_mtime w' = w_mtime w \<and> w_clock w' = w_clock w \<and> w_ticks w' = w_ticks w"
  by (auto simp: fs_create_dir_all_def syscall_def split: option.splits if_splits)

lemma open_with_config:
  "open_with p ms mb iv c w = (Inr s, w') \<Longrightarrow>
     fs_path s = p \<and> fs_max_size s = ms \<and> fs_max_backups s = mb \<and> fs_interval s = iv"
  by (auto simp: open_with_def Let_def split: prod.splits sum.splits)

text \<open>A new file under the active name, and no backups.\<close>

lemma gens_inv_first:
  assumes "\<forall>k \<le> fs_max_backups s. w_dir w (gen_path (fs_path s) k) = None" "calm w'"
    "w_dir w' = (w_dir w)(fs_path s \<mapsto> i)" "w_data w' i = []" "i < w_next w'"
    "fd_inode (fs_file s) = i" "fd_append (fs_file s)" "fs_size s = 0"
  shows "gens_inv s w' [[]]"
proof -
  have names: "w_dir w' (gen_path (fs_path s) k) = (if k = 0 then Some i else None)" if "k \<le> fs_max_backups s" for k
    using assms(1,3) that by (auto simp: gen_path_def)
  then have "generation s w' k = (if k < length [[] :: bytes list]
      then Some (concat ([[]] ! (length [[] :: bytes list] - Suc k))) else None)" if "k \<le> fs_max_backups s" for k
    using assms(4) that by (simp add: generation_def)
  then show ?thesis
    using assms(2-8) names unfolding gens_inv_def by (intro conjI allI impI) (auto split: if_splits)
qed

lemma open_with_fresh:
  assumes calm: "calm w" and none: "\<forall>k \<le> mb. w_dir w (gen_path p k) = None"
  obtains s w' where "open_with p ms mb iv c w = (Inr s, w')" "gens_inv s w' [[]]"
    "fs_path s = p" "fs_max_size s = ms" "fs_max_backups s = mb" "fs_interval s = iv" "fs_clock s = c"
    "mtime_read (fs_file s) w'" "start_read s w'"
proof -
  obtain w1 where r: "(case path_parent p of
     Some parent \<Rightarrow> if parent \<noteq> [] then fs_create_dir_all parent w else (Inr (), w) | None \<Rightarrow> (Inr (), w)) = (Inr (), w1)"
    and same1: "same_files w w1" by (rule create_parent_calm [OF calm])
  have calm1: "calm w1" using same_files_calm [OF same1] calm by simp
  have "w_dir w p = None" using none by (auto simp: gen_path_def)
  then have none1: "w_dir w1 p = None" using same1 by (simp add: same_files_def)
  define f where "f = \<lparr>fd_inode = w_next w1, fd_append = True, fd_pos = 0\<rparr>"
  obtain w2 where op: "fs_open_append p w1 = (Inr f, w2)" "calm w2"
      "w_dir w2 = (w_dir w1)(p \<mapsto> w_next w1)" "w_data w2 = (w_data w1)(w_next w1 := [])"
      "w_next w2 = Suc (w_next w1)" "w_mtime w2 (w_next w1) = w_clock w2 (w_ticks w2)"
    unfolding f_def by (rule fs_open_append_calm [OF calm1 none1])
  define w3 where "w3 = snd (fs_metadata f w2)"
  have md: "fs_metadata f w2 = (Inr (0, w_mtime w2 (w_next w1)), w3)"
    using syscall_calm [OF op(2)] op(4) by (simp add: fs_metadata_def f_def w3_def)
  have same3: "same_files w2 w3" using fs_metadata_files [of w2 f] by (simp add: w3_def)
  obtain st w4 where start: "interval_start_for f iv c w3 = (st, w4)" "same_files w3 w4"
    by (rule interval_start_for_any)
  define s where "s = \<lparr>fs_path = p, fs_file = f, fs_max_size = ms, fs_max_backups = mb, fs_size = 0,
    fs_interval = iv, fs_interval_start = st, fs_clock = c\<rparr>"
  have opened: "open_with p ms mb iv c w = (Inr s, w4)"
    unfolding open_with_def r using op(1) md start(1) by (simp add: s_def)
  have "gens_inv s w2 [[]]"
    by (rule gens_inv_first [where w = w1 and i = "w_next w1"])
      (use none same1 op in \<open>simp_all add: s_def f_def same_files_def\<close>)
  then have inv: "gens_inv s w4 [[]]" using gens_inv_files same_files_trans [OF same3 start(2)] by blast
  have "mtime_read f w3" using fs_metadata_mtime [OF md] op(6) by (auto simp: mtime_read_def f_def)
  from interval_start_for_read [OF start(1) this] have "mtime_read f w4" "start_read s w4"
    by (simp_all add: start_read_def s_def)
  with inv show thesis by (intro that [OF opened]) (simp_all add: s_def)
qed

text \<open>Opened again, on the files an earlier sink left behind, a sink continues their history.\<close>

lemma open_with_reopen:
  assumes inv: "gens_inv s w gens"
  obtains s' w' where "open_with (fs_path s) ms (fs_max_backups s) iv c w = (Inr s', w')" "gens_inv s' w' gens"
    "fs_path s' = fs_path s" "fs_max_size s' = ms" "fs_max_backups s' = fs_max_backups s" "fs_interval s' = iv"
    "fs_clock s' = c" "mtime_read (fs_file s) w \<longrightarrow> start_read s' w'"
proof -
  let ?p = "fs_path s"
  have calm: "calm w" and dir: "w_dir w ?p = Some (fd_inode (fs_file s))"
    using inv by (simp_all add: gens_inv_def)
  define i where "i = fd_inode (fs_file s)"
  define f where "f = \<lparr>fd_inode = i, fd_append = True, fd_pos = 0\<rparr>"
  note made = create_parent_calm [OF calm, of ?p]
  obtain w1 where r: "(case path_parent ?p of
     Some parent \<Rightarrow> if parent \<noteq> [] then fs_create_dir_all parent w else (Inr (), w) | None \<Rightarrow> (Inr (), w)) = (Inr (), w1)"
    and same1: "same_files w w1" by (rule made)
  have calm1: "calm w1" and dir1: "w_dir w1 ?p = Some i"
    using same_files_calm [OF same1] calm dir same1 by (simp_all add: same_files_def i_def)
  define w2 where "w2 = snd (syscall w1)"
  have op: "fs_open_append ?p w1 = (Inr f, w2)" and same2: "same_files w1 w2"
    using syscall_calm [OF calm1] dir1
    by (simp_all add: fs_open_append_def fs_lookup_create_def f_def w2_def same_files_def)
  have calm2: "calm w2" using same_files_calm [OF same2] calm1 by simp
  define w3 where "w3 = snd (fs_metadata f w2)"
  have md: "fs_metadata f w2 = (Inr (length (w_data w2 i), w_mtime w2 i), w3)"
    using syscall_calm [OF calm2] by (simp add: fs_metadata_def f_def w3_def)
  have same3: "same_files w2 w3" using fs_metadata_files [of w2 f] by (simp add: w3_def)
  obtain st w4 where start: "interval_start_for f iv c w3 = (st, w4)" "same_files w3 w4"
    by (rule interval_start_for_any)
  have same: "same_files w w4"
    using same1 same2 same3 start(2) same_files_trans by blast
  define s' where "s' = \<lparr>fs_path = ?p, fs_file = f, fs_max_size = ms, fs_max_backups = fs_max_backups s,
    fs_size = word_of_nat (length (w_data w2 i)), fs_interval = iv, fs_interval_start = st, fs_clock = c\<rparr>"
  have opened: "open_with ?p ms (fs_max_backups s) iv c w = (Inr s', w4)"
    unfolding open_with_def r using op md start(1) by (simp add: s'_def)
  have "w_data w2 = w_data w" using same1 same2 by (simp add: same_files_def)
  then have "gens_inv s' w gens"
    using inv by (simp add: gens_inv_def s'_def f_def i_def generation_def)
  then have inv4: "gens_inv s' w4 gens" using gens_inv_files same by blast
  have "mtime_read f w3" if "mtime_read (fs_file s) w"
  proof -
    have "w_mtime w3 = w_mtime w" "w_clock w3 = w_clock w" "w_ticks w3 = w_ticks w"
      using fs_metadata_mtime [OF md] create_parent_mtime [OF r] by (simp_all add: w2_def syscall_def)
    then show ?thesis using that by (simp add: mtime_read_def f_def i_def)
  qed
  then have "mtime_read (fs_file s) w \<longrightarrow> start_read s' w4"
    using interval_start_for_read [OF start(1)] by (simp add: start_read_def s'_def)
  with inv4 show thesis by (intro that [OF opened]) (simp_all add: s'_def)
qed

text \<open>What the files hold: the last generations of a history.\<close>

definition holds_history :: "file_sink \<Rightarrow> world \<Rightarrow> nat \<Rightarrow> bytes list list \<Rightarrow> bool" where
  "holds_history s w mb gens \<longleftrightarrow> (\<forall>k \<le> mb. generation s w k =
     (if k < length gens then Some (concat (gens ! (length gens - Suc k))) else None))"

text \<open>Claim C6: a file sink opened on a new path, with any size limit, number of backups, interval
  and clock, and given any sequence of records while no call fails, accepts them all; the records are
  cut into generations in order, none lost, repeated or split, the active file and its backups are
  exactly the last \<open>max_backups + 1\<close> generations, no generation exceeds the size limit unless it is a
  single record, and without an interval a generation is begun only by a record that does not fit.\<close>

theorem file_sink_keeps_generations:
  assumes "calm w" "\<forall>k \<le> mb. w_dir w (gen_path p k) = None" "length (concat bss) < 2 ^ 64"
  shows "\<exists>s0 w0 s' w' gens. open_with p ms mb iv c w = (Inr s0, w0) \<and>
    file_writes bss s0 w0 = (replicate (length bss) (Inr ()), s', w') \<and>
    concat gens = bss \<and> holds_history s' w' mb gens \<and> gens_bounded ms gens \<and>
    (iv = Never \<longrightarrow> gens_tight ms gens)"
proof -
  obtain s0 w0 where op: "open_with p ms mb iv c w = (Inr s0, w0)" "gens_inv s0 w0 [[]]"
      "fs_path s0 = p" "fs_max_size s0 = ms" "fs_max_backups s0 = mb" "fs_interval s0 = iv"
    using open_with_fresh [OF assms(1,2)] by metis
  have "gens_bounded ms [[]]" "gens_tight ms [[]]" by (simp_all add: gens_bounded_def gens_tight_def)
  then obtain s' w' gens where wr: "file_writes bss s0 w0 = (replicate (length bss) (Inr ()), s', w')"
      "gens_inv s' w' gens" "concat gens = concat [[]] @ bss" "gens_bounded ms gens"
      "iv = Never \<longrightarrow> gens_tight ms gens" "fs_path s' = fs_path s0" "fs_max_backups s' = fs_max_backups s0"
    using file_writes_gens [OF op(2), of bss] op assms(3) by auto
  moreover have "holds_history s' w' mb gens"
    using wr(2,7) op(5) by (simp add: holds_history_def gens_inv_def)
  ultimately show ?thesis using op(1) by auto
qed

definition quiet_world :: world where
  "quiet_world = \<lparr>w_clock = (\<lambda>_. 0), w_ticks = 0, w_fault = (\<lambda>_. None), w_calls = 0, w_dir = (\<lambda>_. None),
     w_data = (\<lambda>_. []), w_mtime = (\<lambda>_. 0), w_next = 0, w_stdout = [], w_stderr = [], w_sent = []\<rparr>"

theorem file_sink_keeps_generations_witness:
  "\<exists>s0 w0 s' w' gens. open_with (lit ''a.log'') 8 2 Never System quiet_world = (Inr s0, w0) \<and>
    file_writes [[1, 2, 3, 4, 5], [6, 7], [8, 9]] s0 w0 = ([Inr (), Inr (), Inr ()], s', w') \<and>
    concat gens = [[1, 2, 3, 4, 5], [6, 7], [8, 9]] \<and> holds_history s' w' 2 gens \<and> gens_bounded 8 gens \<and>
    gens_tight 8 gens"
proof -
  have "calm quiet_world" "\<forall>k \<le> 2. w_dir quiet_world (gen_path (lit ''a.log'') k) = None"
    by (simp_all add: calm_def quiet_world_def)
  then show ?thesis
    using file_sink_keeps_generations [of quiet_world 2 "lit ''a.log''" "[[1, 2, 3, 4, 5], [6, 7], [8, 9]]" 8 Never System]
    by (simp add: numeral_3_eq_3)
qed

text \<open>Runs of a program one after the other: each opens a sink on the same path and writes its
  records; a run whose sink cannot be opened gives the error.\<close>

fun file_sessions ::
  "path \<Rightarrow> u64 \<Rightarrow> nat \<Rightarrow> (rotation_interval \<times> clock \<times> bytes list) list \<Rightarrow> world \<Rightarrow> unit io_result list \<times> world" where
  "file_sessions p ms mb [] w = ([], w)"
| "file_sessions p ms mb ((iv, c, bss) # runs) w =
     (case open_with p ms mb iv c w of
        (Inl e, w) \<Rightarrow> (case file_sessions p ms mb runs w of (rs, w) \<Rightarrow> (Inl e # rs, w))
      | (Inr s, w) \<Rightarrow>
          (case file_writes bss s w of (rs, s, w) \<Rightarrow>
             (case file_sessions p ms mb runs w of (rs', w) \<Rightarrow> (rs @ rs', w))))"

definition session_records :: "(rotation_interval \<times> clock \<times> bytes list) list \<Rightarrow> bytes list" where
  "session_records runs = concat (map (\<lambda>(iv, c, bss). bss) runs)"

definition files_hold :: "path \<Rightarrow> nat \<Rightarrow> world \<Rightarrow> bytes list list \<Rightarrow> bool" where
  "files_hold p mb w gens \<longleftrightarrow> (\<forall>k \<le> mb. map_option (w_data w) (w_dir w (gen_path p k)) =
     (if k < length gens then Some (concat (gens ! (length gens - Suc k))) else None))"

lemma gens_inv_files_hold: "gens_inv s w gens \<Longrightarrow> files_hold (fs_path s) (fs_max_backups s) w gens"
  by (simp add: gens_inv_def files_hold_def generation_def)

lemma file_sessions_gens:
  assumes "gens_inv s w gens" "gens_bounded ms gens" "length (concat (concat gens @ session_records runs)) < 2 ^ 64"
  shows "\<exists>w' gens'. file_sessions (fs_path s) ms (fs_max_backups s) runs w =
      (replicate (length (session_records runs)) (Inr ()), w') \<and>
    concat gens' = concat gens @ session_records runs \<and> files_hold (fs_path s) (fs_max_backups s) w' gens' \<and>
    gens_bounded ms gens'"
  using assms
proof (induction runs arbitrary: s w gens)
  case Nil
  then show ?case by (auto simp: session_records_def dest: gens_inv_files_hold)
next
  case (Cons run runs)
  obtain iv c bss where run: "run = (iv, c, bss)" by (cases run)
  have recs: "session_records (run # runs) = bss @ session_records runs" by (simp add: session_records_def run)
  obtain s1 w1 where 1: "open_with (fs_path s) ms (fs_max_backups s) iv c w = (Inr s1, w1)" "gens_inv s1 w1 gens"
      "fs_path s1 = fs_path s" "fs_max_size s1 = ms" "fs_max_backups s1 = fs_max_backups s"
    using open_with_reopen [OF Cons.prems(1)] by metis
  have len: "length (concat (concat gens @ bss)) < 2 ^ 64" using Cons.prems(3) by (simp add: recs)
  obtain s2 w2 gens2 where 2: "file_writes bss s1 w1 = (replicate (length bss) (Inr ()), s2, w2)" "gens_inv s2 w2 gens2"
      "concat gens2 = concat gens @ bss" "gens_bounded ms gens2" "fs_path s2 = fs_path s1"
      "fs_max_backups s2 = fs_max_backups s1"
    using file_writes_gens [OF 1(2) len] Cons.prems(2) 1(4) by metis
  have "length (concat (concat gens2 @ session_records runs)) < 2 ^ 64"
    using Cons.prems(3) by (simp add: recs 2(3))
  from Cons.IH [OF 2(2,4) this] 1 2 show ?case
    by (auto simp: run recs [unfolded run] replicate_add)
qed

text \<open>Claim C8: the program can be restarted any number of times. Each run opens a sink on the same
  path, with the same size limit and number of backups, any interval and any clock, and writes its
  records; as long as no call fails every record is accepted, and in the end the files are the last
  generations of the records of all runs together, whole and in order, within the size limit.\<close>

theorem restarts_continue_history:
  assumes "calm w" "\<forall>k \<le> mb. w_dir w (gen_path p k) = None" "runs \<noteq> []"
    "length (concat (session_records runs)) < 2 ^ 64"
  shows "\<exists>w' gens. file_sessions p ms mb runs w = (replicate (length (session_records runs)) (Inr ()), w') \<and>
    concat gens = session_records runs \<and> files_hold p mb w' gens \<and> gens_bounded ms gens"
proof -
  obtain iv c bss runs' where runs: "runs = (iv, c, bss) # runs'" using assms(3) by (cases runs) auto
  have recs: "session_records runs = bss @ session_records runs'" by (simp add: session_records_def runs)
  obtain s0 w0 where op: "open_with p ms mb iv c w = (Inr s0, w0)" "gens_inv s0 w0 [[]]"
      "fs_path s0 = p" "fs_max_size s0 = ms" "fs_max_backups s0 = mb"
    using open_with_fresh [OF assms(1,2)] by metis
  have "length (concat (concat [[]] @ bss)) < 2 ^ 64" "gens_bounded (fs_max_size s0) [[]]"
    using assms(4) by (simp_all add: recs gens_bounded_def)
  from file_writes_gens [OF op(2) this]
  obtain s1 w1 gens1 where wr: "file_writes bss s0 w0 = (replicate (length bss) (Inr ()), s1, w1)"
      "gens_inv s1 w1 gens1" "concat gens1 = bss" "gens_bounded ms gens1" "fs_path s1 = p" "fs_max_backups s1 = mb"
    using op by auto
  have "length (concat (concat gens1 @ session_records runs')) < 2 ^ 64"
    using assms(4) by (simp add: recs wr(3))
  from file_sessions_gens [OF wr(2,4) this] wr op(1) show ?thesis
    by (auto simp: runs recs [unfolded runs] replicate_add)
qed

theorem restarts_continue_history_witness:
  "\<exists>w' gens. file_sessions (lit ''a.log'') 4 2 [(Never, System, [[1, 2, 3], [4]]), (Daily, System, [[5, 6]])] quiet_world =
      ([Inr (), Inr (), Inr ()], w') \<and>
    concat gens = [[1, 2, 3], [4], [5, 6]] \<and> files_hold (lit ''a.log'') 2 w' gens \<and> gens_bounded 4 gens"
proof -
  have "calm quiet_world" "\<forall>k \<le> 2. w_dir quiet_world (gen_path (lit ''a.log'') k) = None"
    by (simp_all add: calm_def quiet_world_def)
  then show ?thesis
    using restarts_continue_history [of quiet_world 2 "lit ''a.log''"
        "[(Never, System, [[1, 2, 3], [4]]), (Daily, System, [[5, 6]])]" 4]
    by (simp add: session_records_def numeral_3_eq_3 del: lit_simps file_sessions.simps)
qed

subsection \<open>When the active file is gone\<close>

lemma fs_rename_other:
  "q \<noteq> a \<Longrightarrow> q \<noteq> b \<Longrightarrow> w_dir (snd (fs_rename a b w)) q = w_dir w q"
  "w_data (snd (fs_rename a b w)) = w_data w"
  by (simp_all add: fs_rename_def syscall_def split: option.split)

lemma fs_remove_other:
  "q \<noteq> a \<Longrightarrow> w_dir (snd (fs_remove_file a w)) q = w_dir w q"
  "w_data (snd (fs_remove_file a w)) = w_data w"
  by (simp_all add: fs_remove_file_def syscall_def split: option.split)

lemma shift_loop_other:
  "w_dir (shift_loop p n w) p = w_dir w p" "w_data (shift_loop p n w) = w_data w"
  by (induction p n w rule: shift_loop.induct) (simp_all add: fs_rename_other)

lemma shift_backups_lost:
  assumes "w_dir w (fs_path s) = None"
  obtains e w' where "shift_backups s w = (Inl e, w')" "w_dir w' (fs_path s) = None" "w_data w' = w_data w"
proof -
  let ?w = "shift_loop (fs_path s) (fs_max_backups s - 1)
    (snd (fs_remove_file (backup_path (fs_path s) (fs_max_backups s)) w))"
  have "w_dir ?w (fs_path s) = None" "w_data ?w = w_data w"
    using assms by (simp_all add: shift_loop_other fs_remove_other)
  then have "\<exists>e w'. fs_rename (fs_path s) (backup_path (fs_path s) 1) ?w = (Inl e, w') \<and>
      w_dir w' (fs_path s) = None \<and> w_data w' = w_data w"
    by (simp add: fs_rename_def syscall_def split: option.split)
  then show thesis using that by (auto simp: shift_backups_def Let_def)
qed

lemma write_lost:
  assumes gone: "w_dir w (fs_path s) = None" and mb: "0 < fs_max_backups s" and hit: "size_hit s bs"
  obtains e w' where "file_write_bytes bs s w = (Inl e, s, w')" "w_dir w' (fs_path s) = None"
    "w_data w' = w_data w"
proof -
  let ?w1 = "snd (fs_sync_all (fs_file s) w)"
  have "w_dir ?w1 (fs_path s) = None" "w_data ?w1 = w_data w"
    using gone fs_sync_all_files [of w "fs_file s"] by (simp_all add: same_files_def)
  then obtain e w' where "shift_backups s ?w1 = (Inl e, w')" "w_dir w' (fs_path s) = None" "w_data w' = w_data w"
    using shift_backups_lost by metis
  then show thesis
    using that mb hit by (simp add: file_write_bytes_def rotate_file_def fs_flush_def Let_def)
qed

lemma writes_lost:
  assumes "w_dir w (fs_path s) = None" "0 < fs_max_backups s" "list_all (size_hit s) bss"
  shows "\<exists>rs w'. file_writes bss s w = (rs, s, w') \<and> length rs = length bss \<and> list_all (\<lambda>r. \<not> is_ok r) rs \<and>
    w_dir w' (fs_path s) = None \<and> w_data w' = w_data w"
  using assms
proof (induction bss arbitrary: w)
  case (Cons bs bss)
  obtain e w1 where w1: "file_write_bytes bs s w = (Inl e, s, w1)" "w_dir w1 (fs_path s) = None"
      "w_data w1 = w_data w"
    using write_lost [OF Cons.prems(1,2), of bs] Cons.prems(3) by auto
  from Cons.IH [OF w1(2)] Cons.prems w1 show ?case by auto
qed simp

text \<open>In a calm world every such attempt still shifts the backups.\<close>

lemma write_lost_shifts:
  assumes calm: "calm w" and gone: "w_dir w (fs_path s) = None" and mb: "0 < fs_max_backups s"
    and hit: "size_hit s bs" and wr: "file_write_bytes bs s w = (r, s', w')"
  shows "calm w' \<and> generation s w' 1 = None \<and>
    (\<forall>k. 1 \<le> k \<and> k < fs_max_backups s \<longrightarrow> generation s w' (Suc k) = generation s w k)"
proof -
  define p n where "p = fs_path s" and "n = fs_max_backups s - 1"
  have mb_n: "fs_max_backups s = Suc n" using mb by (simp add: n_def)
  define w1 where "w1 = snd (fs_sync_all (fs_file s) w)"
  have w1: "w_dir w1 = w_dir w" "w_data w1 = w_data w" "calm w1"
    using calm fs_sync_all_files [of w "fs_file s"] by (simp_all add: w1_def same_files_def calm_def)
  define w2 where "w2 = snd (fs_remove_file (backup_path p (Suc n)) w1)"
  have w2: "w_dir w2 = (w_dir w)(backup_path p (Suc n) := None)" "w_data w2 = w_data w" "calm w2"
    using w1 by (simp_all add: w2_def fs_remove_calm)
  define w3 where "w3 = shift_loop p n w2"
  have none: "w_dir w2 (backup_path p (Suc n)) = None" by (simp add: w2)
  note loop = shift_loop_dir [OF w2(3) none, folded w3_def] shift_loop_calm [OF w2(3), of p n, folded w3_def]
  have gone3: "w_dir w3 p = None" using gone by (simp add: w3_def shift_loop_other w2 p_def)
  define w4 where "w4 = snd (fs_rename p (backup_path p 1) w3)"
  have ren: "fs_rename p (backup_path p 1) w3 = (Inl NotFound, w4)"
    using fs_rename_calm(2) [of w3 p "backup_path p 1"] loop(2) gone3
    by (cases "fs_rename p (backup_path p 1) w3") (simp add: w4_def)
  have w4: "w_dir w4 = w_dir w3" "w_data w4 = w_data w" "calm w4"
    using fs_rename_calm [of w3 p "backup_path p 1"] loop(2) gone3 w2(2) by (simp_all add: w4_def)
  have "shift_backups s w1 = (Inl NotFound, w4)"
    using ren by (simp add: shift_backups_def Let_def mb_n p_def [symmetric] w2_def [symmetric] w3_def [symmetric])
  then have "w' = w4"
    using wr mb hit by (simp add: file_write_bytes_def rotate_file_def fs_flush_def Let_def w1_def [symmetric])
  moreover have "w_dir w3 (backup_path p (Suc k)) = w_dir w (backup_path p k)" if "1 \<le> k" "k < Suc n" for k
  proof -
    have "w_dir w3 (backup_path p (Suc k)) = w_dir w2 (backup_path p k)" using loop(1) that by simp
    then show ?thesis using that by (simp add: w2)
  qed
  moreover have "w_dir w3 (backup_path p 1) = None" using loop(1) by blast
  ultimately show ?thesis
    using w4 mb_n by (simp add: generation_def gen_path_def p_def [symmetric])
qed

lemma writes_lost_shift:
  assumes "calm w" "w_dir w (fs_path s) = None" "0 < fs_max_backups s" "list_all (size_hit s) bss"
    "file_writes bss s w = (rs, s', w')" "\<forall>k. 1 \<le> k \<and> k \<le> j \<and> k \<le> fs_max_backups s \<longrightarrow> generation s w k = None"
  shows "\<forall>k. 1 \<le> k \<and> k \<le> j + length bss \<and> k \<le> fs_max_backups s \<longrightarrow> generation s w' k = None"
  using assms
proof (induction bss arbitrary: w j rs)
  case (Cons bs bss)
  have "size_hit s bs" using Cons.prems(4) by simp
  then obtain e w1 where w1: "file_write_bytes bs s w = (Inl e, s, w1)" "w_dir w1 (fs_path s) = None"
    using write_lost [OF Cons.prems(2,3)] by metis
  obtain rs' where rest: "file_writes bss s w1 = (rs', s', w')"
    using Cons.prems(5) w1(1) by (auto split: prod.splits)
  have shift: "calm w1" "generation s w1 1 = None"
      "\<forall>k. 1 \<le> k \<and> k < fs_max_backups s \<longrightarrow> generation s w1 (Suc k) = generation s w k"
    using write_lost_shifts [OF Cons.prems(1,2,3) _ w1(1)] Cons.prems(4) by simp_all
  have "\<forall>k. 1 \<le> k \<and> k \<le> Suc j \<and> k \<le> fs_max_backups s \<longrightarrow> generation s w1 k = None"
  proof (intro allI impI)
    fix k assume k: "1 \<le> k \<and> k \<le> Suc j \<and> k \<le> fs_max_backups s"
    show "generation s w1 k = None"
    proof (cases "k = 1")
      case False
      then obtain m where "k = Suc m" "1 \<le> m" using k by (cases k) auto
      then show ?thesis using shift(3) Cons.prems(6) k by auto
    next
      case True
      then show ?thesis using shift(2) by (simp only:)
    qed
  qed
  from Cons.IH [OF shift(1) w1(2) Cons.prems(3) _ rest this] Cons.prems(4) show ?case by simp
qed simp

text \<open>Once the active file is missing under its name (as after a rotation that renamed it
  and could not open the new one), every record that would rotate is refused, whatever calls fail or
  succeed, and nothing is written: the sink never recovers.\<close>

theorem missing_active_file_is_permanent:
  assumes "w_dir w (fs_path s) = None" "0 < fs_max_backups s" "list_all (size_hit s) bss"
  shows "\<exists>rs w'. file_writes bss s w = (rs, s, w') \<and> length rs = length bss \<and>
    list_all (\<lambda>r. \<not> is_ok r) rs \<and> w_dir w' (fs_path s) = None \<and> w_data w' = w_data w"
  using assms by (rule writes_lost)

text \<open>A sink with one backup and a limit of 4 bytes that is full, and a world in which only the
  \<open>n\<close>-th call from now fails.\<close>

definition full_sink :: file_sink where
  "full_sink = \<lparr>fs_path = lit ''a'', fs_file = \<lparr>fd_inode = 0, fd_append = True, fd_pos = 0\<rparr>, fs_max_size = 4,
     fs_max_backups = 1, fs_size = 4, fs_interval = Never, fs_interval_start = None, fs_clock = System\<rparr>"

definition glitch_world :: "nat \<Rightarrow> world" where
  "glitch_world n = quiet_world\<lparr>w_fault := (\<lambda>k. if k = n then Some 0 else None), w_next := 1,
     w_dir := (\<lambda>_. None)(lit ''a'' \<mapsto> 0), w_data := (\<lambda>_. [])(0 := [1, 2, 3, 4])\<rparr>"

theorem missing_active_file_is_permanent_witness:
  "(case file_write_bytes [5] full_sink (glitch_world 3) of (r, s, w) \<Rightarrow>
      \<not> is_ok r \<and> (\<exists>rs w'. file_writes [[6], [7]] s w = (rs, s, w') \<and> length rs = 2 \<and>
        list_all (\<lambda>r. \<not> is_ok r) rs \<and> w_dir w' (fs_path s) = None \<and> w_data w' = w_data w))"
proof -
  have hit: "size_hit full_sink [x]" for x
    by (simp add: size_hit_def full_sink_def saturating_add_def word_less_nat_alt)
  obtain w where w: "file_write_bytes [5] full_sink (glitch_world 3) = (Inl OtherError, full_sink, w)"
      "w_dir w (fs_path full_sink) = None"
    using hit [of 5]
    by (simp add: file_write_bytes_def rotate_file_def fs_flush_def fs_sync_all_def shift_backups_def
        fs_remove_file_def fs_rename_def fs_open_append_def syscall_def glitch_world_def quiet_world_def
        full_sink_def backup_path_def Let_def)
  have "list_all (size_hit full_sink) [[6], [7]]" using hit by simp
  moreover have "0 < fs_max_backups full_sink" by (simp add: full_sink_def)
  ultimately have "\<exists>rs w'. file_writes [[6], [7]] full_sink w = (rs, full_sink, w') \<and>
      length rs = length [[6], [7 :: u8]] \<and> list_all (\<lambda>r. \<not> is_ok r) rs \<and>
      w_dir w' (fs_path full_sink) = None \<and> w_data w' = w_data w"
    using missing_active_file_is_permanent [OF w(2)] by blast
  then show ?thesis unfolding w(1) prod.case by (simp del: file_writes.simps add: numeral_2_eq_2)
qed

text \<open>Claim C37: although such writes fail, each of them deletes the oldest backup and moves the others
  up one slot; after as many attempts as there are backup slots, all backups are gone.\<close>

theorem failing_rotations_delete_backups:
  assumes "calm w" "w_dir w (fs_path s) = None" "0 < fs_max_backups s" "list_all (size_hit s) bss"
    "fs_max_backups s \<le> length bss"
  shows "\<exists>rs w'. file_writes bss s w = (rs, s, w') \<and> (\<forall>k \<le> fs_max_backups s. generation s w' k = None)"
proof -
  obtain rs w' where wr: "file_writes bss s w = (rs, s, w')" "w_dir w' (fs_path s) = None"
    using writes_lost [OF assms(2,3,4)] by blast
  have "\<forall>k. 1 \<le> k \<and> k \<le> 0 + length bss \<and> k \<le> fs_max_backups s \<longrightarrow> generation s w' k = None"
    using writes_lost_shift [OF assms(1-4) wr(1), of 0] by simp
  moreover have "generation s w' 0 = None" using wr(2) by (simp add: generation_def gen_path_def)
  ultimately have "generation s w' k = None" if "k \<le> fs_max_backups s" for k
    using that assms(5) by (cases k) auto
  with wr(1) show ?thesis by blast
qed

theorem failing_rotations_delete_backups_witness:
  "\<exists>rs w'. file_writes [[6], [7]] full_sink (quiet_world\<lparr>w_dir := (\<lambda>_. None)(lit ''a.1'' \<mapsto> 0)\<rparr>) =
     (rs, full_sink, w') \<and> (\<forall>k \<le> 1. generation full_sink w' k = None)"
proof -
  let ?w = "quiet_world\<lparr>w_dir := (\<lambda>_. None)(lit ''a.1'' \<mapsto> 0)\<rparr>"
  have hit: "list_all (size_hit full_sink) [[6], [7]]"
    by (simp add: size_hit_def full_sink_def saturating_add_def word_less_nat_alt)
  have "calm ?w" "w_dir ?w (fs_path full_sink) = None" by (simp_all add: calm_def quiet_world_def full_sink_def)
  moreover have "0 < fs_max_backups full_sink" "fs_max_backups full_sink \<le> length [[6], [7 :: u8]]"
    by (simp_all add: full_sink_def)
  ultimately have "\<exists>rs w'. file_writes [[6], [7]] full_sink ?w = (rs, full_sink, w') \<and>
      (\<forall>k \<le> fs_max_backups full_sink. generation full_sink w' k = None)"
    using failing_rotations_delete_backups [OF _ _ _ hit, of ?w] by blast
  moreover have "fs_max_backups full_sink = 1" by (simp add: full_sink_def)
  ultimately show ?thesis by (simp only:)
qed

end
