(* ===== verification/Xos_Syslog.thy ===== *)
theory Xos_Syslog
  imports Xos_Sink
begin

section \<open>Syslog (\<open>src/syslog.rs\<close>)\<close>

text \<open>
  RFC 3164 packets and the two sinks that send them: over a local datagram socket with reconnection,
  and over UDP. A connected socket is the name of its peer. The host name file, the environment and
  \<open>argv\<close> are arguments.
\<close>

definition DEFAULT_SYSLOG_SOCKETS :: "path list" where
  "DEFAULT_SYSLOG_SOCKETS = [lit ''/dev/log'', lit ''/var/run/syslog'', lit ''/var/run/log'']"

definition MAX_SYSLOG_PACKET :: nat where "MAX_SYSLOG_PACKET = 1024"

definition SEVERITY_DEBUG :: u8 where "SEVERITY_DEBUG = 7"
definition SEVERITY_INFO :: u8 where "SEVERITY_INFO = 6"
definition SEVERITY_WARNING :: u8 where "SEVERITY_WARNING = 4"
definition SEVERITY_ERROR :: u8 where "SEVERITY_ERROR = 3"

lemmas severity_defs = SEVERITY_DEBUG_def SEVERITY_INFO_def SEVERITY_WARNING_def SEVERITY_ERROR_def

datatype facility =
    Kernel | User | Mail | Daemon | Auth | Syslog | Lpr | News | Uucp | Cron | AuthPriv | Ftp
  | Local0 | Local1 | Local2 | Local3 | Local4 | Local5 | Local6 | Local7

definition facility_code :: "facility \<Rightarrow> u8" where
  "facility_code f = (case f of
     Kernel \<Rightarrow> 0 | User \<Rightarrow> 1 | Mail \<Rightarrow> 2 | Daemon \<Rightarrow> 3 | Auth \<Rightarrow> 4 | Syslog \<Rightarrow> 5 | Lpr \<Rightarrow> 6 | News \<Rightarrow> 7
   | Uucp \<Rightarrow> 8 | Cron \<Rightarrow> 9 | AuthPriv \<Rightarrow> 10 | Ftp \<Rightarrow> 11 | Local0 \<Rightarrow> 16 | Local1 \<Rightarrow> 17 | Local2 \<Rightarrow> 18
   | Local3 \<Rightarrow> 19 | Local4 \<Rightarrow> 20 | Local5 \<Rightarrow> 21 | Local6 \<Rightarrow> 22 | Local7 \<Rightarrow> 23)"

definition level_to_severity :: "level \<Rightarrow> u8" where
  "level_to_severity l = (case l of
     Trace \<Rightarrow> SEVERITY_DEBUG | Debug \<Rightarrow> SEVERITY_DEBUG | Info \<Rightarrow> SEVERITY_INFO
   | Warn \<Rightarrow> SEVERITY_WARNING | Error \<Rightarrow> SEVERITY_ERROR | Off \<Rightarrow> SEVERITY_DEBUG)"

subsection \<open>Packets\<close>

definition MONTHS :: "rstr list" where
  "MONTHS = [lit ''Jan'', lit ''Feb'', lit ''Mar'', lit ''Apr'', lit ''May'', lit ''Jun'',
     lit ''Jul'', lit ''Aug'', lit ''Sep'', lit ''Oct'', lit ''Nov'', lit ''Dec'']"

definition rfc3164_timestamp :: "timestamp \<Rightarrow> rstr" where
  "rfc3164_timestamp ts =
     (let i = nat (ts_month ts - 1);
          month = (if i < length MONTHS then MONTHS ! i else lit ''Jan'')
      in month @ lit '' '' @ pad_space 2 (fmt_int (ts_day ts)) @ lit '' '' @ fmt_int0 2 (ts_hour ts) @
         lit '':'' @ fmt_int0 2 (ts_minute ts) @ lit '':'' @ fmt_int0 2 (ts_second ts))"

definition packet_header :: "facility \<Rightarrow> level \<Rightarrow> timestamp \<Rightarrow> rstr \<Rightarrow> rstr \<Rightarrow> u32 \<Rightarrow> rstr" where
  "packet_header f l ts hostname ident pid =
     (let pri = facility_code f * 8 + level_to_severity l
      in lit ''<'' @ fmt_nat (unat pri) @ lit ''>'' @ rfc3164_timestamp ts @ lit '' '' @ hostname @
         lit '' '' @ ident @ lit ''['' @ fmt_nat (unat pid) @ lit '']: '')"

definition build_packet ::
  "facility \<Rightarrow> level \<Rightarrow> timestamp \<Rightarrow> rstr \<Rightarrow> rstr \<Rightarrow> u32 \<Rightarrow> bytes \<Rightarrow> bytes" where
  "build_packet f l ts hostname ident pid formatted =
     (let header = packet_header f l ts hostname ident pid;
          msg = (if formatted \<noteq> [] \<and> last formatted = 10 then take (length formatted - 1) formatted
                 else formatted);
          budget = MAX_SYSLOG_PACKET - str_len header;
          msg = take (min (length msg) budget) msg;
          out = header @ from_utf8_lossy msg
      in utf8 out)"

definition ident_char :: "rchar \<Rightarrow> bool" where
  "ident_char c \<longleftrightarrow> is_ascii_alphanumeric c \<or> c = 95 \<or> c = 45 \<or> c = 46"

definition sanitize_ident :: "rstr \<Rightarrow> rstr" where
  "sanitize_ident ident =
     (if ident = [] then lit ''xoslog''
      else map (\<lambda>c. if ident_char c then c else 95) ident)"

text \<open>\<open>etc\<close>: the contents of \<open>/etc/hostname\<close> when readable; \<open>env\<close>: the variable \<open>HOSTNAME\<close>.\<close>

definition read_hostname :: "rstr option \<Rightarrow> rstr option \<Rightarrow> rstr" where
  "read_hostname etc env =
     (let fallback = (case env of Some host \<Rightarrow> if host \<noteq> [] then host else lit ''localhost''
                      | None \<Rightarrow> lit ''localhost'')
      in case etc of
           Some content \<Rightarrow> (let host = trim content in if host \<noteq> [] then host else fallback)
         | None \<Rightarrow> fallback)"

text \<open>\<open>Path::file_name\<close>: the last component unless it is \<open>.\<close> or \<open>..\<close>.\<close>

definition path_file_name :: "path \<Rightarrow> rstr option" where
  "path_file_name p =
     (let cs = path_components p in
      if cs = [] \<or> last cs = lit ''.'' \<or> last cs = lit ''..'' then None else Some (last cs))"

definition default_ident :: "rstr list \<Rightarrow> rstr" where
  "default_ident args =
     (case args of
        [] \<Rightarrow> lit ''xoslog''
      | arg # _ \<Rightarrow> (case path_file_name arg of
            Some name \<Rightarrow> if name \<noteq> [] then name else lit ''xoslog''
          | None \<Rightarrow> lit ''xoslog''))"

subsection \<open>The local sink\<close>

record syslog_sink =
  sl_paths :: "path list"
  sl_facility :: facility
  sl_ident :: rstr
  sl_hostname :: rstr
  sl_pid :: u32
  sl_socket :: "path option"

record process_env =
  pe_etc_hostname :: "rstr option"
  pe_env_hostname :: "rstr option"
  pe_args :: "rstr list"
  pe_pid :: u32

definition syslog_new :: "process_env \<Rightarrow> path list \<Rightarrow> facility \<Rightarrow> rstr \<Rightarrow> syslog_sink" where
  "syslog_new pe paths f ident =
     \<lparr>sl_paths = paths, sl_facility = f, sl_ident = sanitize_ident ident,
      sl_hostname = read_hostname (pe_etc_hostname pe) (pe_env_hostname pe), sl_pid = pe_pid pe,
      sl_socket = None\<rparr>"

definition syslog_local :: "process_env \<Rightarrow> facility \<Rightarrow> rstr \<Rightarrow> syslog_sink" where
  "syslog_local pe f ident = syslog_new pe DEFAULT_SYSLOG_SOCKETS f ident"

fun reconnect_loop :: "path list \<Rightarrow> world \<Rightarrow> path option \<times> world" where
  "reconnect_loop [] w = (None, w)"
| "reconnect_loop (p # ps) w =
     (case sock_create w of
        (False, w) \<Rightarrow> reconnect_loop ps w
      | (True, w) \<Rightarrow> (case sock_connect p w of
            (True, w) \<Rightarrow> (Some p, w)
          | (False, w) \<Rightarrow> reconnect_loop ps w))"

definition reconnect :: "syslog_sink \<Rightarrow> world \<Rightarrow> unit io_result \<times> syslog_sink \<times> world" where
  "reconnect s w =
     (case reconnect_loop (sl_paths s) w of
        (Some p, w) \<Rightarrow> (Inr (), s\<lparr>sl_socket := Some p\<rparr>, w)
      | (None, w) \<Rightarrow> (Inl ConnectionRefused, s\<lparr>sl_socket := None\<rparr>, w))"

definition syslog_build_packet :: "syslog_sink \<Rightarrow> level \<Rightarrow> timestamp \<Rightarrow> bytes \<Rightarrow> bytes" where
  "syslog_build_packet s l ts formatted =
     build_packet (sl_facility s) l ts (sl_hostname s) (sl_ident s) (sl_pid s) formatted"

definition deliver_connected ::
  "level \<Rightarrow> timestamp \<Rightarrow> bytes \<Rightarrow> syslog_sink \<Rightarrow> world \<Rightarrow> unit io_result \<times> syslog_sink \<times> world" where
  "deliver_connected l ts formatted s w =
     (let packet = syslog_build_packet s l ts formatted in
      case sl_socket s of
        Some sock \<Rightarrow>
          (case sock_send sock packet w of
             (Inr _, w) \<Rightarrow> (Inr (), s, w)
           | (Inl first, w) \<Rightarrow>
               (case reconnect s w of
                  (Inr _, s, w) \<Rightarrow>
                    (case sl_socket s of
                       Some sock \<Rightarrow> (case sock_send sock packet w of (r, w) \<Rightarrow> (r, s, w))
                     | None \<Rightarrow> (Inl first, s, w))
                | (Inl _, s, w) \<Rightarrow> (Inl first, s, w)))
      | None \<Rightarrow> (Inl ConnectionRefused, s, w))"

definition syslog_deliver ::
  "level \<Rightarrow> timestamp \<Rightarrow> bytes \<Rightarrow> syslog_sink \<Rightarrow> world \<Rightarrow> unit io_result \<times> syslog_sink \<times> world" where
  "syslog_deliver l ts formatted s w =
     (case (if sl_socket s = None then reconnect s w else (Inr (), s, w)) of
        (Inl e, s, w) \<Rightarrow> (Inl e, s, w)
      | (Inr _, s, w) \<Rightarrow> deliver_connected l ts formatted s w)"

definition syslog_write_bytes ::
  "bytes \<Rightarrow> syslog_sink \<Rightarrow> world \<Rightarrow> unit io_result \<times> syslog_sink \<times> world" where
  "syslog_write_bytes bs s w =
     (case system_now w of (now, w) \<Rightarrow> syslog_deliver Info (timestamp_now now 0) bs s w)"

definition syslog_write_entry ::
  "log_entry \<Rightarrow> bytes \<Rightarrow> syslog_sink \<Rightarrow> world \<Rightarrow> unit io_result \<times> syslog_sink \<times> world" where
  "syslog_write_entry e formatted s w = syslog_deliver (le_level e) (le_timestamp e) formatted s w"

definition syslog_flush :: "syslog_sink \<Rightarrow> world \<Rightarrow> unit io_result \<times> world" where
  "syslog_flush s w = (Inr (), w)"

subsection \<open>The remote sink\<close>

record remote_sink =
  rs_socket :: path
  rs_facility :: facility
  rs_ident :: rstr
  rs_hostname :: rstr
  rs_pid :: u32

definition remote_new ::
  "process_env \<Rightarrow> path \<Rightarrow> facility \<Rightarrow> rstr \<Rightarrow> world \<Rightarrow> remote_sink io_result \<times> world" where
  "remote_new pe addr f ident w =
     (case sock_create w of
        (False, w) \<Rightarrow> (Inl OtherError, w)
      | (True, w) \<Rightarrow>
          (case sock_connect addr w of
             (False, w) \<Rightarrow> (Inl OtherError, w)
           | (True, w) \<Rightarrow>
               (Inr \<lparr>rs_socket = addr, rs_facility = f, rs_ident = sanitize_ident ident,
                     rs_hostname = read_hostname (pe_etc_hostname pe) (pe_env_hostname pe),
                     rs_pid = pe_pid pe\<rparr>, w)))"

definition remote_deliver ::
  "level \<Rightarrow> timestamp \<Rightarrow> bytes \<Rightarrow> remote_sink \<Rightarrow> world \<Rightarrow> unit io_result \<times> world" where
  "remote_deliver l ts formatted s w =
     (let packet = build_packet (rs_facility s) l ts (rs_hostname s) (rs_ident s) (rs_pid s) formatted
      in sock_send (rs_socket s) packet w)"

definition remote_write_bytes :: "bytes \<Rightarrow> remote_sink \<Rightarrow> world \<Rightarrow> unit io_result \<times> world" where
  "remote_write_bytes bs s w =
     (case system_now w of (now, w) \<Rightarrow> remote_deliver Info (timestamp_now now 0) bs s w)"

definition remote_write_entry :: "log_entry \<Rightarrow> bytes \<Rightarrow> remote_sink \<Rightarrow> world \<Rightarrow> unit io_result \<times> world" where
  "remote_write_entry e formatted s w = remote_deliver (le_level e) (le_timestamp e) formatted s w"

definition remote_flush :: "remote_sink \<Rightarrow> world \<Rightarrow> unit io_result \<times> world" where
  "remote_flush s w = (Inr (), w)"

subsection \<open>Reading a packet\<close>

text \<open>The specification of the packet: a reader of RFC 3164 datagrams.\<close>

record syslog_packet =
  pk_pri :: nat
  pk_month :: int
  pk_day :: int
  pk_time :: "int \<times> int \<times> int"
  pk_host :: rstr
  pk_tag :: rstr
  pk_pid :: nat
  pk_msg :: rstr

fun index_of :: "'a \<Rightarrow> 'a list \<Rightarrow> nat" where
  "index_of x [] = 0"
| "index_of x (y # ys) = (if x = y then 0 else Suc (index_of x ys))"

definition read_time :: "rstr \<Rightarrow> (int \<times> int \<times> int \<times> int \<times> int) \<times> rstr" where
  "read_time s =
     (let mo = int (index_of (take 3 s) MONTHS) + 1; s = drop 4 s;
          d = int (dec_val (dropWhile (\<lambda>c. c = 32) (take 2 s))); s = drop 3 s;
          (h, s) = read_field 2 s; (mi, s) = read_field 2 (tl s); (se, s) = read_field 2 (tl s)
      in ((mo, d, h, mi, se), s))"

definition upto_char :: "rchar \<Rightarrow> rstr \<Rightarrow> rstr \<times> rstr" where
  "upto_char c s = (takeWhile (\<lambda>x. x \<noteq> c) s, tl (dropWhile (\<lambda>x. x \<noteq> c) s))"

definition read_packet :: "rstr \<Rightarrow> syslog_packet" where
  "read_packet s =
     (let (pri, s) = upto_char 62 (tl s); ((mo, d, t), s) = read_time s;
          (host, s) = upto_char 32 (tl s); (tag, s) = upto_char 91 s; (pid, s) = upto_char 93 s
      in \<lparr>pk_pri = dec_val pri, pk_month = mo, pk_day = d, pk_time = t, pk_host = host, pk_tag = tag,
          pk_pid = dec_val pid, pk_msg = drop 2 s\<rparr>)"

lemma upto_char_append: "c \<notin> set a \<Longrightarrow> upto_char c (a @ c # r) = (a, r)"
  unfolding upto_char_def by (subst takeWhile_append_not; (subst dropWhile_append_not)?) auto

lemma fmt_nat_no: "\<not> is_digit c \<Longrightarrow> c \<notin> set (fmt_nat n)"
  using fmt_nat_digits by blast

lemma month_index: "1 \<le> m \<Longrightarrow> m \<le> 12 \<Longrightarrow>
    length (MONTHS ! nat (m - 1)) = 3 \<and> index_of (MONTHS ! nat (m - 1)) MONTHS = nat (m - 1)"
proof -
  have "\<forall>i < 12. length (MONTHS ! i) = 3 \<and> index_of (MONTHS ! i) MONTHS = i"
    by (simp add: MONTHS_def All_less_Suc numeral_eq_Suc)
  moreover assume "1 \<le> m" "m \<le> 12"
  then have "nat (m - 1) < 12" by simp
  ultimately show ?thesis by blast
qed

lemma day_field: "0 \<le> d \<Longrightarrow> d < 100 \<Longrightarrow> length (pad_space 2 (fmt_int d)) = 2 \<and>
    dec_val (dropWhile (\<lambda>c. c = 32) (pad_space 2 (fmt_int d))) = nat d"
proof -
  assume d: "0 \<le> d" "d < 100"
  then have "length (fmt_nat (nat d)) \<le> 2" by (intro length_fmt_nat) (simp_all add: nat_less_iff)
  moreover have "dropWhile (\<lambda>c. c = 32) (fmt_nat (nat d)) = fmt_nat (nat d)"
  proof (cases "fmt_nat (nat d)")
    case (Cons c cs)
    then have "is_digit c" using fmt_nat_digits [of c "nat d"] by simp
    with Cons show ?thesis by (auto simp: is_digit_def)
  qed simp
  moreover have "dropWhile (\<lambda>c. c = 32) (replicate k 32 @ xs) = dropWhile (\<lambda>c. c = 32) xs"
    for k and xs :: rstr
    by (induction k) simp_all
  ultimately show ?thesis using d by (simp add: pad_space_def fmt_int_def)
qed

lemma read_time_rfc3164:
  assumes "valid_timestamp ts"
  shows "read_time (rfc3164_timestamp ts @ s) =
    ((ts_month ts, ts_day ts, ts_hour ts, ts_minute ts, ts_second ts), s)"
proof -
  have m: "1 \<le> ts_month ts" "ts_month ts \<le> 12" and d: "0 \<le> ts_day ts" "ts_day ts < 100"
    and t: "0 \<le> ts_hour ts" "ts_hour ts < 10 ^ 2" "0 \<le> ts_minute ts" "ts_minute ts < 10 ^ 2"
      "0 \<le> ts_second ts" "ts_second ts < 10 ^ 2"
    using assms by (auto simp: valid_timestamp_def valid_date_def days_in_month_def split: if_splits)
  let ?mo = "MONTHS ! nat (ts_month ts - 1)" and ?d = "pad_space 2 (fmt_int (ts_day ts))"
  have "length MONTHS = 12" by (simp add: MONTHS_def)
  moreover have "nat (ts_month ts - 1) < 12" using m by simp
  ultimately have shape: "rfc3164_timestamp ts = ?mo @ 32 # ?d @ 32 # fmt_int0 2 (ts_hour ts) @ 58 #
      fmt_int0 2 (ts_minute ts) @ 58 # fmt_int0 2 (ts_second ts)"
    by (simp add: rfc3164_timestamp_def Let_def)
  note mo = month_index [OF m] and day = day_field [OF d]
  have "take 3 (rfc3164_timestamp ts @ s) = ?mo" using mo by (simp add: shape)
  moreover have "drop 4 (rfc3164_timestamp ts @ s) = ?d @ 32 # fmt_int0 2 (ts_hour ts) @ 58 #
      fmt_int0 2 (ts_minute ts) @ 58 # fmt_int0 2 (ts_second ts) @ s" using mo by (simp add: shape)
  ultimately show ?thesis
    using mo day m d t by (simp add: read_time_def Let_def read_field_fmt)
qed

lemma pri_value:
  "unat (facility_code f * 8 + level_to_severity l) = unat (facility_code f) * 8 + unat (level_to_severity l)"
  "unat (level_to_severity l) < 8" "unat (facility_code f) \<le> 23"
proof -
  show sev: "unat (level_to_severity l) < 8" by (cases l) (simp_all add: level_to_severity_def severity_defs)
  show code: "unat (facility_code f) \<le> 23" by (cases f) (simp_all add: facility_code_def)
  have 8: "unat (facility_code f * 8) = unat (facility_code f) * 8"
    by (cases f) (simp_all add: facility_code_def)
  have "unat (facility_code f * 8) + unat (level_to_severity l) < 2 ^ LENGTH(8)"
    using sev code by (simp add: 8)
  then show "unat (facility_code f * 8 + level_to_severity l) =
      unat (facility_code f) * 8 + unat (level_to_severity l)"
    using 8 by (subst unat_plus_simple [THEN iffD1]) (simp_all add: no_olen_add_nat)
qed

lemma facility_code_inject [simp]: "facility_code f = facility_code g \<longleftrightarrow> f = g"
proof -
  have "unat (facility_code f) = unat (facility_code g) \<Longrightarrow> f = g"
    by (cases f; cases g) (simp_all add: facility_code_def)
  then show ?thesis by metis
qed

lemma sanitize_ident_chars: "c \<in> set (sanitize_ident ident) \<Longrightarrow> ident_char c"
  by (auto simp: sanitize_ident_def ident_char_def is_ascii_alphanumeric_def split: if_splits)

lemma sanitize_ident_valid: "valid_str (sanitize_ident ident)"
  using sanitize_ident_chars
  by (fastforce simp: valid_str_def ident_char_def is_ascii_alphanumeric_def scalar_def)

lemma header_valid: "valid_str hostname \<Longrightarrow> valid_str ident \<Longrightarrow> valid_str (packet_header f l ts hostname ident pid)"
proof -
  have nat: "valid_str (fmt_nat n)" for n
    using fmt_nat_digits [of _ n] by (fastforce simp: valid_str_def is_digit_def scalar_def)
  have pad: "valid_str (pad_zero w s)" "valid_str (pad_space w s)" if "valid_str s" for w s
    using that by (auto simp: valid_str_def pad_zero_def pad_space_def)
  have int: "valid_str (fmt_int i)" "valid_str (fmt_int0 w i)" for w i
    by (simp_all add: fmt_int_def fmt_int0_def nat pad)
  have "list_all valid_str MONTHS" by (simp add: MONTHS_def)
  then have mo: "i < length MONTHS \<Longrightarrow> valid_str (MONTHS ! i)" for i by (simp add: list_all_length)
  assume "valid_str hostname" "valid_str ident"
  then show ?thesis by (simp add: packet_header_def rfc3164_timestamp_def Let_def nat int pad mo)
qed

text \<open>The text of a packet for a record whose bytes are well-formed UTF-8 and end in a newline.\<close>

lemma build_packet_record:
  "build_packet f l ts h i pid (utf8 msg @ [10]) =
     utf8 (packet_header f l ts h i pid @ from_utf8_lossy
       (take (MAX_SYSLOG_PACKET - str_len (packet_header f l ts h i pid)) (utf8 msg)))"
  by (simp add: build_packet_def Let_def min_def)

lemma build_packet_fits:
  assumes "str_len (packet_header f l ts h i pid) + str_len msg \<le> MAX_SYSLOG_PACKET" "valid_str msg"
  shows "build_packet f l ts h i pid (utf8 msg @ [10]) = utf8 (packet_header f l ts h i pid @ msg)"
proof -
  have "take (MAX_SYSLOG_PACKET - str_len (packet_header f l ts h i pid)) (utf8 msg) = utf8 msg"
    using assms(1) by (simp add: str_len_def)
  then show ?thesis using assms(2) by (simp add: build_packet_record)
qed

lemma header_read:
  assumes ts: "valid_timestamp ts" and host: "32 \<notin> set host" and ident: "list_all ident_char ident"
  shows "read_packet (packet_header f l ts host ident pid @ msg) =
    \<lparr>pk_pri = unat (facility_code f) * 8 + unat (level_to_severity l), pk_month = ts_month ts, pk_day = ts_day ts,
     pk_time = (ts_hour ts, ts_minute ts, ts_second ts), pk_host = host, pk_tag = ident, pk_pid = unat pid,
     pk_msg = msg\<rparr>"
proof -
  have no: "62 \<notin> set (fmt_nat n)" "93 \<notin> set (fmt_nat n)" for n
    by (simp_all add: fmt_nat_no is_digit_def)
  have tag: "91 \<notin> set ident"
    using ident by (auto simp: list_all_iff ident_char_def is_ascii_alphanumeric_def)
  show ?thesis
    by (simp add: read_packet_def packet_header_def Let_def upto_char_append no tag host
        read_time_rfc3164 [OF ts] pri_value(1))
qed

lemma sanitize_ident_all: "list_all ident_char (sanitize_ident ident)"
  by (simp add: list_all_iff sanitize_ident_chars)

lemma build_packet_cut:
  assumes "valid_str h" "valid_str i" "valid_str msg"
  shows "\<exists>j tail. build_packet f l ts h i pid (utf8 msg @ [10]) = utf8 (packet_header f l ts h i pid @ take j msg @ tail) \<and>
    (tail = [] \<or> tail = [replacement]) \<and>
    length (build_packet f l ts h i pid (utf8 msg @ [10])) \<le> max MAX_SYSLOG_PACKET (str_len (packet_header f l ts h i pid)) + 2"
proof -
  let ?H = "packet_header f l ts h i pid"
  define n where "n = MAX_SYSLOG_PACKET - str_len ?H"
  have eq: "build_packet f l ts h i pid (utf8 msg @ [10]) = utf8 (?H @ from_utf8_lossy (take n (utf8 msg)))"
    by (simp add: build_packet_record n_def)
  have "length (utf8 (?H @ from_utf8_lossy (take n (utf8 msg)))) =
      str_len ?H + str_len (from_utf8_lossy (take n (utf8 msg)))"
    by (simp add: str_len_def)
  also have "\<dots> \<le> str_len ?H + (n + 2)" using lossy_cut_length [OF assms(3), of n] by simp
  also have "\<dots> \<le> max MAX_SYSLOG_PACKET (str_len ?H) + 2" by (simp add: n_def)
  finally have len: "length (build_packet f l ts h i pid (utf8 msg @ [10])) \<le> max MAX_SYSLOG_PACKET (str_len ?H) + 2"
    by (simp add: eq)
  from assms(3) show ?thesis
  proof (cases rule: lossy_cut [of msg n])
    case (boundary j)
    then have "build_packet f l ts h i pid (utf8 msg @ [10]) = utf8 (?H @ take j msg @ [])" by (simp add: eq)
    with len show ?thesis by blast
  next
    case (inside j)
    then have "build_packet f l ts h i pid (utf8 msg @ [10]) = utf8 (?H @ take j msg @ [replacement])"
      by (simp only: eq)
    with len show ?thesis by blast
  qed
qed

text \<open>A euro sign cut after its first byte becomes three bytes again.\<close>

lemma cut_euro: "from_utf8_lossy (take (Suc n) (utf8 (replicate n 97 @ [0x20AC]))) = replicate n 97 @ [replacement]"
proof -
  have a: "utf8 (replicate n 97) = replicate n (of_nat 97)" by (simp add: utf8_ascii)
  have "take (Suc n) (utf8 (replicate n 97 @ [0x20AC])) = utf8 (replicate n 97) @ take 1 (utf8_char 0x20AC)"
    by (simp add: a)
  moreover have "valid_str (replicate n 97)" by (simp add: valid_str_def)
  moreover have "from_utf8_lossy (take 1 (utf8_char 0x20AC)) = [replacement]"
    by (rule lossy_cut_char) (simp_all add: scalar_def utf8_char_def)
  ultimately show ?thesis by (simp add: from_utf8_lossy_append)
qed

lemma oversize_packet:
  assumes "str_len (packet_header f l ts h i pid) < MAX_SYSLOG_PACKET"
  defines "msg \<equiv> replicate (1023 - str_len (packet_header f l ts h i pid)) 97 @ [0x20AC]"
  shows "length (build_packet f l ts h i pid (utf8 msg @ [10])) = 1026"
proof -
  define n where "n = 1023 - str_len (packet_header f l ts h i pid)"
  have n: "MAX_SYSLOG_PACKET - str_len (packet_header f l ts h i pid) = Suc n"
    "str_len (packet_header f l ts h i pid) + n = 1023"
    using assms(1) by (simp_all add: n_def MAX_SYSLOG_PACKET_def)
  have "str_len (replicate n 97) = n" by (simp add: str_len_ascii)
  then show ?thesis
    using n(2) unfolding build_packet_record n(1) msg_def n_def [symmetric] cut_euro
    by (simp add: str_len_def [symmetric] del: utf8_simps)
qed

subsection \<open>Properties\<close>

text \<open>The priority of a packet never overflows its byte, stays within 0 to 191, and the
  facility and the severity can be read back from it.\<close>

theorem priority_decodes:
  "unat (facility_code f * 8 + level_to_severity l) div 8 = unat (facility_code f) \<and>
   unat (facility_code f * 8 + level_to_severity l) mod 8 = unat (level_to_severity l) \<and>
   unat (facility_code f * 8 + level_to_severity l) \<le> 191 \<and>
   (facility_code f * 8 + level_to_severity l = facility_code g * 8 + level_to_severity k \<longleftrightarrow>
     f = g \<and> level_to_severity l = level_to_severity k)"
proof -
  let ?p = "\<lambda>f l. unat (facility_code f * 8 + level_to_severity l)"
  have dec: "?p f l div 8 = unat (facility_code f) \<and> ?p f l mod 8 = unat (level_to_severity l) \<and> ?p f l \<le> 191"
    for f l using pri_value(1) [of f l] pri_value(2) [of l] pri_value(3) [of f] by simp
  moreover have "f = g \<and> level_to_severity l = level_to_severity k" if "?p f l = ?p g k"
  proof -
    have "unat (facility_code f) = unat (facility_code g)"
      "unat (level_to_severity l) = unat (level_to_severity k)"
      using that dec [of f l] dec [of g k] by simp_all
    then have "facility_code f = facility_code g" "level_to_severity l = level_to_severity k"
      by (simp_all only: unsigned_word_eqI)
    then show ?thesis by (simp only: facility_code_inject)
  qed
  ultimately show ?thesis by metis
qed

text \<open>Claim C27: a record that fits travels intact: the datagram, read as RFC 3164 by the receiver,
  gives back the priority, the date and time, the host, the (sanitised) tag, the process id and the
  message, without the record's final newline.\<close>

theorem packet_roundtrip:
  assumes "valid_timestamp ts" "valid_str host" "32 \<notin> set host" "valid_str msg"
    "str_len (packet_header f l ts host (sanitize_ident ident) pid) + str_len msg \<le> MAX_SYSLOG_PACKET"
  shows "read_packet (from_utf8_lossy (build_packet f l ts host (sanitize_ident ident) pid (utf8 msg @ [10]))) =
    \<lparr>pk_pri = unat (facility_code f) * 8 + unat (level_to_severity l), pk_month = ts_month ts, pk_day = ts_day ts,
     pk_time = (ts_hour ts, ts_minute ts, ts_second ts), pk_host = host, pk_tag = sanitize_ident ident,
     pk_pid = unat pid, pk_msg = msg\<rparr>"
proof -
  have "valid_str (packet_header f l ts host (sanitize_ident ident) pid @ msg)"
    using assms(2,4) header_valid sanitize_ident_valid by simp
  then show ?thesis
    by (simp only: build_packet_fits [OF assms(5,4)] from_utf8_lossy_utf8
        header_read [OF assms(1,3) sanitize_ident_all])
qed

definition example_time :: timestamp where
  "example_time = \<lparr>ts_year = 2026, ts_month = 8, ts_day = 3, ts_hour = 4, ts_minute = 5, ts_second = 6,
     ts_microsecond = 0, ts_offset_seconds = 0\<rparr>"

lemma example_header:
  "packet_header Daemon Error example_time (lit ''host'') (sanitize_ident (lit ''a b'')) 42 =
    lit ''<27>Aug  3 04:05:06 host a_b[42]: ''"
  by (simp add: packet_header_def rfc3164_timestamp_def example_time_def MONTHS_def sanitize_ident_def
      ident_char_def is_ascii_alphanumeric_def facility_code_def level_to_severity_def severity_defs
      pad_space_def fmt_int_def fmt_int0_def pad_zero_def fmt_nat_small fmt_nat_big)

theorem packet_roundtrip_witness:
  "pk_msg (read_packet (from_utf8_lossy (build_packet Daemon Error example_time (lit ''host'')
      (sanitize_ident (lit ''a b'')) 42 (utf8 (lit ''disk full'') @ [10])))) = lit ''disk full''"
proof -
  have "valid_timestamp example_time"
    by (simp add: valid_timestamp_def valid_date_def days_in_month_def example_time_def)
  moreover have "str_len (packet_header Daemon Error example_time (lit ''host'') (sanitize_ident (lit ''a b'')) 42)
      + str_len (lit ''disk full'') \<le> MAX_SYSLOG_PACKET"
    unfolding example_header by (simp add: str_len_ascii MAX_SYSLOG_PACKET_def)
  ultimately show ?thesis
    using packet_roundtrip [of example_time "lit ''host''" "lit ''disk full''" Daemon Error "lit ''a b''" 42]
    by simp
qed

text \<open>Claim C38: a packet is its header followed by whole characters of the message, then at most one
  replacement character; it never exceeds 1026 bytes when the header leaves room, but it can exceed
  the 1024 bytes of a legacy datagram: for every such header some message makes it 1026 bytes long,
  because a character cut by the limit is replaced by a three-byte one.\<close>

theorem packet_size_limit:
  assumes "valid_str host" "valid_str ident" "str_len (packet_header f l ts host ident pid) < MAX_SYSLOG_PACKET"
    "valid_str msg"
  shows "(\<exists>j tail. build_packet f l ts host ident pid (utf8 msg @ [10]) =
        utf8 (packet_header f l ts host ident pid @ take j msg @ tail) \<and> (tail = [] \<or> tail = [replacement])) \<and>
    length (build_packet f l ts host ident pid (utf8 msg @ [10])) \<le> 1026 \<and>
    (\<exists>m. valid_str m \<and> length (build_packet f l ts host ident pid (utf8 m @ [10])) = 1026)"
proof -
  have "valid_str (replicate n 97 @ [0x20AC])" for n by (simp add: valid_str_def scalar_def)
  then have "\<exists>m. valid_str m \<and> length (build_packet f l ts host ident pid (utf8 m @ [10])) = 1026"
    using oversize_packet [OF assms(3)] by blast
  moreover have "max MAX_SYSLOG_PACKET (str_len (packet_header f l ts host ident pid)) + 2 = 1026"
    using assms(3) by (simp add: MAX_SYSLOG_PACKET_def)
  ultimately show ?thesis
    using build_packet_cut [OF assms(1,2,4), of f l ts pid] by auto
qed

theorem packet_size_limit_witness:
  "\<exists>m. valid_str m \<and> length (build_packet Daemon Error example_time (lit ''host'')
      (sanitize_ident (lit ''a b'')) 42 (utf8 m @ [10])) = 1026"
proof -
  have "str_len (packet_header Daemon Error example_time (lit ''host'') (sanitize_ident (lit ''a b'')) 42)
      < MAX_SYSLOG_PACKET"
    unfolding example_header by (simp add: str_len_ascii MAX_SYSLOG_PACKET_def)
  from packet_size_limit [OF _ sanitize_ident_valid this, of "[]"] show ?thesis by simp
qed

text \<open>A program identity is made safe for the tag: the result is never empty, consists of
  ASCII letters, digits, underscores, hyphens and dots, keeps its length and every safe character, and
  sanitising again changes nothing.\<close>

theorem sanitize_ident_safe:
  "sanitize_ident ident \<noteq> [] \<and> list_all ident_char (sanitize_ident ident) \<and>
   sanitize_ident (sanitize_ident ident) = sanitize_ident ident \<and>
   (if ident = [] then sanitize_ident ident = lit ''xoslog''
    else list_all2 (\<lambda>c d. if ident_char c then d = c else d = 95) ident (sanitize_ident ident))"
proof -
  have "ident_char 95" by (simp add: ident_char_def)
  moreover have "list_all ident_char (lit ''xoslog'')" by (simp add: ident_char_def is_ascii_alphanumeric_def)
  moreover have "list_all2 (\<lambda>c d. if ident_char c then d = c else d = 95) ident
      (map (\<lambda>c. if ident_char c then c else 95) ident)"
    by (simp add: list_all2_conv_all_nth)
  ultimately show ?thesis
    by (auto simp: sanitize_ident_def list_all_iff ident_char_def is_ascii_alphanumeric_def intro!: map_idI)
qed

subsection \<open>Delivery\<close>

text \<open>Everything outside the datagrams and the call counter is as before.\<close>

definition only_sends :: "world \<Rightarrow> world \<Rightarrow> bool" where
  "only_sends w w' \<longleftrightarrow> w' = w\<lparr>w_calls := w_calls w', w_sent := w_sent w'\<rparr>"

lemma only_sends_refl [simp]: "only_sends w w"
  by (simp add: only_sends_def)

lemma only_sends_trans: "only_sends w w' \<Longrightarrow> only_sends w' w'' \<Longrightarrow> only_sends w w''"
  unfolding only_sends_def by (metis (no_types, lifting) world.surjective world.update_convs(4) world.update_convs(11))

lemma only_sends_call:
  "only_sends w (snd (syscall w))" "w_sent (snd (syscall w)) = w_sent w"
  "w_calls (snd (syscall w)) = Suc (w_calls w)" "fst (syscall w) = w_fault w (w_calls w)"
  by (simp_all add: syscall_def only_sends_def)

lemma sock_create_call: "sock_create w = (fst (syscall w) = None, snd (syscall w))"
  by (simp add: sock_create_def split: prod.split option.split)

lemma sock_connect_call: "sock_connect p w = (fst (syscall w) = None, snd (syscall w))"
  by (simp add: sock_connect_def split: prod.split option.split)

lemma sock_send_call:
  "sock_send p bs w = (if fst (syscall w) = None
     then (Inr (), (snd (syscall w))\<lparr>w_sent := w_sent w @ [(p, bs)]\<rparr>) else (Inl OtherError, snd (syscall w)))"
  by (simp add: sock_send_def syscall_def split: option.split)

lemma reconnect_loop_Cons:
  "reconnect_loop (p # ps) w =
     (let w1 = snd (syscall w); w2 = snd (syscall w1) in
      if fst (syscall w) \<noteq> None then reconnect_loop ps w1
      else if fst (syscall w1) \<noteq> None then reconnect_loop ps w2
      else (Some p, w2))"
  by (cases "fst (syscall w)"; cases "fst (syscall (snd (syscall w)))")
    (simp_all add: sock_create_call sock_connect_call)

lemma only_sends_call_trans:
  "only_sends (snd (syscall w)) w' \<Longrightarrow> only_sends w w'"
  using only_sends_call(1) only_sends_trans by blast

lemma reconnect_loop_effect:
  "reconnect_loop ps w = (r, w') \<Longrightarrow> only_sends w w' \<and> w_sent w' = w_sent w \<and>
     (case r of Some p \<Rightarrow> p \<in> set ps | None \<Rightarrow> True)"
proof (induction ps arbitrary: w)
  case (Cons p ps)
  let ?w1 = "snd (syscall w)" and ?w2 = "snd (syscall (snd (syscall w)))"
  consider (a) "reconnect_loop ps ?w1 = (r, w')" | (b) "reconnect_loop ps ?w2 = (r, w')"
    | (c) "r = Some p" "w' = ?w2"
    using Cons.prems unfolding reconnect_loop_Cons Let_def
    by (cases "fst (syscall w)"; cases "fst (syscall (snd (syscall w)))") simp_all
  then show ?case
  proof cases
    case a
    from Cons.IH [OF this] show ?thesis
      by (cases r) (simp_all add: only_sends_call only_sends_call_trans)
  next
    case b
    from Cons.IH [OF this] show ?thesis
      by (cases r) (simp_all add: only_sends_call only_sends_call_trans)
  next
    case c
    then show ?thesis using only_sends_call(1) [of ?w1] by (simp add: only_sends_call only_sends_call_trans)
  qed
qed simp

lemma reconnect_effect:
  assumes "reconnect s w = (r, s', w')"
  shows "only_sends w w' \<and> w_sent w' = w_sent w \<and> s' = s\<lparr>sl_socket := sl_socket s'\<rparr> \<and>
    (if is_ok r then \<exists>p \<in> set (sl_paths s). sl_socket s' = Some p else sl_socket s' = None)"
  using assms reconnect_loop_effect [of "sl_paths s" w]
  by (cases "reconnect_loop (sl_paths s) w") (auto simp: reconnect_def split: option.splits)

lemma only_sends_sent: "only_sends w w' \<Longrightarrow> only_sends w (w'\<lparr>w_sent := x\<rparr>)"
  by (cases w; cases w') (simp add: only_sends_def)

definition delivered ::
  "syslog_sink \<Rightarrow> world \<Rightarrow> bytes \<Rightarrow> unit io_result \<Rightarrow> syslog_sink \<Rightarrow> world \<Rightarrow> bool" where
  "delivered s w packet r s' w' \<longleftrightarrow>
     only_sends w w' \<and> s' = s\<lparr>sl_socket := sl_socket s'\<rparr> \<and>
     (if is_ok r then \<exists>dest. sl_socket s' = Some dest \<and> (sl_socket s = Some dest \<or> dest \<in> set (sl_paths s)) \<and>
        w_sent w' = w_sent w @ [(dest, packet)]
      else w_sent w' = w_sent w)"

lemma deliver_connected_effect:
  assumes "deliver_connected l ts bs s w = (r, s', w')"
  shows "delivered s w (syslog_build_packet s l ts bs) r s' w'"
proof (cases "sl_socket s")
  case None
  then show ?thesis using assms by (auto simp: deliver_connected_def Let_def delivered_def)
next
  case (Some q)
  let ?p = "syslog_build_packet s l ts bs" and ?w1 = "snd (syscall w)"
  have 1: "only_sends w ?w1" "w_sent ?w1 = w_sent w" by (rule only_sends_call)+
  show ?thesis
  proof (cases "fst (syscall w)")
    case None
    then show ?thesis
      using assms Some 1 by (auto simp: deliver_connected_def Let_def sock_send_call delivered_def only_sends_sent)
  next
    case fault: (Some k)
    obtain r1 s1 w2 where rec: "reconnect s ?w1 = (r1, s1, w2)" by (cases "reconnect s ?w1")
    note eff = reconnect_effect [OF rec]
    then have 2: "only_sends w w2" "w_sent w2 = w_sent w" "s1 = s\<lparr>sl_socket := sl_socket s1\<rparr>"
      using only_sends_trans [OF 1(1)] 1(2) by auto
    show ?thesis
    proof (cases r1)
      case (Inl e)
      then show ?thesis
        using assms Some fault rec 2 by (auto simp: deliver_connected_def Let_def sock_send_call delivered_def)
    next
      case (Inr u)
      then obtain d where d: "d \<in> set (sl_paths s)" "sl_socket s1 = Some d" using eff by auto
      have 3: "only_sends w (snd (syscall w2))" "w_sent (snd (syscall w2)) = w_sent w"
        using only_sends_trans [OF 2(1) only_sends_call(1)] only_sends_call(2) 2(2) by auto
      have "(r, s', w') = (case sock_send d ?p w2 of (r, w) \<Rightarrow> (r, s1, w))"
        using assms Some fault rec Inr d by (simp add: deliver_connected_def Let_def sock_send_call)
      then show ?thesis
        using d 2(2,3) 3 by (auto simp: sock_send_call delivered_def only_sends_sent split: if_splits)
    qed
  qed
qed

lemma build_packet_socket [simp]:
  "syslog_build_packet (s\<lparr>sl_socket := x\<rparr>) l ts bs = syslog_build_packet s l ts bs"
  by (simp add: syslog_build_packet_def)

lemma syslog_deliver_effect:
  assumes "syslog_deliver l ts bs s w = (r, s', w')"
  shows "delivered s w (syslog_build_packet s l ts bs) r s' w'"
proof (cases "sl_socket s")
  case (Some q)
  then have "deliver_connected l ts bs s w = (r, s', w')" using assms by (simp add: syslog_deliver_def)
  then show ?thesis by (rule deliver_connected_effect)
next
  case None
  obtain r1 s1 w1 where rec: "reconnect s w = (r1, s1, w1)" by (cases "reconnect s w")
  note eff = reconnect_effect [OF rec]
  show ?thesis
  proof (cases r1)
    case (Inl e)
    then have "r = Inl e" "s' = s1" "w' = w1" using assms None rec by (simp_all add: syslog_deliver_def)
    then show ?thesis using eff by (simp add: delivered_def)
  next
    case (Inr u)
    then have "deliver_connected l ts bs s1 w1 = (r, s', w')" using assms None rec by (simp add: syslog_deliver_def)
    note d = deliver_connected_effect [OF this]
    have s1: "s1 = s\<lparr>sl_socket := sl_socket s1\<rparr>" using eff by simp
    have "syslog_build_packet s1 l ts bs = syslog_build_packet s l ts bs" by (subst s1) simp
    moreover have "sl_paths s1 = sl_paths s" by (subst s1) simp
    moreover have "s' = s1\<lparr>sl_socket := sl_socket s'\<rparr>" using d by (simp add: delivered_def)
    then have "s' = s\<lparr>sl_socket := sl_socket s'\<rparr>" by (subst (asm) s1) simp
    ultimately show ?thesis
      using d eff Inr only_sends_trans by (auto simp: delivered_def)
  qed
qed

text \<open>Claim C18: whatever calls fail, delivering a record to the local daemon either reports success
  and has sent exactly one datagram, the record's packet, to the connected socket (the previous one or
  one of the configured paths), or reports an error and has sent nothing; no retry duplicates a record,
  and nothing else is touched.\<close>

theorem deliver_exactly_once:
  assumes "syslog_deliver l ts bs s w = (r, s', w')"
  shows "only_sends w w' \<and> s' = s\<lparr>sl_socket := sl_socket s'\<rparr> \<and>
    (if is_ok r then \<exists>dest. sl_socket s' = Some dest \<and> (sl_socket s = Some dest \<or> dest \<in> set (sl_paths s)) \<and>
       w_sent w' = w_sent w @ [(dest, syslog_build_packet s l ts bs)]
     else w_sent w' = w_sent w)"
  using syslog_deliver_effect [OF assms] unfolding delivered_def .

definition example_sink :: syslog_sink where
  "example_sink = \<lparr>sl_paths = [lit ''/dev/log''], sl_facility = Daemon, sl_ident = lit ''app'',
     sl_hostname = lit ''host'', sl_pid = 1, sl_socket = None\<rparr>"

theorem deliver_exactly_once_witness:
  "\<exists>s' w'. syslog_deliver Info example_time [104, 105] example_sink quiet_world = (Inr (), s', w') \<and>
     length (w_sent w') = 1"
proof -
  obtain s' w' where run: "syslog_deliver Info example_time [104, 105] example_sink quiet_world = (Inr (), s', w')"
    by (simp add: syslog_deliver_def example_sink_def quiet_world_def reconnect_def sock_create_def
        sock_connect_def syscall_def deliver_connected_def sock_send_def Let_def)
  have "w_sent quiet_world = []" by (simp add: quiet_world_def)
  with deliver_exactly_once [OF run] run show ?thesis by auto
qed

text \<open>A daemon restart loses nothing: when the send on the existing connection fails and
  the calls after it succeed, the record is sent to the first configured path; when nothing fails, on
  the existing connection.\<close>

theorem deliver_survives_restart:
  assumes "sl_socket s = Some q" "sl_paths s = p # ps" "\<forall>n > w_calls w. w_fault w n = None"
  shows "\<exists>s' w'. syslog_deliver l ts bs s w = (Inr (), s', w') \<and>
    w_sent w' = w_sent w @ [(if w_fault w (w_calls w) = None then q else p, syslog_build_packet s l ts bs)]"
  using assms
  by (simp add: syslog_deliver_def deliver_connected_def Let_def sock_send_def syscall_def reconnect_def
      sock_create_def sock_connect_def split: option.split)

theorem deliver_survives_restart_witness:
  "\<exists>s' w'. syslog_deliver Info example_time [] (example_sink\<lparr>sl_socket := Some (lit ''/old'')\<rparr>) (glitch_world 0)
      = (Inr (), s', w') \<and> fst (last (w_sent w')) = lit ''/dev/log''"
proof -
  let ?s = "example_sink\<lparr>sl_socket := Some (lit ''/old'')\<rparr>" and ?w = "glitch_world 0"
  have "sl_socket ?s = Some (lit ''/old'')" "sl_paths ?s = lit ''/dev/log'' # []" "\<forall>n > w_calls ?w. w_fault ?w n = None"
    "w_fault ?w (w_calls ?w) \<noteq> None"
    by (simp_all add: example_sink_def glitch_world_def quiet_world_def)
  with deliver_survives_restart [OF this(1,2,3), of Info example_time "[]"] show ?thesis by auto
qed

end
