(* ===== verification/Xos_Json.thy ===== *)
theory Xos_Json
  imports Xos_Entry Xos_Utf8
begin

section \<open>Flat JSON records (\<open>src/json.rs\<close>)\<close>

text \<open>
  The writer of the crate (\<open>push_string\<close>, \<open>push_value\<close>, \<open>write_record\<close>) and, as its
  specification, an executable reader of flat JSON objects without white space (RFC 8259: string
  escapes, numbers, literals). The output is bytes; the reader works on the characters they decode
  to.
\<close>

abbreviation c_quote :: rchar where "c_quote \<equiv> 34"
abbreviation c_backslash :: rchar where "c_backslash \<equiv> 92"
abbreviation c_newline :: rchar where "c_newline \<equiv> 10"

text \<open>The \<open>match\<close> on a character in \<open>push_string\<close>.\<close>

definition escape_char :: "rchar \<Rightarrow> rstr" where
  "escape_char c =
     (if c = c_quote then [c_backslash, c_quote]
      else if c = c_backslash then [c_backslash, c_backslash]
      else if c = c_newline then [c_backslash, 110]
      else if c = 13 then [c_backslash, 114]
      else if c = 9 then [c_backslash, 116]
      else if c = 8 then [c_backslash, 98]
      else if c = 12 then [c_backslash, 102]
      else if is_control c then [c_backslash, 117] @ pad_zero 4 (fmt_hex c)
      else [c])"

definition push_string :: "rstr \<Rightarrow> rstr \<Rightarrow> rstr" where
  "push_string out v = foldl (\<lambda>out c. out @ escape_char c) (out @ [c_quote]) v @ [c_quote]"

definition push_value :: "rstr \<Rightarrow> field_value \<Rightarrow> rstr" where
  "push_value out v = (case v of
     Str s \<Rightarrow> push_string out s
   | Int64 i \<Rightarrow> out @ fmt_int (sint i)
   | Float f \<Rightarrow> if f64_is_finite f then out @ fmt_f64 f else out @ lit ''null''
   | Bool b \<Rightarrow> out @ (if b then lit ''true'' else lit ''false'')
   | Null \<Rightarrow> out @ lit ''null'')"

definition push_field :: "rstr \<Rightarrow> field \<Rightarrow> rstr" where
  "push_field line f = push_value (push_string (line @ lit '','') (f_key f) @ lit '':'') (f_value f)"

definition write_record :: "log_entry \<Rightarrow> bool \<Rightarrow> bytes \<Rightarrow> bytes" where
  "write_record e include_location out =
     (let line = lit ''{'' @ [c_quote] @ lit ''ts'' @ [c_quote] @ lit '':'' @ [c_quote] @
            display_timestamp (le_timestamp e) @ [c_quote] @ lit '','' @ [c_quote] @ lit ''level'' @
            [c_quote] @ lit '':'' @ [c_quote] @ level_as_str (le_level e) @ [c_quote] @ lit '','' @
            [c_quote] @ lit ''msg'' @ [c_quote] @ lit '':'';
          line = push_string line (le_message e);
          line = (if include_location then
                    let line = line @ lit '','' @ [c_quote] @ lit ''file'' @ [c_quote] @ lit '':'';
                        line = push_string line (le_file e);
                        line = line @ lit '','' @ [c_quote] @ lit ''line'' @ [c_quote] @ lit '':'' @
                          fmt_nat (unat (le_line e)) @ lit '','' @ [c_quote] @ lit ''target'' @
                          [c_quote] @ lit '':''
                    in push_string line (le_target e)
                  else line);
          line = foldl push_field line (le_fields e);
          line = line @ lit ''}'';
          line = line @ [c_newline]
      in out @ utf8 line)"

subsection \<open>Specification: the members of a record and a reader of flat objects\<close>

text \<open>A number is kept as its lexeme.\<close>

datatype json = JStr rstr | JNum rstr | JBool bool | JNull

definition json_of :: "field_value \<Rightarrow> json" where
  "json_of v = (case v of
     Str s \<Rightarrow> JStr s
   | Int64 i \<Rightarrow> JNum (fmt_int (sint i))
   | Float f \<Rightarrow> if f64_is_finite f then JNum (fmt_f64 f) else JNull
   | Bool b \<Rightarrow> JBool b
   | Null \<Rightarrow> JNull)"

definition record_members :: "log_entry \<Rightarrow> bool \<Rightarrow> (rstr \<times> json) list" where
  "record_members e loc =
     [(lit ''ts'', JStr (display_timestamp (le_timestamp e))),
      (lit ''level'', JStr (level_as_str (le_level e))),
      (lit ''msg'', JStr (le_message e))] @
     (if loc then [(lit ''file'', JStr (le_file e)), (lit ''line'', JNum (fmt_nat (unat (le_line e)))),
        (lit ''target'', JStr (le_target e))] else []) @
     map (\<lambda>f. (f_key f, json_of (f_value f))) (le_fields e)"

definition unhex :: "rchar \<Rightarrow> nat option" where
  "unhex c = (if is_digit c then Some (c - 48) else if 97 \<le> c \<and> c \<le> 102 then Some (c - 87)
     else if 65 \<le> c \<and> c \<le> 70 then Some (c - 55) else None)"

definition unescape :: "rchar \<Rightarrow> rchar option" where
  "unescape e =
     (if e = c_quote \<or> e = c_backslash \<or> e = 47 then Some e
      else if e = 110 then Some 10 else if e = 114 then Some 13 else if e = 116 then Some 9
      else if e = 98 then Some 8 else if e = 102 then Some 12 else None)"

text \<open>After a backslash: the character the escape stands for (a lone surrogate stands for none).\<close>

definition read_escape :: "rstr \<Rightarrow> (rchar \<times> rstr) option" where
  "read_escape s = (case s of
     [] \<Rightarrow> None
   | e # r \<Rightarrow>
       if e = 117 then
         (case r of
            a # b # c # d # q \<Rightarrow>
              (case (unhex a, unhex b, unhex c, unhex d) of
                 (Some w, Some x, Some y, Some z) \<Rightarrow>
                   let u = ((w * 16 + x) * 16 + y) * 16 + z in if scalar u then Some (u, q) else None
               | _ \<Rightarrow> None)
          | _ \<Rightarrow> None)
       else map_option (\<lambda>x. (x, r)) (unescape e))"

lemma read_escape_length: "read_escape s = Some (x, r) \<Longrightarrow> length r < length s"
  by (auto simp: read_escape_def Let_def split: list.splits if_splits option.splits)

function read_chars :: "rstr \<Rightarrow> (rstr \<times> rstr) option" where
  "read_chars [] = None"
| "read_chars (c # s) =
     (if c = c_quote then Some ([], s)
      else if c = c_backslash then
        (case read_escape s of
           None \<Rightarrow> None
         | Some (x, r) \<Rightarrow> map_option (\<lambda>(v, q). (x # v, q)) (read_chars r))
      else if c < 32 then None
      else map_option (\<lambda>(v, q). (c # v, q)) (read_chars s))"
  by pat_completeness auto
termination
  by (relation "measure length") (auto dest: read_escape_length)

definition read_string :: "rstr \<Rightarrow> (rstr \<times> rstr) option" where
  "read_string s = (case s of [] \<Rightarrow> None | c # r \<Rightarrow> if c = c_quote then read_chars r else None)"

text \<open>A value that is not a string extends to the next comma or closing brace.\<close>

definition value_char :: "rchar \<Rightarrow> bool" where
  "value_char c \<longleftrightarrow> c \<noteq> 44 \<and> c \<noteq> 125"

definition read_bare :: "rstr \<Rightarrow> json option" where
  "read_bare t =
     (if t = lit ''true'' then Some (JBool True)
      else if t = lit ''false'' then Some (JBool False)
      else if t = lit ''null'' then Some JNull
      else if decimal_lexeme t then Some (JNum t) else None)"

definition read_value :: "rstr \<Rightarrow> (json \<times> rstr) option" where
  "read_value s =
     (if s \<noteq> [] \<and> hd s = c_quote then map_option (\<lambda>(v, r). (JStr v, r)) (read_string s)
      else map_option (\<lambda>v. (v, dropWhile value_char s)) (read_bare (takeWhile value_char s)))"

definition read_member :: "rstr \<Rightarrow> ((rstr \<times> json) \<times> rstr) option" where
  "read_member s = (case read_string s of
     Some (k, c # r) \<Rightarrow> if c = 58 then map_option (\<lambda>(v, q). ((k, v), q)) (read_value r) else None
   | _ \<Rightarrow> None)"

text \<open>The fuel is the length of the text: every member takes at least one character.\<close>

fun read_members :: "nat \<Rightarrow> rstr \<Rightarrow> ((rstr \<times> json) list \<times> rstr) option" where
  "read_members 0 s = None"
| "read_members (Suc n) s = (case read_member s of
     Some (m, c # r) \<Rightarrow>
       if c = 125 then Some ([m], r)
       else if c = 44 then map_option (\<lambda>(ms, q). (m # ms, q)) (read_members n r)
       else None
   | _ \<Rightarrow> None)"

definition read_object :: "rstr \<Rightarrow> (rstr \<times> json) list option" where
  "read_object s = (case s of
     [] \<Rightarrow> None
   | c # r \<Rightarrow>
       if c \<noteq> 123 then None
       else if r = lit ''}'' then Some []
       else case read_members (length r) r of Some (ms, []) \<Rightarrow> Some ms | _ \<Rightarrow> None)"

text \<open>A stream of records: the objects on its lines, each line ended by a newline.\<close>

definition read_stream :: "rstr \<Rightarrow> (rstr \<times> json) list list option" where
  "read_stream s = (let ls = str_split c_newline s in
     if last ls \<noteq> [] then None else those (map read_object (butlast ls)))"

subsection \<open>What the writer writes\<close>

definition string_text :: "rstr \<Rightarrow> rstr" where
  "string_text v = c_quote # concat (map escape_char v) @ [c_quote]"

definition json_text :: "json \<Rightarrow> rstr" where
  "json_text j = (case j of
     JStr s \<Rightarrow> string_text s
   | JNum n \<Rightarrow> n
   | JBool b \<Rightarrow> if b then lit ''true'' else lit ''false''
   | JNull \<Rightarrow> lit ''null'')"

definition member_text :: "rstr \<times> json \<Rightarrow> rstr" where
  "member_text m = string_text (fst m) @ 58 # json_text (snd m)"

definition more_text :: "(rstr \<times> json) list \<Rightarrow> rstr" where
  "more_text ms = concat (map (\<lambda>m. 44 # member_text m) ms)"

definition object_text :: "(rstr \<times> json) list \<Rightarrow> rstr" where
  "object_text ms = 123 # tl (more_text ms) @ [125]"

lemma push_string_text: "push_string out v = out @ string_text v"
proof -
  have "foldl (\<lambda>out c. out @ escape_char c) out v = out @ concat (map escape_char v)" for out
    by (induction v arbitrary: out) simp_all
  then show ?thesis by (simp add: push_string_def string_text_def)
qed

lemma push_value_text: "push_value out v = out @ json_text (json_of v)"
  by (cases v) (simp_all add: push_value_def json_of_def json_text_def push_string_text)

lemma push_fields_text:
  "foldl push_field line fs = line @ more_text (map (\<lambda>f. (f_key f, json_of (f_value f))) fs)"
  by (induction fs arbitrary: line)
    (simp_all add: push_field_def push_string_text push_value_text more_text_def member_text_def)

text \<open>Characters that a JSON string holds as they are.\<close>

definition plain :: "rchar \<Rightarrow> bool" where
  "plain c \<longleftrightarrow> 32 \<le> c \<and> c < 127 \<and> c \<noteq> c_quote \<and> c \<noteq> c_backslash"

lemma escape_plain: "plain c \<Longrightarrow> escape_char c = [c]"
  by (auto simp: plain_def escape_char_def is_control_def)

lemma string_text_plain: "list_all plain v \<Longrightarrow> string_text v = c_quote # v @ [c_quote]"
proof -
  assume "list_all plain v"
  then have "concat (map escape_char v) = v" by (induction v) (simp_all add: escape_plain)
  then show ?thesis by (simp add: string_text_def)
qed

lemma plain_digit: "is_digit c \<Longrightarrow> plain c"
  by (simp add: is_digit_def plain_def)

lemma plain_fmt_nat [simp]: "list_all plain (fmt_nat n)"
  by (auto simp: list_all_iff intro: plain_digit fmt_nat_digits)

lemma plain_pad_zero [simp]: "list_all plain (pad_zero w s) \<longleftrightarrow> list_all plain s"
  by (auto simp: pad_zero_def list_all_iff plain_def)

lemma plain_fmt_int0 [simp]: "list_all plain (fmt_int0 w i)"
  by (simp add: fmt_int0_def) (simp add: plain_def)

lemma plain_display [simp]: "list_all plain (display_timestamp ts)"
  by (simp add: display_timestamp_def display_offset_def Let_def) (simp add: plain_def)

lemma plain_level [simp]: "list_all plain (level_as_str l)"
  by (cases l) (simp_all add: level_as_str_def plain_def)

lemma write_record_text: "write_record e loc out = out @ utf8 (object_text (record_members e loc) @ [c_newline])"
proof -
  have names: "string_text (lit ''ts'') = c_quote # lit ''ts'' @ [c_quote]"
    "string_text (lit ''level'') = c_quote # lit ''level'' @ [c_quote]"
    "string_text (lit ''msg'') = c_quote # lit ''msg'' @ [c_quote]"
    "string_text (lit ''file'') = c_quote # lit ''file'' @ [c_quote]"
    "string_text (lit ''line'') = c_quote # lit ''line'' @ [c_quote]"
    "string_text (lit ''target'') = c_quote # lit ''target'' @ [c_quote]"
    by (intro string_text_plain; simp add: plain_def)+
  have strs: "string_text (display_timestamp ts) = c_quote # display_timestamp ts @ [c_quote]"
    "string_text (level_as_str l) = c_quote # level_as_str l @ [c_quote]" for ts l
    by (simp_all add: string_text_plain)
  show ?thesis
    unfolding write_record_def Let_def push_fields_text push_string_text object_text_def record_members_def
    by (simp add: more_text_def member_text_def json_text_def names strs del: lit_simps)
      (simp add: names)
qed

subsection \<open>Reading it back\<close>

lemma unhex_digit: "d < 16 \<Longrightarrow> unhex (hex_digit d) = Some d"
  by (auto simp: unhex_def hex_digit_def is_digit_def)

lemma fmt_hex_byte: "c < 256 \<Longrightarrow> pad_zero 4 (fmt_hex c) = [48, 48, hex_digit (c div 16), hex_digit (c mod 16)]"
proof -
  assume c: "c < 256"
  have small: "n < 16 \<Longrightarrow> fmt_hex n = [hex_digit n]" for n by (subst fmt_hex.simps) simp
  have pad: "replicate 3 x = [x, x, x]" "replicate 2 x = [x, x]" for x :: nat
    by (simp_all add: numeral_3_eq_3 numeral_2_eq_2)
  show ?thesis
  proof (cases "c < 16")
    case True
    have "hex_digit 0 = 48" by (simp add: hex_digit_def)
    with True show ?thesis by (simp add: small pad_zero_def pad)
  next
    case False
    have "fmt_hex c = fmt_hex (c div 16) @ [hex_digit (c mod 16)]"
      using False by (subst fmt_hex.simps) simp
    also have "fmt_hex (c div 16) = [hex_digit (c div 16)]" using c by (intro small) simp
    finally show ?thesis by (simp add: pad_zero_def pad)
  qed
qed

lemma read_escape_hex: "c < 256 \<Longrightarrow> read_escape (117 # pad_zero 4 (fmt_hex c) @ r) = Some (c, r)"
proof -
  assume c: "c < 256"
  have "unhex 48 = Some 0" by (simp add: unhex_def is_digit_def)
  moreover have "c div 16 < 16" using c by simp
  moreover have "scalar c" using c by (simp add: scalar_def)
  ultimately show ?thesis
    by (simp add: fmt_hex_byte [OF c] read_escape_def unhex_digit Let_def div_mult_mod_eq)
qed

lemma read_escape_char:
  "read_chars (escape_char c @ r) = map_option (\<lambda>(v, q). (c # v, q)) (read_chars r)"
proof (cases "is_control c \<and> c \<notin> {8, 9, 10, 12, 13}")
  case True
  then have "escape_char c = c_backslash # 117 # pad_zero 4 (fmt_hex c)" "c < 256"
    by (auto simp: escape_char_def is_control_def)
  then show ?thesis using read_escape_hex [of c r] by simp
next
  case False
  then show ?thesis
    by (auto simp: escape_char_def read_escape_def unescape_def is_control_def)
qed

lemma read_chars_text: "read_chars (concat (map escape_char v) @ c_quote # r) = Some (v, r)"
  by (induction v) (simp_all add: read_escape_char)

lemma read_string_text: "read_string (string_text v @ r) = Some (v, r)"
  by (simp add: read_string_def string_text_def read_chars_text)

lemma decimal_lexeme_chars: "decimal_lexeme s \<Longrightarrow> c \<in> set s \<Longrightarrow> is_digit c \<or> c = 45 \<or> c = 46"
proof -
  assume lex: "decimal_lexeme s" and c: "c \<in> set s"
  define u where "u = (case s of c # t \<Rightarrow> if c = 45 then t else s | [] \<Rightarrow> s)"
  have "c = 45 \<or> c \<in> set u" using c by (cases s) (auto simp: u_def)
  moreover have "set u = set (takeWhile is_digit u) \<union> set (dropWhile is_digit u)"
    by (metis set_append takeWhile_dropWhile_id)
  moreover have "c \<in> set (takeWhile is_digit u) \<Longrightarrow> is_digit c" by (rule set_takeWhileD [THEN conjunct2])
  moreover have "c \<in> set (dropWhile is_digit u) \<Longrightarrow> is_digit c \<or> c = 46"
    using lex by (auto simp: decimal_lexeme_def u_def [symmetric] Let_def list_all_iff split: list.splits)
  ultimately show ?thesis by blast
qed

lemma decimal_lexeme_nonempty: "decimal_lexeme s \<Longrightarrow> s \<noteq> []"
  by (auto simp: decimal_lexeme_def)

definition json_ok :: "json \<Rightarrow> bool" where
  "json_ok j = (case j of JNum n \<Rightarrow> decimal_lexeme n | _ \<Rightarrow> True)"

lemma json_ok_json_of [simp]: "json_ok (json_of v)"
  by (cases v) (simp_all add: json_ok_def json_of_def decimal_lexeme_fmt_f64)

lemma decimal_lexeme_fmt_nat [simp]: "decimal_lexeme (fmt_nat n)"
  using decimal_lexeme_fmt_int [of "int n"] by (simp add: fmt_int_def)

lemma json_ok_members: "list_all (\<lambda>m. json_ok (snd m)) (record_members e loc)"
  by (auto simp: record_members_def list_all_iff) (simp_all add: json_ok_def)

text \<open>The text of a value that is not a string.\<close>

lemma bare_text:
  assumes "json_ok j" "\<And>s. j \<noteq> JStr s"
  shows "read_bare (json_text j) = Some j" "\<forall>c \<in> set (json_text j). value_char c"
    "json_text j \<noteq> []" "hd (json_text j) \<noteq> c_quote"
proof -
  have num: "read_bare n = Some (JNum n) \<and> (\<forall>c \<in> set n. value_char c) \<and> n \<noteq> [] \<and> hd n \<noteq> c_quote"
    if lex: "decimal_lexeme n" for n
  proof -
    have chars: "\<forall>c \<in> set n. is_digit c \<or> c = 45 \<or> c = 46" using decimal_lexeme_chars [OF lex] by blast
    moreover have ne: "n \<noteq> []" using lex by (rule decimal_lexeme_nonempty)
    ultimately have "is_digit (hd n) \<or> hd n = 45 \<or> hd n = 46" by simp
    then have "hd n \<notin> {116, 102, 110, 34}" by (auto simp: is_digit_def)
    with ne lex show ?thesis using chars by (auto simp: read_bare_def value_char_def is_digit_def)
  qed
  have "read_bare (json_text j) = Some j \<and> (\<forall>c \<in> set (json_text j). value_char c) \<and>
    json_text j \<noteq> [] \<and> hd (json_text j) \<noteq> c_quote"
  proof (cases j)
    case (JNum n)
    then have "decimal_lexeme n" "json_text j = n" using assms(1) by (simp_all add: json_ok_def json_text_def)
    with num JNum show ?thesis by simp
  qed (use assms(2) in \<open>simp_all add: json_text_def read_bare_def value_char_def\<close>)
  then show "read_bare (json_text j) = Some j" "\<forall>c \<in> set (json_text j). value_char c"
    "json_text j \<noteq> []" "hd (json_text j) \<noteq> c_quote" by blast+
qed

lemma read_value_text:
  assumes "json_ok j" "c = 44 \<or> c = 125"
  shows "read_value (json_text j @ c # r) = Some (j, c # r)"
proof (cases "\<exists>s. j = JStr s")
  case True
  then show ?thesis
    by (auto simp: read_value_def json_text_def read_string_text) (simp_all add: string_text_def)
next
  case False
  then have "\<And>s. j \<noteq> JStr s" by blast
  note b = bare_text [OF assms(1) this]
  moreover have "\<not> value_char c" using assms(2) by (auto simp: value_char_def)
  ultimately show ?thesis
    by (simp add: read_value_def takeWhile_append_not dropWhile_append_not)
qed

lemma read_member_text:
  assumes "json_ok (snd m)" "c = 44 \<or> c = 125"
  shows "read_member (member_text m @ c # r) = Some (m, c # r)"
  using read_value_text [OF assms] by (simp add: read_member_def member_text_def read_string_text)

lemma read_members_text:
  "list_all (\<lambda>m. json_ok (snd m)) (m # ms) \<Longrightarrow> length ms < n \<Longrightarrow>
     read_members n (member_text m @ more_text ms @ 125 # r) = Some (m # ms, r)"
proof (induction ms arbitrary: m n)
  case Nil
  then show ?case by (cases n) (simp_all add: more_text_def read_member_text)
next
  case (Cons m' ms)
  then obtain k where "n = Suc k" by (cases n) auto
  with Cons show ?case by (simp add: more_text_def read_member_text)
qed

lemma length_more_text: "length ms \<le> length (more_text ms)"
  by (induction ms) (simp_all add: more_text_def)

lemma read_object_text:
  assumes "list_all (\<lambda>m. json_ok (snd m)) ms" "ms \<noteq> []"
  shows "read_object (object_text ms) = Some ms"
proof -
  obtain m ms' where ms: "ms = m # ms'" using assms(2) by (cases ms) auto
  have shape: "object_text ms = 123 # member_text m @ more_text ms' @ [125]"
    by (simp add: object_text_def ms more_text_def)
  have "length ms' < length (member_text m @ more_text ms' @ [125])"
    using length_more_text [of ms'] by simp
  from read_members_text [OF _ this] assms(1) ms shape show ?thesis
    by (simp add: read_object_def) (simp add: member_text_def string_text_def)
qed

lemma record_members_nonempty [simp]: "record_members e loc \<noteq> []"
  by (simp add: record_members_def)

lemma read_record_line: "read_object (object_text (record_members e loc)) = Some (record_members e loc)"
  by (rule read_object_text [OF json_ok_members]) simp

subsection \<open>Lines and streams\<close>

lemma not_control [simp]:
  "\<not> is_control 44" "\<not> is_control 58" "\<not> is_control 34" "\<not> is_control 123" "\<not> is_control 125"
  by (simp_all add: is_control_def)

text \<open>The strings of a record are Rust strings: lists of Unicode scalar values.\<close>

definition value_valid :: "field_value \<Rightarrow> bool" where
  "value_valid v = (case v of Str s \<Rightarrow> valid_str s | _ \<Rightarrow> True)"

definition entry_valid :: "log_entry \<Rightarrow> bool" where
  "entry_valid e \<longleftrightarrow> valid_str (le_message e) \<and> valid_str (le_target e) \<and> valid_str (le_file e) \<and>
     list_all (\<lambda>f. valid_str (f_key f) \<and> value_valid (f_value f)) (le_fields e)"

lemma plain_valid: "list_all plain s \<Longrightarrow> valid_str s"
  by (auto simp: valid_str_def list_all_iff plain_def)

lemma plain_not_control: "list_all plain s \<Longrightarrow> list_all (\<lambda>c. \<not> is_control c) s"
  by (auto simp: is_control_def list_all_iff plain_def)

lemma plain_hex: "list_all plain (fmt_hex n)"
proof (induction n rule: fmt_hex.induct)
  case (1 n)
  have d: "d < 16 \<Longrightarrow> plain (hex_digit d)" for d by (auto simp: plain_def hex_digit_def)
  show ?case
  proof (cases "n < 16")
    case True
    then show ?thesis by (subst fmt_hex.simps) (simp add: d)
  next
    case False
    with 1 show ?thesis by (subst fmt_hex.simps) (simp add: d)
  qed
qed

lemma escape_char_ok: "list_all (\<lambda>c. \<not> is_control c) (escape_char c)" "scalar c \<Longrightarrow> valid_str (escape_char c)"
proof -
  have hex: "list_all plain (pad_zero 4 (fmt_hex c))" by (simp add: plain_hex)
  show "list_all (\<lambda>c. \<not> is_control c) (escape_char c)"
    using plain_not_control [OF hex] by (auto simp: escape_char_def is_control_def)
  show "scalar c \<Longrightarrow> valid_str (escape_char c)"
    using plain_valid [OF hex] by (auto simp: escape_char_def)
qed

lemma string_text_ok: "list_all (\<lambda>c. \<not> is_control c) (string_text v)" "valid_str v \<Longrightarrow> valid_str (string_text v)"
proof -
  show "list_all (\<lambda>c. \<not> is_control c) (string_text v)"
    using escape_char_ok(1) by (induction v) (auto simp: string_text_def is_control_def)
  show "valid_str v \<Longrightarrow> valid_str (string_text v)"
    using escape_char_ok(2) by (induction v) (auto simp: string_text_def)
qed

definition json_valid :: "json \<Rightarrow> bool" where
  "json_valid j = (case j of JStr s \<Rightarrow> valid_str s | _ \<Rightarrow> True)"

lemma plain_decimal_lexeme: "decimal_lexeme n \<Longrightarrow> list_all plain n"
  unfolding list_all_iff
proof
  fix c assume "decimal_lexeme n" "c \<in> set n"
  then have "is_digit c \<or> c = 45 \<or> c = 46" by (rule decimal_lexeme_chars)
  then show "plain c" using plain_digit [of c] by (elim disjE) (simp_all add: plain_def)
qed

lemma json_text_ok:
  assumes "json_ok j"
  shows "list_all (\<lambda>c. \<not> is_control c) (json_text j)" "json_valid j \<Longrightarrow> valid_str (json_text j)"
proof -
  have bare: "list_all plain (lit ''true'')" "list_all plain (lit ''false'')" "list_all plain (lit ''null'')"
    by (simp_all add: plain_def)
  note ok = bare [THEN plain_not_control] bare [THEN plain_valid]
  show "list_all (\<lambda>c. \<not> is_control c) (json_text j)"
    using assms ok plain_not_control [OF plain_decimal_lexeme]
    by (auto simp: json_text_def json_ok_def string_text_ok simp del: lit_simps split: json.splits)
  show "json_valid j \<Longrightarrow> valid_str (json_text j)"
    using assms ok plain_valid [OF plain_decimal_lexeme]
    by (auto simp: json_text_def json_ok_def json_valid_def string_text_ok simp del: lit_simps split: json.splits)
qed

lemma more_text_ok:
  "list_all (\<lambda>m. json_ok (snd m)) ms \<Longrightarrow> list_all (\<lambda>c. \<not> is_control c) (more_text ms)"
  "list_all (\<lambda>m. json_ok (snd m) \<and> valid_str (fst m) \<and> json_valid (snd m)) ms \<Longrightarrow> valid_str (more_text ms)"
  by (induction ms)
    (auto simp: more_text_def member_text_def string_text_ok json_text_ok)

lemma list_all_tl: "list_all P xs \<Longrightarrow> list_all P (tl xs)"
  by (cases xs) simp_all

lemma object_text_not_control: "list_all (\<lambda>c. \<not> is_control c) (object_text (record_members e loc))"
  using list_all_tl [OF more_text_ok(1) [OF json_ok_members]] by (simp add: object_text_def)

lemma members_valid:
  assumes "entry_valid e"
  shows "list_all (\<lambda>m. json_ok (snd m) \<and> valid_str (fst m) \<and> json_valid (snd m)) (record_members e loc)"
proof -
  have "json_valid (json_of v) \<longleftrightarrow> value_valid v" for v
    by (cases v) (simp_all add: json_valid_def json_of_def value_valid_def)
  moreover have "valid_str (display_timestamp (le_timestamp e))" "valid_str (level_as_str (le_level e))"
    by (simp_all add: plain_valid)
  ultimately show ?thesis
    using assms json_ok_members [of e loc]
    by (auto simp: record_members_def entry_valid_def list_all_iff) (simp_all add: json_valid_def)
qed

lemma object_text_valid: "entry_valid e \<Longrightarrow> valid_str (object_text (record_members e loc))"
  using more_text_ok(2) [OF members_valid] list_all_tl [of scalar "more_text (record_members e loc)"]
  by (simp add: object_text_def valid_str_def list_all_iff)

lemma object_text_no_newline: "c_newline \<notin> set (object_text (record_members e loc))"
  using object_text_not_control [of e loc] by (auto simp: list_all_iff is_control_def)

lemma write_records_text:
  "foldl (\<lambda>out e. write_record e loc out) out es =
     out @ utf8 (concat (map (\<lambda>e. object_text (record_members e loc) @ [c_newline]) es))"
  by (induction es arbitrary: out) (simp_all add: write_record_text)

lemma split_lines:
  "list_all (\<lambda>l. c_newline \<notin> set l) ls \<Longrightarrow>
     str_split c_newline (concat (map (\<lambda>l. l @ [c_newline]) ls)) = ls @ [[]]"
  by (induction ls) (simp_all add: str_split_append_sep)

lemma byte_not_control:
  assumes "32 \<le> n" "n \<noteq> 127" "n < 256"
  shows "32 \<le> (word_of_nat n :: u8) \<and> word_of_nat n \<noteq> (127 :: u8)"
proof -
  have u: "unat (word_of_nat n :: u8) = n" using assms(3) by (simp add: unat_of_nat)
  then have "unat (word_of_nat n :: u8) \<noteq> unat (127 :: u8)" using assms(2) by simp
  then have "word_of_nat n \<noteq> (127 :: u8)" by metis
  moreover have "32 \<le> (word_of_nat n :: u8)" using u assms(1) by (simp add: word_le_nat_alt)
  ultimately show ?thesis by blast
qed

lemma utf8_high_bytes:
  assumes "scalar c" "\<not> c < 0x80" "b \<in> set (utf8_char c)"
  shows "\<exists>n. b = word_of_nat n \<and> 128 \<le> n \<and> n < 256"
proof -
  consider "c < 0x800" | "\<not> c < 0x800" "c < 0x10000" | "\<not> c < 0x10000" "c < 0x110000"
    using assms(1) unfolding scalar_def by linarith
  then show ?thesis
  proof cases
    case 1
    then have "b = word_of_nat (0xC0 + c div 64) \<or> b = word_of_nat (0x80 + c mod 64)"
      using assms(2,3) by (auto simp: utf8_char_def simp del: of_nat_add of_nat_numeral)
    moreover have "c div 64 < 32" using 1 by (simp add: div_less_iff_less_mult)
    moreover have "c mod 64 < 64" by simp
    ultimately show ?thesis by (elim disjE) (rule exI, erule conjI, simp)+
  next
    case 2
    then have "b = word_of_nat (0xE0 + c div 4096) \<or> b = word_of_nat (0x80 + c div 64 mod 64) \<or>
        b = word_of_nat (0x80 + c mod 64)"
      using assms(2,3) by (auto simp: utf8_char_def simp del: of_nat_add of_nat_numeral)
    moreover have "c div 4096 < 16" using 2 by (simp add: div_less_iff_less_mult)
    moreover have "c mod 64 < 64" "c div 64 mod 64 < 64" by simp_all
    ultimately show ?thesis by (elim disjE) (rule exI, erule conjI, simp)+
  next
    case 3
    then have "b = word_of_nat (0xF0 + c div 262144) \<or> b = word_of_nat (0x80 + c div 4096 mod 64) \<or>
        b = word_of_nat (0x80 + c div 64 mod 64) \<or> b = word_of_nat (0x80 + c mod 64)"
      using assms(2,3) by (auto simp: utf8_char_def simp del: of_nat_add of_nat_numeral)
    moreover have "c div 262144 < 5" using 3 by (simp add: div_less_iff_less_mult)
    moreover have "c mod 64 < 64" "c div 64 mod 64 < 64" "c div 4096 mod 64 < 64" by simp_all
    ultimately show ?thesis by (elim disjE) (rule exI, erule conjI, simp)+
  qed
qed

lemma utf8_char_bytes:
  assumes "scalar c" "\<not> is_control c" "b \<in> set (utf8_char c)"
  shows "32 \<le> b \<and> b \<noteq> 127"
proof (cases "c < 0x80")
  case True
  with assms have "b = word_of_nat c" "32 \<le> c" "c < 127"
    by (auto simp: utf8_char_def is_control_def)
  then show ?thesis using byte_not_control [of c] by simp
next
  case False
  then obtain n where n: "b = word_of_nat n" "128 \<le> n" "n < 256"
    using utf8_high_bytes assms(1,3) by blast
  show ?thesis unfolding n(1) by (rule byte_not_control) (use n(2,3) in simp_all)
qed

lemma utf8_bytes:
  "valid_str s \<Longrightarrow> list_all (\<lambda>c. \<not> is_control c) s \<Longrightarrow> list_all (\<lambda>b. 32 \<le> b \<and> b \<noteq> 127) (utf8 s)"
  by (induction s) (auto simp: list_all_iff dest: utf8_char_bytes)

text \<open>A reader of the lines the writer produces.\<close>

lemma read_json_lines:
  assumes "list_all entry_valid es"
  shows "read_stream (from_utf8_lossy (foldl (\<lambda>out e. write_record e loc out) [] es)) =
    Some (map (\<lambda>e. record_members e loc) es)"
proof -
  let ?line = "\<lambda>e. object_text (record_members e loc)"
  have "valid_str (concat (map (\<lambda>e. ?line e @ [c_newline]) es))"
    using assms by (induction es) (simp_all add: object_text_valid)
  then have bytes: "from_utf8_lossy (foldl (\<lambda>out e. write_record e loc out) [] es) =
      concat (map (\<lambda>l. l @ [c_newline]) (map ?line es))"
    by (simp add: write_records_text comp_def)
  have "list_all (\<lambda>l. c_newline \<notin> set l) (map ?line es)"
    by (simp add: list_all_iff object_text_no_newline)
  note ls = split_lines [OF this]
  have "those (map read_object (map ?line es)) = Some (map (\<lambda>e. record_members e loc) es)"
    by (induction es) (simp_all add: read_record_line)
  then show ?thesis by (simp only: bytes read_stream_def ls Let_def) simp
qed

subsection \<open>Properties\<close>

text \<open>Claim C15: whatever the messages, targets, files and fields hold, the bytes written for any
  sequence of records decode to a stream of lines, and the object on each line reads back as exactly
  the members of its record: every string, number lexeme, boolean and null, in order.\<close>

theorem json_stream_roundtrip:
  assumes "list_all entry_valid es"
  shows "read_stream (from_utf8_lossy (foldl (\<lambda>out e. write_record e loc out) [] es)) =
    Some (map (\<lambda>e. record_members e loc) es)"
  using assms by (rule read_json_lines)

definition json_example :: log_entry where
  "json_example = \<lparr>le_timestamp = timestamp_now 0 0, le_level = Info, le_message = [34, 10, 0x1F600],
     le_target = lit ''app'', le_file = lit ''a.rs'', le_line = 7,
     le_fields = [field_str (lit ''k'') [92, 0], field_bool (lit ''b'') True]\<rparr>"

theorem json_stream_roundtrip_witness:
  "read_stream (from_utf8_lossy (write_record json_example False [])) =
    Some [[(lit ''ts'', JStr (display_timestamp (timestamp_now 0 0))), (lit ''level'', JStr (lit ''INFO'')),
      (lit ''msg'', JStr [34, 10, 0x1F600]), (lit ''k'', JStr [92, 0]), (lit ''b'', JBool True)]]"
proof -
  have "list_all entry_valid [json_example]"
    by (simp add: entry_valid_def json_example_def value_valid_def scalar_def field_str_def field_bool_def
        field_new_def)
  from json_stream_roundtrip [OF this, of False]
  have "read_stream (from_utf8_lossy (write_record json_example False [])) =
      Some [record_members json_example False]" by simp
  moreover have "record_members json_example False =
     [(lit ''ts'', JStr (display_timestamp (timestamp_now 0 0))), (lit ''level'', JStr (lit ''INFO'')),
      (lit ''msg'', JStr [34, 10, 0x1F600]), (lit ''k'', JStr [92, 0]), (lit ''b'', JBool True)]"
    by (simp add: record_members_def json_example_def level_as_str_def json_of_def field_str_def
        field_bool_def field_new_def)
  ultimately show ?thesis by simp
qed

text \<open>Claim C36: a record is exactly one line: what is written for it is the UTF-8 of a string without any
  control character, the C0 codes, delete and the C1 codes alike (no line break, no escape sequence,
  whatever the message or the fields contain), and one final newline; no byte of it before that newline is
  a control code.\<close>

theorem json_record_is_one_line:
  assumes "entry_valid e"
  shows "\<exists>line. write_record e loc out = out @ utf8 line @ [10] \<and> valid_str line \<and>
    list_all (\<lambda>c. 0x20 \<le> c \<and> \<not> (0x7F \<le> c \<and> c \<le> 0x9F)) line \<and> list_all (\<lambda>b. 32 \<le> b \<and> b \<noteq> 127) (utf8 line)"
proof -
  let ?line = "object_text (record_members e loc)"
  have "utf8 [c_newline] = [10]" by (simp add: utf8_char_ascii)
  then have "write_record e loc out = out @ utf8 ?line @ [10]" by (simp add: write_record_text)
  moreover have "list_all (\<lambda>c. 0x20 \<le> c \<and> \<not> (0x7F \<le> c \<and> c \<le> 0x9F)) ?line"
    using object_text_not_control [of e loc] by (auto simp: list_all_iff is_control_def)
  ultimately show ?thesis
    using object_text_valid [OF assms] utf8_bytes [OF object_text_valid [OF assms] object_text_not_control] by blast
qed

theorem json_record_is_one_line_witness:
  "\<exists>line. write_record json_example True [1] = [1] @ utf8 line @ [10] \<and> valid_str line \<and>
    list_all (\<lambda>c. 0x20 \<le> c \<and> \<not> (0x7F \<le> c \<and> c \<le> 0x9F)) line \<and> list_all (\<lambda>b. 32 \<le> b \<and> b \<noteq> 127) (utf8 line)"
proof -
  have "entry_valid json_example"
    by (simp add: entry_valid_def json_example_def value_valid_def scalar_def field_str_def field_bool_def
        field_new_def)
  from json_record_is_one_line [OF this] show ?thesis .
qed

text \<open>The keys that the writer itself uses.\<close>

definition reserved_keys :: "bool \<Rightarrow> rstr list" where
  "reserved_keys loc = [lit ''ts'', lit ''level'', lit ''msg''] @
     (if loc then [lit ''file'', lit ''line'', lit ''target''] else [])"

lemma record_members_keys:
  "distinct (map fst (record_members e loc)) \<longleftrightarrow>
     distinct (map f_key (le_fields e)) \<and> f_key ` set (le_fields e) \<inter> set (reserved_keys loc) = {}"
proof -
  have "map fst (record_members e loc) = reserved_keys loc @ map f_key (le_fields e)"
    by (cases loc) (simp_all add: record_members_def reserved_keys_def comp_def)
  moreover have "distinct (reserved_keys loc)"
    by (cases loc) (simp_all add: reserved_keys_def)
  ultimately show ?thesis by (simp add: Int_commute)
qed

text \<open>The object of a record has no duplicate key exactly when the fields of the record
  have distinct keys and none of them is a key the writer uses itself; the writer checks neither.\<close>

theorem json_duplicate_keys:
  assumes "entry_valid e"
  shows "map_option (\<lambda>ms. distinct (map fst ms))
      (read_object (from_utf8_lossy (butlast (write_record e loc [])))) =
    Some (distinct (map f_key (le_fields e)) \<and> f_key ` set (le_fields e) \<inter> set (reserved_keys loc) = {})"
proof -
  have "butlast (write_record e loc []) = utf8 (object_text (record_members e loc))"
    by (simp add: write_record_text utf8_char_ascii)
  then show ?thesis
    using object_text_valid [OF assms] by (simp add: read_record_line record_members_keys)
qed

theorem json_duplicate_keys_witness:
  "\<not> distinct (map fst (the (read_object (from_utf8_lossy (butlast (write_record
      (json_example\<lparr>le_fields := [field_bool (lit ''ts'') True]\<rparr>) False []))))))"
proof -
  let ?e = "json_example\<lparr>le_fields := [field_bool (lit ''ts'') True]\<rparr>"
  have "entry_valid ?e"
    by (simp add: entry_valid_def json_example_def value_valid_def scalar_def field_bool_def field_new_def)
  from json_duplicate_keys [OF this, of False] show ?thesis
    by (auto simp: field_bool_def field_new_def reserved_keys_def)
qed

end
