(* ===== verification/Xos_Writer.thy ===== *)
theory Xos_Writer
  imports Xos_Syslog Xos_Json
begin

section \<open>The writer thread (\<open>src/logger.rs\<close>, trait \<open>Sink\<close> of \<open>src/sink.rs\<close>)\<close>

text \<open>
  Formatting, the slots with their failure counters, the handling of one message and the loop of the
  writer thread. A call that unwinds is an outcome (\<open>Panicked\<close>), caught where the code has
  \<open>catch_unwind\<close>. A boxed sink is one of the crate's own sinks or a caller's, whose operations are
  an argument. An acknowledgement channel is a number; the numbers acknowledged are a result.
\<close>

datatype 'a outcome = Done 'a | Panicked

subsection \<open>The trait \<open>Sink\<close>\<close>

type_synonym 's sink_result = "unit io_result outcome \<times> 's \<times> world"

text \<open>The default \<open>write_entry\<close> forwards the formatted record to \<open>write_bytes\<close>.\<close>

definition default_write_entry ::
  "(bytes \<Rightarrow> 's \<Rightarrow> world \<Rightarrow> 's sink_result) \<Rightarrow> log_entry \<Rightarrow> bytes \<Rightarrow> 's \<Rightarrow> world \<Rightarrow> 's sink_result" where
  "default_write_entry write_bytes e formatted s w = write_bytes formatted s w"

text \<open>The operations of a caller's sink, as the writer calls them.\<close>

record 'c sink_ops =
  op_write_entry :: "log_entry \<Rightarrow> bytes \<Rightarrow> 'c \<Rightarrow> world \<Rightarrow> 'c sink_result"
  op_flush :: "'c \<Rightarrow> world \<Rightarrow> 'c sink_result"

datatype 'c sink =
    StdoutSink | StderrSink | FileSink file_sink | SyslogSink syslog_sink | RemoteSyslogSink remote_sink
  | CustomSink 'c

text \<open>The operations of the crate's sinks never unwind.\<close>

definition stream_op :: "('x \<Rightarrow> world \<Rightarrow> unit io_result \<times> world) \<Rightarrow> 'x \<Rightarrow> 's \<Rightarrow> world \<Rightarrow> 's sink_result" where
  "stream_op f x s w = (case f x w of (r, w) \<Rightarrow> (Done r, s, w))"

definition state_op ::
  "('x \<Rightarrow> 's \<Rightarrow> world \<Rightarrow> unit io_result \<times> 's \<times> world) \<Rightarrow> 'x \<Rightarrow> 's \<Rightarrow> world \<Rightarrow> 's sink_result" where
  "state_op f x s w = (case f x s w of (r, s, w) \<Rightarrow> (Done r, s, w))"

definition stdout_entry :: "log_entry \<Rightarrow> bytes \<Rightarrow> unit \<Rightarrow> world \<Rightarrow> unit sink_result" where
  "stdout_entry = default_write_entry (stream_op stdout_write_bytes)"

definition stderr_entry :: "log_entry \<Rightarrow> bytes \<Rightarrow> unit \<Rightarrow> world \<Rightarrow> unit sink_result" where
  "stderr_entry = default_write_entry (stream_op stderr_write_bytes)"

definition std_flush_op :: "unit \<Rightarrow> world \<Rightarrow> unit sink_result" where
  "std_flush_op = stream_op (\<lambda>_. std_flush) ()"

definition file_entry :: "log_entry \<Rightarrow> bytes \<Rightarrow> file_sink \<Rightarrow> world \<Rightarrow> file_sink sink_result" where
  "file_entry = default_write_entry (state_op file_write_bytes)"

definition file_flush_op :: "file_sink \<Rightarrow> world \<Rightarrow> file_sink sink_result" where
  "file_flush_op s w = stream_op file_flush s s w"

definition syslog_entry :: "log_entry \<Rightarrow> bytes \<Rightarrow> syslog_sink \<Rightarrow> world \<Rightarrow> syslog_sink sink_result" where
  "syslog_entry e = state_op (syslog_write_entry e)"

definition syslog_flush_op :: "syslog_sink \<Rightarrow> world \<Rightarrow> syslog_sink sink_result" where
  "syslog_flush_op s w = stream_op syslog_flush s s w"

definition remote_entry :: "log_entry \<Rightarrow> bytes \<Rightarrow> remote_sink \<Rightarrow> world \<Rightarrow> remote_sink sink_result" where
  "remote_entry e bs s w = stream_op (remote_write_entry e bs) s s w"

definition remote_flush_op :: "remote_sink \<Rightarrow> world \<Rightarrow> remote_sink sink_result" where
  "remote_flush_op s w = stream_op remote_flush s s w"

definition wrap_sink :: "('s \<Rightarrow> 'c sink) \<Rightarrow> 's sink_result \<Rightarrow> 'c sink sink_result" where
  "wrap_sink c r = (case r of (x, s, w) \<Rightarrow> (x, c s, w))"

text \<open>Dynamic dispatch on \<open>Box<dyn Sink>\<close>.\<close>

definition sink_write_entry :: "'c sink_ops \<Rightarrow> log_entry \<Rightarrow> bytes \<Rightarrow> 'c sink \<Rightarrow> world \<Rightarrow> 'c sink sink_result" where
  "sink_write_entry ops e bs s w = (case s of
     StdoutSink \<Rightarrow> wrap_sink (\<lambda>_. StdoutSink) (stdout_entry e bs () w)
   | StderrSink \<Rightarrow> wrap_sink (\<lambda>_. StderrSink) (stderr_entry e bs () w)
   | FileSink f \<Rightarrow> wrap_sink FileSink (file_entry e bs f w)
   | SyslogSink y \<Rightarrow> wrap_sink SyslogSink (syslog_entry e bs y w)
   | RemoteSyslogSink r \<Rightarrow> wrap_sink RemoteSyslogSink (remote_entry e bs r w)
   | CustomSink c \<Rightarrow> wrap_sink CustomSink (op_write_entry ops e bs c w))"

definition sink_flush :: "'c sink_ops \<Rightarrow> 'c sink \<Rightarrow> world \<Rightarrow> 'c sink sink_result" where
  "sink_flush ops s w = (case s of
     StdoutSink \<Rightarrow> wrap_sink (\<lambda>_. StdoutSink) (std_flush_op () w)
   | StderrSink \<Rightarrow> wrap_sink (\<lambda>_. StderrSink) (std_flush_op () w)
   | FileSink f \<Rightarrow> wrap_sink FileSink (file_flush_op f w)
   | SyslogSink y \<Rightarrow> wrap_sink SyslogSink (syslog_flush_op y w)
   | RemoteSyslogSink r \<Rightarrow> wrap_sink RemoteSyslogSink (remote_flush_op r w)
   | CustomSink c \<Rightarrow> wrap_sink CustomSink (op_flush ops c w))"

subsection \<open>Formatting and standard error\<close>

definition format_record :: "log_entry \<Rightarrow> bool \<Rightarrow> bytes \<Rightarrow> bytes" where
  "format_record e include_location out =
     (let line = display_timestamp (le_timestamp e) @ lit '' ['' @ level_as_str (le_level e) @ lit ''] '' @
            le_message e;
          line = (if include_location then
                    let loc = location e in
                    if loc \<noteq> [] then line @ lit '' ('' @ loc @ lit '')'' else line
                  else line)
      in out @ utf8 line @ [10])"

definition write_stderr :: "bytes \<Rightarrow> world \<Rightarrow> world" where
  "write_stderr bs w = snd (std_flush (snd (stderr_write_all bs w)))"

definition emergency_write :: "log_entry \<Rightarrow> bool \<Rightarrow> world \<Rightarrow> unit io_result \<times> world" where
  "emergency_write e json w =
     (let buf = (if json then write_record e False [] else format_record e False []) in
      case stderr_write_all (utf8 (lit ''[xoslog] writer thread unavailable, logging synchronously'') @ [10]) w of
        (Inl err, w) \<Rightarrow> (Inl err, w)
      | (Inr _, w) \<Rightarrow>
          (case stderr_write_all buf w of
             (Inl err, w) \<Rightarrow> (Inl err, w)
           | (Inr _, w) \<Rightarrow> std_flush w))"

subsection \<open>Slots and messages\<close>

definition MAX_CONSECUTIVE_WRITE_ERRORS :: nat where "MAX_CONSECUTIVE_WRITE_ERRORS = 8"

datatype message = MLog log_entry | MFlush nat | MShutdown nat

record 'c sink_slot =
  slot_sink :: "'c sink"
  min_level :: level
  consecutive_errors :: nat
  degraded :: bool

definition slot_new :: "'c sink \<Rightarrow> level \<Rightarrow> 'c sink_slot" where
  "slot_new s l = \<lparr>slot_sink = s, min_level = l, consecutive_errors = 0, degraded = False\<rparr>"

definition fallback_notice :: bytes where
  "fallback_notice = utf8 (lit ''[xoslog] a sink failed, falling back to stderr'') @ [10]"

text \<open>The body of the loop over the slots for one record.\<close>

definition slot_write ::
  "'c sink_ops \<Rightarrow> log_entry \<Rightarrow> bytes \<Rightarrow> 'c sink_slot \<Rightarrow> world \<Rightarrow> 'c sink_slot \<times> world" where
  "slot_write ops e buf slot w =
     (if le_level e < min_level slot then (slot, w)
      else if degraded slot then (slot, write_stderr buf w)
      else
        (case sink_write_entry ops e buf (slot_sink slot) w of (outcome, s, w) \<Rightarrow>
           let slot = slot\<lparr>slot_sink := s\<rparr> in
           (case outcome of
              Done (Inr _) \<Rightarrow> (slot\<lparr>consecutive_errors := 0\<rparr>, w)
            | _ \<Rightarrow>
                let slot = slot\<lparr>consecutive_errors := consecutive_errors slot + 1\<rparr> in
                if consecutive_errors slot \<ge> MAX_CONSECUTIVE_WRITE_ERRORS
                then (slot\<lparr>degraded := True\<rparr>, write_stderr fallback_notice w)
                else (slot, w))))"

fun slots_write ::
  "'c sink_ops \<Rightarrow> log_entry \<Rightarrow> bytes \<Rightarrow> 'c sink_slot list \<Rightarrow> world \<Rightarrow> 'c sink_slot list \<times> world" where
  "slots_write ops e buf [] w = ([], w)"
| "slots_write ops e buf (slot # slots) w =
     (case slot_write ops e buf slot w of (slot, w) \<Rightarrow>
        (case slots_write ops e buf slots w of (slots, w) \<Rightarrow> (slot # slots, w)))"

text \<open>Flushing in order; a flush that unwinds leaves the slots after it alone.\<close>

fun slots_flush :: "'c sink_ops \<Rightarrow> 'c sink_slot list \<Rightarrow> world \<Rightarrow> unit outcome \<times> 'c sink_slot list \<times> world" where
  "slots_flush ops [] w = (Done (), [], w)"
| "slots_flush ops (slot # slots) w =
     (case sink_flush ops (slot_sink slot) w of (outcome, s, w) \<Rightarrow>
        let slot = slot\<lparr>slot_sink := s\<rparr> in
        (case outcome of
           Panicked \<Rightarrow> (Panicked, slot # slots, w)
         | Done _ \<Rightarrow> (case slots_flush ops slots w of (r, slots, w) \<Rightarrow> (r, slot # slots, w))))"

definition format_entry :: "bool \<Rightarrow> bool \<Rightarrow> log_entry \<Rightarrow> bytes" where
  "format_entry include_location json e =
     (if json then write_record e include_location [] else format_record e include_location [])"

text \<open>The result: whether to stop, the slots, the acknowledged channels and the world.\<close>

definition handle_message ::
  "'c sink_ops \<Rightarrow> bool \<Rightarrow> bool \<Rightarrow> message \<Rightarrow> 'c sink_slot list \<Rightarrow> world \<Rightarrow>
     bool outcome \<times> 'c sink_slot list \<times> nat list \<times> world" where
  "handle_message ops include_location json msg slots w = (case msg of
     MLog e \<Rightarrow>
       (let buf = format_entry include_location json e
        in case slots_write ops e buf slots w of (slots, w) \<Rightarrow> (Done False, slots, [], w))
   | MFlush ack \<Rightarrow>
       (case slots_flush ops slots w of
          (Panicked, slots, w) \<Rightarrow> (Panicked, slots, [], w)
        | (Done _, slots, w) \<Rightarrow> (Done False, slots, [ack], w))
   | MShutdown ack \<Rightarrow>
       (case slots_flush ops slots w of
          (Panicked, slots, w) \<Rightarrow> (Panicked, slots, [], w)
        | (Done _, slots, w) \<Rightarrow> (Done True, slots, [ack], w)))"

text \<open>One turn of the loop: handling a received message under \<open>catch_unwind\<close>.\<close>

definition writer_step ::
  "'c sink_ops \<Rightarrow> bool \<Rightarrow> bool \<Rightarrow> message \<Rightarrow> 'c sink_slot list \<Rightarrow> world \<Rightarrow>
     bool \<times> 'c sink_slot list \<times> nat list \<times> world" where
  "writer_step ops include_location json msg slots w =
     (case handle_message ops include_location json msg slots w of
        (Done stop, slots, acks, w) \<Rightarrow> (stop, slots, acks, w)
      | (Panicked, slots, acks, w) \<Rightarrow> (False, map (\<lambda>slot. slot\<lparr>degraded := True\<rparr>) slots, acks, w))"

text \<open>The loop on the messages that arrive before every sender is gone (the end of the list is the
  disconnection), with the final flush outside \<open>catch_unwind\<close>.\<close>

fun writer_loop ::
  "'c sink_ops \<Rightarrow> bool \<Rightarrow> bool \<Rightarrow> message list \<Rightarrow> 'c sink_slot list \<Rightarrow> world \<Rightarrow>
     unit outcome \<times> 'c sink_slot list \<times> nat list \<times> world" where
  "writer_loop ops include_location json [] slots w =
     (case slots_flush ops slots w of (r, slots, w) \<Rightarrow> (r, slots, [], w))"
| "writer_loop ops include_location json (msg # msgs) slots w =
     (case writer_step ops include_location json msg slots w of (stop, slots, acks, w) \<Rightarrow>
        if stop then (case slots_flush ops slots w of (r, slots, w) \<Rightarrow> (r, slots, acks, w))
        else (case writer_loop ops include_location json msgs slots w of
                (r, slots, acks', w) \<Rightarrow> (r, slots, acks @ acks', w)))"

end
