(* ===== verification/Xos_Delivery.thy ===== *)
theory Xos_Delivery
  imports Xos_Writer
begin

section \<open>What the writer thread guarantees\<close>

text \<open>
  The contract of a sink as the writer relies on it, its discharge for every sink of the crate, and
  two properties of the loop of the writer: the files of a file sink behind it, and what a flush that
  unwinds does. (Degraded sinks are the subject of \<open>Xos_Degradation\<close>.)
\<close>

subsection \<open>The contract of a sink\<close>

text \<open>No sink takes back what is on standard error, and none decides which later calls fail.\<close>

definition stderr_grows :: "world \<Rightarrow> world \<Rightarrow> bool" where
  "stderr_grows w w' \<longleftrightarrow> w_fault w' = w_fault w \<and> (\<exists>x. w_stderr w' = w_stderr w @ x)"

lemma stderr_grows_refl [simp]: "stderr_grows w w"
  by (simp add: stderr_grows_def)

lemma stderr_grows_trans: "stderr_grows w w' \<Longrightarrow> stderr_grows w' w'' \<Longrightarrow> stderr_grows w w''"
  by (auto simp: stderr_grows_def)

lemma stderr_grows_calm: "stderr_grows w w' \<Longrightarrow> calm w' \<longleftrightarrow> calm w"
  by (simp add: stderr_grows_def calm_def)

locale sink_contract =
  fixes write_entry :: "log_entry \<Rightarrow> bytes \<Rightarrow> 's \<Rightarrow> world \<Rightarrow> 's sink_result"
    and flush :: "'s \<Rightarrow> world \<Rightarrow> 's sink_result"
  assumes write_grows: "write_entry e bs s w = (r, s', w') \<Longrightarrow> stderr_grows w w'"
    and flush_grows: "flush s w = (r, s', w') \<Longrightarrow> stderr_grows w w'"
begin

lemma write_snd: "stderr_grows w (snd (snd (write_entry e bs s w)))"
  by (cases "write_entry e bs s w") (simp add: write_grows)

lemma flush_snd: "stderr_grows w (snd (snd (flush s w)))"
  by (cases "flush s w") (simp add: flush_grows)

end

lemma same_stderr_grows: "w_fault w' = w_fault w \<Longrightarrow> w_stderr w' = w_stderr w \<Longrightarrow> stderr_grows w w'"
  by (simp add: stderr_grows_def)

lemma syscall_std: "w_fault (snd (syscall w)) = w_fault w" "w_stderr (snd (syscall w)) = w_stderr w"
  by (simp_all add: syscall_def)

lemma std_flush_grows: "stderr_grows w (snd (std_flush w))"
  by (simp add: std_flush_def syscall_def stderr_grows_def split: option.split)

lemma stdout_write_all_grows: "stderr_grows w (snd (stdout_write_all bs w))"
  by (simp add: stdout_write_all_def syscall_def stderr_grows_def split: option.split)

lemma stdout_write_bytes_grows: "stderr_grows w (snd (stdout_write_bytes bs w))"
proof -
  obtain r w1 where 1: "stdout_write_all bs w = (r, w1)" by (cases "stdout_write_all bs w")
  then have "stderr_grows w w1" using stdout_write_all_grows [of w bs] by simp
  then show ?thesis
    using 1 stderr_grows_trans [OF _ std_flush_grows] by (cases r) (simp_all add: stdout_write_bytes_def)
qed

lemma stderr_write_all_grows: "stderr_grows w (snd (stderr_write_all bs w))"
  by (simp add: stderr_write_all_def syscall_def stderr_grows_def split: option.split)

lemma stderr_write_bytes_grows: "stderr_grows w (snd (stderr_write_bytes bs w))"
proof -
  obtain r w1 where 1: "stderr_write_all bs w = (r, w1)" by (cases "stderr_write_all bs w")
  then have "stderr_grows w w1" using stderr_write_all_grows [of w bs] by simp
  then show ?thesis
    using 1 stderr_grows_trans [OF _ std_flush_grows] by (cases r) (simp_all add: stderr_write_bytes_def)
qed

interpretation stdout_contract: sink_contract stdout_entry std_flush_op
proof unfold_locales
  fix e bs s w r s' w' assume "stdout_entry e bs s w = (r, s', w')"
  then show "stderr_grows w w'"
    using stdout_write_bytes_grows [of w bs]
    by (auto simp: stdout_entry_def default_write_entry_def stream_op_def split: prod.splits)
next
  fix s w r s' w' assume "std_flush_op s w = (r, s', w')"
  then show "stderr_grows w w'"
    using std_flush_grows [of w] by (auto simp: std_flush_op_def stream_op_def split: prod.splits)
qed

interpretation stderr_contract: sink_contract stderr_entry std_flush_op
proof unfold_locales
  fix e bs s w r s' w' assume "stderr_entry e bs s w = (r, s', w')"
  then show "stderr_grows w w'"
    using stderr_write_bytes_grows [of w bs]
    by (auto simp: stderr_entry_def default_write_entry_def stream_op_def split: prod.splits)
next
  fix s w r s' w' assume "std_flush_op s w = (r, s', w')"
  then show "stderr_grows w w'" by (rule stdout_contract.flush_grows)
qed

text \<open>The file operations do not touch the standard streams at all.\<close>

definition no_std :: "world \<Rightarrow> world \<Rightarrow> bool" where
  "no_std w w' \<longleftrightarrow> w_fault w' = w_fault w \<and> w_stderr w' = w_stderr w \<and> w_stdout w' = w_stdout w"

lemma no_std_refl [simp]: "no_std w w"
  by (simp add: no_std_def)

lemma no_std_trans: "no_std w w' \<Longrightarrow> no_std w' w'' \<Longrightarrow> no_std w w''"
  by (simp add: no_std_def)

lemma no_std_grows: "no_std w w' \<Longrightarrow> stderr_grows w w'"
  by (simp add: no_std_def stderr_grows_def)

lemma no_std_fs:
  "no_std w (snd (fs_rename a b w))" "no_std w (snd (fs_remove_file a w))" "no_std w (snd (fs_sync_all f w))"
  "no_std w (snd (fs_open_append a w))" "no_std w (snd (fs_open_truncate a w))"
  "no_std w (snd (snd (fs_write_all f bs w)))" "no_std w (snd (clock_now c w))"
  by (simp_all add: no_std_def fs_rename_def fs_remove_file_def fs_sync_all_def fs_open_append_def
      fs_open_truncate_def fs_lookup_create_def fs_write_all_def fs_put_def clock_now_def system_now_def
      syscall_def Let_def split: option.split clock.split)

lemma no_std_shift_loop: "no_std w (shift_loop p n w)"
  by (induction p n w rule: shift_loop.induct) (auto intro: no_std_trans no_std_fs)

lemma no_std_shift_backups: "no_std w (snd (shift_backups s w))"
  unfolding shift_backups_def Let_def
  by (rule no_std_trans [OF no_std_trans [OF no_std_fs(2) no_std_shift_loop] no_std_fs(1)])

lemma no_std_rotate_finish: "no_std w (snd (snd (rotate_finish f s w)))"
  using no_std_fs(7) [of w "fs_clock s"]
  by (cases "clock_now (fs_clock s) w") (simp add: rotate_finish_def Let_def)

lemma no_std_rotate_file: "no_std w (snd (snd (rotate_file s w)))"
proof -
  let ?w1 = "snd (fs_sync_all (fs_file s) w)"
  have 1: "no_std w ?w1" by (rule no_std_fs)
  obtain r2 w2 where 2: "shift_backups s ?w1 = (r2, w2)" by (cases "shift_backups s ?w1")
  then have w2: "no_std w w2" using no_std_trans [OF 1 no_std_shift_backups [of ?w1 s]] by simp
  obtain r3 w3 where 3: "fs_open_append (fs_path s) w2 = (r3, w3)" by (cases "fs_open_append (fs_path s) w2")
  then have w3: "no_std w w3" using no_std_trans [OF w2 no_std_fs(4) [of w2 "fs_path s"]] by simp
  obtain r4 w4 where 4: "fs_open_truncate (fs_path s) ?w1 = (r4, w4)" by (cases "fs_open_truncate (fs_path s) ?w1")
  then have w4: "no_std w w4" using no_std_trans [OF 1 no_std_fs(5) [of ?w1 "fs_path s"]] by simp
  show ?thesis
  proof (cases "fs_max_backups s > 0")
    case True
    then show ?thesis
      using 2 3 w2 w3 no_std_trans [OF w3 no_std_rotate_finish]
      by (cases r2; cases r3) (simp_all add: rotate_file_def fs_flush_def)
  next
    case False
    then show ?thesis
      using 4 w4 no_std_trans [OF w4 no_std_rotate_finish]
      by (cases r4) (simp_all add: rotate_file_def fs_flush_def)
  qed
qed

lemma no_std_file_append: "no_std w (snd (snd (file_append bs s w)))"
proof -
  obtain r f w1 where 1: "fs_write_all (fs_file s) bs w = (r, f, w1)" by (cases "fs_write_all (fs_file s) bs w")
  then have "no_std w w1" using no_std_fs(6) [of w "fs_file s" bs] by simp
  with 1 show ?thesis by (cases r) (simp_all add: file_append_def)
qed

lemma no_std_file_write: "no_std w (snd (snd (file_write_bytes bs s w)))"
proof -
  have el: "no_std w (snd (interval_elapsed s w))"
    using no_std_fs(7) [of w "fs_clock s"] by (cases "clock_now (fs_clock s) w") (simp add: interval_elapsed_def)
  obtain due w1 where 1: "(if size_hit s bs then (True, w) else interval_elapsed s w) = (due, w1)"
    by (cases "if size_hit s bs then (True, w) else interval_elapsed s w")
  then have w1: "no_std w w1" using el by (cases "size_hit s bs") auto
  obtain r s2 w2 where 2: "rotate_file s w1 = (r, s2, w2)" by (cases "rotate_file s w1")
  then have w2: "no_std w w2" using no_std_trans [OF w1 no_std_rotate_file [of w1 s]] by simp
  show ?thesis
    using 1 2 w2 no_std_trans [OF w1 no_std_file_append] no_std_trans [OF w2 no_std_file_append]
    by (cases due; cases r) (simp_all add: file_write_bytes_def)
qed

interpretation file_contract: sink_contract file_entry file_flush_op
proof unfold_locales
  fix e bs s w r s' w' assume "file_entry e bs s w = (r, s', w')"
  then show "stderr_grows w w'"
    using no_std_grows [OF no_std_file_write [of w bs s]]
    by (cases "file_write_bytes bs s w") (simp add: file_entry_def default_write_entry_def state_op_def)
next
  fix s w r s' w' assume "file_flush_op s w = (r, s', w')"
  then show "stderr_grows w w'" by (simp add: file_flush_op_def stream_op_def file_flush_def fs_flush_def)
qed

lemma only_sends_grows: "only_sends w w' \<Longrightarrow> stderr_grows w w'"
proof -
  assume "only_sends w w'"
  then have "w_fault w' = w_fault w" "w_stderr w' = w_stderr w"
    unfolding only_sends_def by (metis world.select_convs(3) world.surjective world.update_convs(4,11),
      metis world.select_convs(10) world.surjective world.update_convs(4,11))
  then show ?thesis by (rule same_stderr_grows)
qed

interpretation syslog_contract: sink_contract syslog_entry syslog_flush_op
proof unfold_locales
  fix e bs s w r s' w' assume "syslog_entry e bs s w = (r, s', w')"
  then obtain r0 where "syslog_deliver (le_level e) (le_timestamp e) bs s w = (r0, s', w')"
    by (cases "syslog_deliver (le_level e) (le_timestamp e) bs s w")
      (simp add: syslog_entry_def state_op_def syslog_write_entry_def)
  then show "stderr_grows w w'" using syslog_deliver_effect only_sends_grows by (auto simp: delivered_def)
next
  fix s w r s' w' assume "syslog_flush_op s w = (r, s', w')"
  then show "stderr_grows w w'" by (simp add: syslog_flush_op_def stream_op_def syslog_flush_def)
qed

lemma sock_send_grows: "stderr_grows w (snd (sock_send p bs w))"
  by (simp add: sock_send_def syscall_def stderr_grows_def split: option.split)

interpretation remote_contract: sink_contract remote_entry remote_flush_op
proof unfold_locales
  fix e bs s w r s' w' assume run: "remote_entry e bs s w = (r, s', w')"
  have "w' = snd (remote_write_entry e bs s w)"
    using run by (cases "remote_write_entry e bs s w") (simp add: remote_entry_def stream_op_def)
  then show "stderr_grows w w'"
    by (simp add: remote_write_entry_def remote_deliver_def Let_def sock_send_grows)
next
  fix s w r s' w' assume "remote_flush_op s w = (r, s', w')"
  then show "stderr_grows w w'" by (simp add: remote_flush_op_def stream_op_def remote_flush_def)
qed

text \<open>Dynamic dispatch keeps the contract when the caller's sink keeps it.\<close>

lemma wrap_sink_snd [simp]: "snd (snd (wrap_sink c r)) = snd (snd r)"
  by (simp add: wrap_sink_def split: prod.split)

lemmas crate_writes_grow =
  stdout_contract.write_snd stderr_contract.write_snd file_contract.write_snd
  syslog_contract.write_snd remote_contract.write_snd

lemmas crate_flushes_grow =
  stdout_contract.flush_snd file_contract.flush_snd syslog_contract.flush_snd remote_contract.flush_snd

lemma all_sinks_contract:
  assumes "sink_contract (op_write_entry ops) (op_flush ops)"
  shows "sink_contract (sink_write_entry ops) (sink_flush ops)"
proof
  fix e bs s w r s' w' assume run: "sink_write_entry ops e bs s w = (r, s', w')"
  have "stderr_grows w (snd (snd (sink_write_entry ops e bs s w)))"
    by (cases s) (simp_all add: sink_write_entry_def crate_writes_grow sink_contract.write_snd [OF assms])
  with run show "stderr_grows w w'" by simp
next
  fix s w r s' w' assume run: "sink_flush ops s w = (r, s', w')"
  have "stderr_grows w (snd (snd (sink_flush ops s w)))"
    by (cases s) (simp_all add: sink_flush_def crate_flushes_grow sink_contract.flush_snd [OF assms])
  with run show "stderr_grows w w'" by simp
qed

subsection \<open>Standard error through a whole message\<close>

lemma write_stderr_grows: "stderr_grows w (write_stderr bs w)"
  unfolding write_stderr_def by (rule stderr_grows_trans [OF stderr_write_all_grows std_flush_grows])

lemma write_stderr_calm: "calm w \<Longrightarrow> w_stderr (write_stderr bs w) = w_stderr w @ bs"
  by (simp add: write_stderr_def stderr_write_all_def std_flush_def syscall_calm)

lemma slot_write_grows:
  assumes "sink_contract (sink_write_entry ops) (sink_flush ops)" "slot_write ops e buf slot w = (slot', w')"
  shows "stderr_grows w w'"
proof -
  obtain r s w1 where 1: "sink_write_entry ops e buf (slot_sink slot) w = (r, s, w1)"
    by (cases "sink_write_entry ops e buf (slot_sink slot) w")
  have "stderr_grows w w1" using sink_contract.write_grows [OF assms(1) 1] .
  then have g: "stderr_grows w w1" "stderr_grows w (write_stderr bs w1)" for bs
    using stderr_grows_trans [OF _ write_stderr_grows] by blast+
  have "w' = w \<or> w' = write_stderr buf w \<or> w' = w1 \<or> w' = write_stderr fallback_notice w1"
    using assms(2) 1 by (auto simp: slot_write_def Let_def split: if_splits outcome.splits sum.splits)
  then show ?thesis using g write_stderr_grows by auto
qed

lemma slots_write_grows:
  assumes "sink_contract (sink_write_entry ops) (sink_flush ops)"
  shows "slots_write ops e buf slots w = (slots', w') \<Longrightarrow> stderr_grows w w'"
proof (induction slots arbitrary: w slots' w')
  case (Cons slot slots)
  obtain slot1 w1 where 1: "slot_write ops e buf slot w = (slot1, w1)" by (cases "slot_write ops e buf slot w")
  obtain slots2 w2 where 2: "slots_write ops e buf slots w1 = (slots2, w2)" by (cases "slots_write ops e buf slots w1")
  from Cons.prems 1 2 have "w' = w2" by simp
  then show ?case using slot_write_grows [OF assms 1] Cons.IH [OF 2] stderr_grows_trans by blast
qed simp

lemma slots_flush_grows:
  assumes "sink_contract (sink_write_entry ops) (sink_flush ops)"
  shows "slots_flush ops slots w = (r, slots', w') \<Longrightarrow> stderr_grows w w'"
proof (induction slots arbitrary: w slots' r w')
  case (Cons slot slots)
  obtain r1 s1 w1 where 1: "sink_flush ops (slot_sink slot) w = (r1, s1, w1)"
    by (cases "sink_flush ops (slot_sink slot) w")
  note g = sink_contract.flush_grows [OF assms 1]
  obtain r2 slots2 w2 where 2: "slots_flush ops slots w1 = (r2, slots2, w2)" by (cases "slots_flush ops slots w1")
  show ?case
  proof (cases r1)
    case Panicked
    then show ?thesis using Cons.prems 1 g by simp
  next
    case (Done x)
    then show ?thesis using Cons.prems 1 2 Cons.IH [OF 2] stderr_grows_trans [OF g] by simp
  qed
qed simp

lemma handle_message_grows:
  assumes "sink_contract (sink_write_entry ops) (sink_flush ops)"
    "handle_message ops il json msg slots w = (r, slots', acks, w')"
  shows "stderr_grows w w'"
proof (cases msg)
  case (MLog e)
  then show ?thesis
    using assms(2) slots_write_grows [OF assms(1)] by (auto simp: handle_message_def Let_def split: prod.splits)
next
  case (MFlush a)
  then show ?thesis
    using assms(2) slots_flush_grows [OF assms(1)]
    by (auto simp: handle_message_def split: prod.splits outcome.splits)
next
  case (MShutdown a)
  then show ?thesis
    using assms(2) slots_flush_grows [OF assms(1)]
    by (auto simp: handle_message_def split: prod.splits outcome.splits)
qed

lemma writer_step_grows:
  assumes "sink_contract (sink_write_entry ops) (sink_flush ops)"
    "writer_step ops il json msg slots w = (r, slots', acks, w')"
  shows "stderr_grows w w'"
proof -
  obtain r1 slots1 acks1 w1 where "handle_message ops il json msg slots w = (r1, slots1, acks1, w1)"
    by (cases "handle_message ops il json msg slots w")
  with handle_message_grows [OF assms(1) this] assms(2) show ?thesis
    by (cases r1) (simp_all add: writer_step_def)
qed

subsection \<open>A file sink behind the writer\<close>

lemma writer_step_log:
  "writer_step ops il json (MLog e) slots w =
     (case slots_write ops e (format_entry il json e) slots w of (slots, w) \<Rightarrow> (False, slots, [], w))"
  by (simp add: writer_step_def handle_message_def split: prod.split)

text \<open>The messages the writer handles: up to the first request to shut down. Of them, the records
  and the acknowledgement channels.\<close>

fun handled :: "message list \<Rightarrow> message list" where
  "handled [] = []"
| "handled (MShutdown a # ms) = [MShutdown a]"
| "handled (m # ms) = m # handled ms"

definition records_of :: "message list \<Rightarrow> log_entry list" where
  "records_of ms = concat (map (\<lambda>m. case m of MLog e \<Rightarrow> [e] | _ \<Rightarrow> []) ms)"

definition acks_of :: "message list \<Rightarrow> nat list" where
  "acks_of ms = concat (map (\<lambda>m. case m of MLog e \<Rightarrow> [] | MFlush a \<Rightarrow> [a] | MShutdown a \<Rightarrow> [a]) ms)"

definition file_records :: "bool \<Rightarrow> bool \<Rightarrow> level \<Rightarrow> message list \<Rightarrow> bytes list" where
  "file_records il json l ms =
     map (format_entry il json) (filter (\<lambda>e. l \<le> le_level e) (records_of ms))"

lemma file_records_simps [simp]:
  "file_records il json l [] = []"
  "file_records il json l (MLog e # ms) =
     (if l \<le> le_level e then [format_entry il json e] else []) @ file_records il json l ms"
  "file_records il json l (MFlush a # ms) = file_records il json l ms"
  "file_records il json l (MShutdown a # ms) = file_records il json l ms"
  by (simp_all add: file_records_def records_of_def)

lemma acks_of_simps [simp]:
  "acks_of [] = []" "acks_of (MLog e # ms) = acks_of ms" "acks_of (MFlush a # ms) = a # acks_of ms"
  "acks_of (MShutdown a # ms) = a # acks_of ms"
  by (simp_all add: acks_of_def)

definition file_slot :: "file_sink \<Rightarrow> level \<Rightarrow> 'c sink_slot" where
  "file_slot s l = slot_new (FileSink s) l"

lemma file_slot_inject [simp]: "file_slot s l = file_slot t k \<longleftrightarrow> s = t \<and> l = k"
  by (simp add: file_slot_def slot_new_def)

lemma file_slot_flush: "slots_flush ops [file_slot s l] w = (Done (), [file_slot s l], w)"
  by (simp add: file_slot_def slot_new_def sink_flush_def file_flush_op_def stream_op_def file_flush_def
      fs_flush_def wrap_sink_def)

lemma file_slot_skip: "le_level e < l \<Longrightarrow> slots_write ops e buf [file_slot s l] w = ([file_slot s l], w)"
  by (simp add: slot_write_def file_slot_def slot_new_def)

lemma file_slot_write:
  assumes "file_write_bytes buf s w = (Inr (), s', w')" "\<not> le_level e < l"
  shows "slots_write ops e buf [file_slot s l] w = ([file_slot s' l], w')"
  using assms
  by (simp add: slot_write_def file_slot_def slot_new_def sink_write_entry_def file_entry_def
      default_write_entry_def state_op_def wrap_sink_def Let_def)

lemma writer_step_file:
  "writer_step ops il json (MFlush a) [file_slot s l] w = (False, [file_slot s l], [a], w)"
  "writer_step ops il json (MShutdown a) [file_slot s l] w = (True, [file_slot s l], [a], w)"
  by (simp_all add: writer_step_def handle_message_def file_slot_flush del: slots_flush.simps)

text \<open>The state of the sink in the middle of a history.\<close>

definition file_history :: "file_sink \<Rightarrow> world \<Rightarrow> bytes list list \<Rightarrow> bool" where
  "file_history s w gens \<longleftrightarrow> gens_inv s w gens \<and> gens_bounded (fs_max_size s) gens \<and> gens_timed s w gens"

lemma file_history_start: "gens_inv s w [[]] \<Longrightarrow> start_read s w \<Longrightarrow> file_history s w [[]]"
  by (simp add: file_history_def gens_bounded_def start_read_timed)

definition same_sink :: "file_sink \<times> world \<Rightarrow> file_sink \<times> world \<Rightarrow> bool" where
  "same_sink a b \<longleftrightarrow> fs_max_backups (fst b) = fs_max_backups (fst a) \<and> fs_max_size (fst b) = fs_max_size (fst a) \<and>
     fs_interval (fst b) = fs_interval (fst a) \<and> fs_clock (fst b) = fs_clock (fst a) \<and>
     w_clock (snd b) = w_clock (snd a)"

lemma same_sink_refl [simp]: "same_sink a a"
  by (simp add: same_sink_def)

lemma same_sink_files: "same_sink a (s, w) \<Longrightarrow> same_files w w' \<Longrightarrow> same_sink a (s, w')"
  by (simp add: same_sink_def same_files_def)

lemma same_sink_trans: "same_sink a b \<Longrightarrow> same_sink b c \<Longrightarrow> same_sink a c"
  by (simp add: same_sink_def)

lemma file_history_write:
  assumes "file_history s w gens" "length (concat (concat gens)) + length bs < 2 ^ 64"
  obtains s' w' gens' where "file_write_bytes bs s w = (Inr (), s', w')" "file_history s' w' gens'"
    "concat gens' = concat gens @ [bs]" "same_sink (s, w) (s', w')"
proof -
  have h: "gens_inv s w gens" "gens_bounded (fs_max_size s) gens" "gens_timed s w gens"
    using assms(1) by (simp_all add: file_history_def)
  have "length (concat (last gens)) + length bs < 2 ^ 64"
    using assms(2) length_last_le [OF gens_inv_last(2) [OF h(1)]] by linarith
  then obtain s' w' gens' where "file_write_bytes bs s w = (Inr (), s', w')" "gens_inv s' w' gens'"
      "concat gens' = concat gens @ [bs]" "gens_bounded (fs_max_size s) gens'" "gens_timed s w gens \<longrightarrow> gens_timed s' w' gens'"
      "fs_max_backups s' = fs_max_backups s" "fs_max_size s' = fs_max_size s" "fs_interval s' = fs_interval s"
    by (rule file_write_gens [OF h(1) _ h(2)])
  with h(3) show thesis
    using that file_write_bytes_clock [of bs s w s' w'] by (simp add: file_history_def same_sink_def)
qed

lemma file_records_append [simp]:
  "file_records il json l (ms @ ms') = file_records il json l ms @ file_records il json l ms'"
  by (simp add: file_records_def records_of_def)

lemma file_history_files: "file_history s w gens \<Longrightarrow> same_files w w' \<Longrightarrow> file_history s w' gens"
  by (auto simp: file_history_def intro: gens_inv_files gens_timed_same)

text \<open>One message, with a file sink behind the writer.\<close>

lemma writer_step_history:
  assumes "file_history s w gens"
    "length (concat (concat gens)) + length (concat (file_records il json l [msg])) < 2 ^ 64"
  obtains s' w' gens' where
    "writer_step ops il json msg [file_slot s l] w = (\<exists>a. msg = MShutdown a, [file_slot s' l], acks_of [msg], w')"
    "file_history s' w' gens'" "concat gens' = concat gens @ file_records il json l [msg]"
    "same_sink (s, w) (s', w')"
proof (cases msg)
  case (MLog e)
  let ?buf = "format_entry il json e"
  show thesis
  proof (cases "le_level e < l")
    case True
    then have "writer_step ops il json msg [file_slot s l] w = (False, [file_slot s l], [], w)"
      by (simp add: MLog writer_step_log file_slot_skip del: slots_write.simps)
    with True assms(1) MLog show thesis by (intro that [of s w gens]) auto
  next
    case False
    then have "l \<le> le_level e" by simp
    then have "length (concat (concat gens)) + length ?buf < 2 ^ 64" using assms(2) MLog by simp
    then obtain s' w' gens' where 1: "file_write_bytes ?buf s w = (Inr (), s', w')" "file_history s' w' gens'"
        "concat gens' = concat gens @ [?buf]" "same_sink (s, w) (s', w')"
      using file_history_write [OF assms(1)] by metis
    have "writer_step ops il json msg [file_slot s l] w = (False, [file_slot s' l], [], w')"
      by (simp add: MLog writer_step_log file_slot_write [OF 1(1) False] del: slots_write.simps)
    with \<open>l \<le> le_level e\<close> MLog 1(2-4) show thesis by (intro that [of s' w' gens']) auto
  qed
qed (use assms(1) in \<open>auto simp: writer_step_file intro!: that [of s w gens]\<close>)

lemma handled_Cons: "handled (msg # msgs) = msg # (if \<exists>a. msg = MShutdown a then [] else handled msgs)"
  by (cases msg) simp_all

lemma acks_of_Cons: "acks_of (msg # msgs) = acks_of [msg] @ acks_of msgs"
  by (cases msg) simp_all

lemma file_records_Cons:
  "file_records il json l (msg # msgs) = file_records il json l [msg] @ file_records il json l msgs"
  by (cases msg) simp_all

lemma writer_file_loop:
  "file_history s w gens \<Longrightarrow>
   length (concat (concat gens)) + length (concat (file_records il json l (handled msgs))) < 2 ^ 64 \<Longrightarrow>
   \<exists>s' w' gens'. writer_loop ops il json msgs [file_slot s l] w =
       (Done (), [file_slot s' l], acks_of (handled msgs), w') \<and>
     file_history s' w' gens' \<and> concat gens' = concat gens @ file_records il json l (handled msgs) \<and>
     same_sink (s, w) (s', w')"
proof (induction msgs arbitrary: s w gens)
  case Nil
  then show ?case by (auto simp: file_slot_flush simp del: slots_flush.simps)
next
  case (Cons msg msgs)
  let ?stop = "\<exists>a. msg = MShutdown a"
  have len: "length (concat (concat gens)) + length (concat (file_records il json l [msg])) < 2 ^ 64"
    using Cons.prems(2) by (simp add: handled_Cons file_records_Cons [of il json l msg "if _ then _ else _"])
  obtain s1 w1 gens1 where 1: "writer_step ops il json msg [file_slot s l] w = (?stop, [file_slot s1 l], acks_of [msg], w1)"
      "file_history s1 w1 gens1" "concat gens1 = concat gens @ file_records il json l [msg]"
      "same_sink (s, w) (s1, w1)"
    by (rule writer_step_history [OF Cons.prems(1) len])
  show ?case
  proof (cases ?stop)
    case True
    then show ?thesis using 1
      by (auto simp: file_slot_flush simp del: slots_flush.simps)
  next
    case False
    then have h: "handled (msg # msgs) = msg # handled msgs" by (simp add: handled_Cons)
    have "length (concat (concat gens1)) + length (concat (file_records il json l (handled msgs))) < 2 ^ 64"
      using Cons.prems(2) by (simp add: h 1(3) file_records_Cons [of il json l msg "handled msgs"])
    from Cons.IH [OF 1(2) this] obtain s' w' gens' where 2: "writer_loop ops il json msgs [file_slot s1 l] w1 =
        (Done (), [file_slot s' l], acks_of (handled msgs), w')" "file_history s' w' gens'"
        "concat gens' = concat gens1 @ file_records il json l (handled msgs)" "same_sink (s1, w1) (s', w')"
      by blast
    have "same_sink (s, w) (s', w')" using 1(4) 2(4) same_sink_trans by blast
    with 1 2(1-3) False show ?thesis
      by (auto simp: h acks_of_Cons [of msg "handled msgs"] file_records_Cons [of il json l msg "handled msgs"])
  qed
qed

subsection \<open>A flush that unwinds\<close>

lemma slots_flush_append:
  "slots_flush ops pre w = (Done (), pre', w1) \<Longrightarrow>
     slots_flush ops (pre @ rest) w = (case slots_flush ops rest w1 of (r, rest, w) \<Rightarrow> (r, pre' @ rest, w))"
proof (induction pre arbitrary: w pre')
  case (Cons slot pre)
  obtain r s w2 where 1: "sink_flush ops (slot_sink slot) w = (r, s, w2)"
    by (cases "sink_flush ops (slot_sink slot) w")
  obtain x where x: "r = Done x" using Cons.prems 1 by (cases r) auto
  obtain pre2 where 2: "slots_flush ops pre w2 = (Done (), pre2, w1)" "pre' = slot\<lparr>slot_sink := s\<rparr> # pre2"
    using Cons.prems 1 x by (cases "slots_flush ops pre w2") auto
  show ?case using 1 x 2(2) Cons.IH [OF 2(1)] by (simp split: prod.split)
qed (simp split: prod.split)

subsection \<open>Properties\<close>

text \<open>A sink all of whose calls unwind.\<close>

definition panicking_ops :: "unit sink_ops" where
  "panicking_ops = \<lparr>op_write_entry = (\<lambda>e bs s w. (Panicked, s, w)), op_flush = (\<lambda>s w. (Panicked, s, w))\<rparr>"

lemma panicking_ops_contract: "sink_contract (op_write_entry panicking_ops) (op_flush panicking_ops)"
  by unfold_locales (auto simp: panicking_ops_def)

text \<open>With a single file sink and no failing call, the writer handles the messages up to
  the first shutdown, acknowledges every flush and the shutdown in order, and leaves in the files
  exactly the formatted records at or above the level of the slot, in order: the last generations of
  that stream, as a file sink keeps them.\<close>

theorem writer_delivers_to_file:
  assumes "calm w" "\<forall>k \<le> mb. w_dir w (gen_path p k) = None"
    "length (concat (file_records il json l (handled msgs))) < 2 ^ 64"
  shows "\<exists>s0 w0 s' w' gens. open_with p ms mb iv c w = (Inr s0, w0) \<and>
    writer_loop ops il json msgs [slot_new (FileSink s0) l] w0 =
      (Done (), [slot_new (FileSink s') l], acks_of (handled msgs), w') \<and>
    concat gens = file_records il json l (handled msgs) \<and> holds_history s' w' mb gens \<and> gens_bounded ms gens"
proof -
  obtain s0 w0 where op: "open_with p ms mb iv c w = (Inr s0, w0)" "gens_inv s0 w0 [[]]"
      "fs_max_size s0 = ms" "fs_max_backups s0 = mb" "start_read s0 w0"
    using open_with_fresh [OF assms(1,2)] by metis
  have "file_history s0 w0 [[]]" using file_history_start [OF op(2,5)] .
  from writer_file_loop [OF this, of il json l msgs ops] assms(3)
  obtain s' w' gens where run: "writer_loop ops il json msgs [file_slot s0 l] w0 =
      (Done (), [file_slot s' l], acks_of (handled msgs), w')" "file_history s' w' gens"
      "concat gens = file_records il json l (handled msgs)" "fs_max_backups s' = mb" "fs_max_size s' = ms"
    using op(3,4) by (auto simp: same_sink_def)
  have "holds_history s' w' mb gens" "gens_bounded ms gens"
    using run(2,4,5) by (simp_all add: file_history_def gens_inv_def holds_history_def)
  with op(1) run(1,3) show ?thesis unfolding file_slot_def by blast
qed

definition plain_example :: log_entry where
  "plain_example = \<lparr>le_timestamp = example_time, le_level = Info, le_message = lit ''hi'', le_target = [],
     le_file = [], le_line = 0, le_fields = []\<rparr>"

lemma replicate_5: "replicate 5 x = [x, x, x, x, x]"
  by (simp add: numeral_eq_Suc)

lemma display_example_time: "display_timestamp example_time = lit ''2026-08-03T04:05:06.000000Z''"
  by (simp add: display_timestamp_def display_offset_def example_time_def fmt_int0_def pad_zero_def
      fmt_nat_small fmt_nat_big replicate_5)

lemma format_plain_example:
  "format_entry True False plain_example = utf8 (lit ''2026-08-03T04:05:06.000000Z [INFO] hi'') @ [10]"
  by (simp add: format_entry_def format_record_def plain_example_def location_def display_example_time
      level_as_str_def del: utf8_simps)

theorem writer_delivers_to_file_witness:
  "\<exists>s0 w0 s' w' gens. open_with (lit ''app.log'') 0 3 Daily System quiet_world = (Inr s0, w0) \<and>
    writer_loop panicking_ops True False [MLog plain_example, MFlush 5, MShutdown 6, MFlush 7]
      [slot_new (FileSink s0) Debug] w0 = (Done (), [slot_new (FileSink s') Debug], [5, 6], w') \<and>
    concat gens = [utf8 (lit ''2026-08-03T04:05:06.000000Z [INFO] hi'') @ [10]] \<and>
    holds_history s' w' 3 gens \<and> gens_bounded 0 gens"
proof -
  let ?ms = "[MLog plain_example, MFlush 5, MShutdown 6, MFlush 7]"
  have recs: "file_records True False Debug (handled ?ms) =
      [utf8 (lit ''2026-08-03T04:05:06.000000Z [INFO] hi'') @ [10]]"
  proof -
    have "Debug \<le> le_level plain_example" by (simp add: plain_example_def level_order_defs)
    then show ?thesis by (simp add: format_plain_example del: utf8_simps lit_simps)
  qed
  have acks: "acks_of (handled ?ms) = [5, 6]" by simp
  have "length (concat (file_records True False Debug (handled ?ms))) < 2 ^ 64"
    unfolding recs by (simp add: utf8_ascii del: utf8_simps)
  moreover have "calm quiet_world" "\<forall>k \<le> 3. w_dir quiet_world (gen_path (lit ''app.log'') k) = None"
    by (simp_all add: calm_def quiet_world_def)
  ultimately show ?thesis
    using writer_delivers_to_file [of quiet_world 3 "lit ''app.log''" True False Debug ?ms 0 Daily System panicking_ops]
    unfolding recs acks by blast
qed

text \<open>When the flush of one sink unwinds while a flush or a shutdown is handled, all
  slots are degraded, not only that one, the request is not acknowledged, and the writer does not
  stop: a shutdown then neither finishes nor ends the thread.\<close>

theorem unwinding_flush_degrades_all_sinks:
  assumes "slots = pre @ slot # post" "slots_flush ops pre w = (Done (), pre', w1)"
    "sink_flush ops (slot_sink slot) w1 = (Panicked, s', w2)" "msg = MFlush a \<or> msg = MShutdown a"
  shows "writer_step ops il json msg slots w =
    (False, map (\<lambda>sl. sl\<lparr>degraded := True\<rparr>) (pre' @ slot\<lparr>slot_sink := s'\<rparr> # post), [], w2)"
  using assms slots_flush_append [OF assms(2), of "slot # post"]
  by (auto simp: writer_step_def handle_message_def)

theorem unwinding_flush_degrades_all_sinks_witness:
  "writer_step panicking_ops True False (MShutdown 1) [slot_new StdoutSink Trace, slot_new (CustomSink ()) Trace] quiet_world =
    (False, [(slot_new StdoutSink Trace)\<lparr>degraded := True\<rparr>, (slot_new (CustomSink ()) Trace)\<lparr>degraded := True\<rparr>], [],
     quiet_world\<lparr>w_calls := 1\<rparr>)"
proof -
  let ?pre = "[slot_new StdoutSink Trace :: unit sink_slot]" and ?w1 = "quiet_world\<lparr>w_calls := 1\<rparr>"
  have "slots_flush panicking_ops ?pre quiet_world = (Done (), ?pre, ?w1)"
    by (simp add: slot_new_def sink_flush_def std_flush_op_def stream_op_def std_flush_def syscall_def
        wrap_sink_def quiet_world_def)
  moreover have "sink_flush panicking_ops (slot_sink (slot_new (CustomSink ()) Trace)) ?w1 =
      (Panicked, CustomSink (), ?w1)"
    by (simp add: slot_new_def sink_flush_def panicking_ops_def wrap_sink_def)
  ultimately show ?thesis
    using unwinding_flush_degrades_all_sinks [of "?pre @ [slot_new (CustomSink ()) Trace]" ?pre
        "slot_new (CustomSink ()) Trace" "[]" panicking_ops quiet_world ?pre ?w1 "CustomSink ()" ?w1 "MShutdown 1" 1]
    by (simp add: slot_new_def)
qed

end
