(* ===== verification/Xos_Context.thy ===== *)
theory Xos_Context
  imports Xos_Entry
begin

section \<open>Thread-local context (\<open>src/context.rs\<close>)\<close>

text \<open>
  A stack of frames per thread and one process-wide counter of frame identifiers. A guard
  holds the identifier of the frame it pushed; dropping it removes that frame wherever it is
  on the stack of its thread. The counter is an \<open>AtomicUsize\<close>: \<open>fetch_add\<close> returns the old
  value and wraps. Threads are named by numbers; a thread that never pushed has an empty stack.
\<close>

type_synonym tid = nat

record frame =
  fr_id :: usize
  fr_fields :: "field list"

record ctx_state =
  next_frame_id :: usize
  context_stack :: "tid \<Rightarrow> frame list"

record context_guard =
  guard_id :: usize

record context_snapshot =
  snap_fields :: "field list"

definition ctx_init :: ctx_state where
  "ctx_init = \<lparr>next_frame_id = 1, context_stack = (\<lambda>_. [])\<rparr>"

definition guard_new :: "usize \<Rightarrow> context_guard" where
  "guard_new i = \<lparr>guard_id = i\<rparr>"

definition push_context :: "tid \<Rightarrow> field list \<Rightarrow> ctx_state \<Rightarrow> context_guard \<times> ctx_state" where
  "push_context t fs st =
     (let i = next_frame_id st;
          st1 = st\<lparr>next_frame_id := i + 1\<rparr>;
          fr = \<lparr>fr_id = i, fr_fields = fs\<rparr>;
          st2 = st1\<lparr>context_stack := (context_stack st1)(t := context_stack st1 t @ [fr])\<rparr>
      in (guard_new i, st2))"

text \<open>\<open>stack.iter().position(...)\<close> followed by \<open>stack.remove(pos)\<close>.\<close>

fun frame_position :: "usize \<Rightarrow> frame list \<Rightarrow> nat option" where
  "frame_position i [] = None"
| "frame_position i (f # fs) =
     (if fr_id f = i then Some 0 else map_option Suc (frame_position i fs))"

definition remove_at :: "nat \<Rightarrow> 'a list \<Rightarrow> 'a list" where
  "remove_at n xs = take n xs @ drop (Suc n) xs"

definition guard_drop :: "tid \<Rightarrow> context_guard \<Rightarrow> ctx_state \<Rightarrow> ctx_state" where
  "guard_drop t g st =
     (case frame_position (guard_id g) (context_stack st t) of
        Some pos \<Rightarrow>
          st\<lparr>context_stack := (context_stack st)(t := remove_at pos (context_stack st t))\<rparr>
      | None \<Rightarrow> st)"

fun merge_fields :: "field list \<Rightarrow> field list \<Rightarrow> field list" where
  "merge_fields [] merged = merged"
| "merge_fields (f # fs) merged = merge_fields fs (upsert f_key f merged)"

fun merge_frames :: "frame list \<Rightarrow> field list \<Rightarrow> field list" where
  "merge_frames [] merged = merged"
| "merge_frames (fr # frs) merged = merge_frames frs (merge_fields (fr_fields fr) merged)"

definition current_context :: "tid \<Rightarrow> ctx_state \<Rightarrow> field list" where
  "current_context t st =
     (if context_stack st t = [] then [] else merge_frames (context_stack st t) [])"

definition capture_context :: "tid \<Rightarrow> ctx_state \<Rightarrow> context_snapshot" where
  "capture_context t st = \<lparr>snap_fields = current_context t st\<rparr>"

definition snapshot_enter :: "tid \<Rightarrow> context_snapshot \<Rightarrow> ctx_state \<Rightarrow> context_guard \<times> ctx_state" where
  "snapshot_enter t snap st = push_context t (snap_fields snap) st"

definition snapshot_default :: context_snapshot where
  "snapshot_default = \<lparr>snap_fields = []\<rparr>"

subsection \<open>The merge as a keyed store\<close>

text \<open>The overwrite-or-push of the code is \<open>upsert f_key\<close>; the facts about it are those of
  the interpretation \<open>upsert_store\<close> of the prelude, at the key of a field.\<close>

abbreviation put_fields :: "field list \<Rightarrow> field list \<Rightarrow> field list" where
  "put_fields \<equiv> upsert_store.puts TYPE(rstr) f_key"

lemma merge_fields_puts: "merge_fields fs m = put_fields fs m"
  by (induction fs arbitrary: m) simp_all

lemma merge_frames_puts: "merge_frames frs m = put_fields (concat (map fr_fields frs)) m"
  by (induction frs arbitrary: m) (simp_all add: merge_fields_puts upsert_store.puts_def)

lemma current_context_puts:
  "current_context t st = put_fields (concat (map fr_fields (context_stack st t))) []"
  by (simp add: current_context_def merge_frames_puts)

lemma current_context_distinct: "distinct (map f_key (current_context t st))"
  by (simp add: current_context_puts upsert_store.puts_distinct)

lemma current_context_find:
  "find_key f_key k (current_context t st) =
     find_key f_key k (rev (concat (map fr_fields (context_stack st t))))"
  by (simp add: current_context_puts upsert_store.puts_find split: option.split)

lemma puts_distinct_id: "distinct (map f_key (xs @ fs)) \<Longrightarrow> put_fields fs xs = xs @ fs"
proof (induction fs arbitrary: xs)
  case (Cons f fs)
  have "upsert f_key f xs = xs @ [f]"
    using Cons.prems by (induction xs) (auto simp: image_iff)
  with Cons.IH [of "xs @ [f]"] Cons.prems show ?case by simp
qed simp

subsection \<open>Identifiers: removing a frame by position is filtering it out\<close>

lemma frame_position_None [simp]: "frame_position i fs = None \<longleftrightarrow> i \<notin> fr_id ` set fs"
  by (induction fs) (auto simp: image_iff)

lemma remove_position:
  "distinct (map fr_id fs) \<Longrightarrow> frame_position i fs = Some n \<Longrightarrow>
     remove_at n fs = filter (\<lambda>f. fr_id f \<noteq> i) fs"
proof (induction fs arbitrary: n)
  case (Cons f fs)
  show ?case
  proof (cases "fr_id f = i")
    case True
    with Cons.prems have "\<forall>g \<in> set fs. fr_id g \<noteq> i" by (auto simp: image_iff)
    with True Cons.prems show ?thesis by (simp add: remove_at_def)
  next
    case False
    with Cons.prems obtain m where "frame_position i fs = Some m" "n = Suc m" by auto
    with False Cons.IH [of m] Cons.prems show ?thesis by (simp add: remove_at_def)
  qed
qed simp

lemma guard_drop_stack:
  "distinct (map fr_id (context_stack st t)) \<Longrightarrow>
     context_stack (guard_drop t g st) =
       (context_stack st)(t := filter (\<lambda>f. fr_id f \<noteq> guard_id g) (context_stack st t))"
proof (cases "frame_position (guard_id g) (context_stack st t)")
  case None
  then have "filter (\<lambda>f. fr_id f \<noteq> guard_id g) (context_stack st t) = context_stack st t"
    by (auto simp: filter_id_conv image_iff)
  with None show ?thesis by (simp only: guard_drop_def option.case) simp
next
  case (Some n)
  assume "distinct (map fr_id (context_stack st t))"
  with Some show ?thesis by (simp add: guard_drop_def remove_position)
qed

lemma guard_drop_next [simp]: "next_frame_id (guard_drop t g st) = next_frame_id st"
  by (simp add: guard_drop_def split: option.split)

lemma push_context_simps [simp]:
  "guard_id (fst (push_context t fs st)) = next_frame_id st"
  "next_frame_id (snd (push_context t fs st)) = next_frame_id st + 1"
  "context_stack (snd (push_context t fs st)) =
     (context_stack st)(t := context_stack st t @ [\<lparr>fr_id = next_frame_id st, fr_fields = fs\<rparr>])"
  by (simp_all add: push_context_def guard_new_def Let_def)

subsection \<open>Programs: pushes, captures, entered snapshots and drops in any order\<close>

text \<open>
  What the threads of a process can do with the interface. The \<open>n\<close>-th guard returned by
  \<open>CPush\<close> or \<open>CEnter\<close> can be dropped later, on the thread that holds it (a guard is neither
  \<open>Send\<close> nor \<open>Sync\<close>), and the \<open>n\<close>-th snapshot entered on any thread. An index that names no
  object does nothing.
\<close>

datatype ctx_op =
    CPush tid "field list"
  | CCapture tid
  | CEnter tid nat
  | CDrop nat

record ctx_prog =
  cp_state :: ctx_state
  cp_guards :: "(tid \<times> context_guard) list"
  cp_snaps :: "context_snapshot list"

definition cp_init :: ctx_prog where
  "cp_init = \<lparr>cp_state = ctx_init, cp_guards = [], cp_snaps = []\<rparr>"

definition cp_hold :: "tid \<Rightarrow> context_guard \<times> ctx_state \<Rightarrow> ctx_prog \<Rightarrow> ctx_prog" where
  "cp_hold t r p = p\<lparr>cp_state := snd r, cp_guards := cp_guards p @ [(t, fst r)]\<rparr>"

fun ctx_step :: "ctx_op \<Rightarrow> ctx_prog \<Rightarrow> ctx_prog" where
  "ctx_step (CPush t fs) p = cp_hold t (push_context t fs (cp_state p)) p"
| "ctx_step (CCapture t) p = p\<lparr>cp_snaps := cp_snaps p @ [capture_context t (cp_state p)]\<rparr>"
| "ctx_step (CEnter t n) p =
     (if n < length (cp_snaps p)
      then cp_hold t (snapshot_enter t (cp_snaps p ! n) (cp_state p)) p else p)"
| "ctx_step (CDrop n) p =
     (if n < length (cp_guards p)
      then p\<lparr>cp_state := guard_drop (fst (cp_guards p ! n)) (snd (cp_guards p ! n)) (cp_state p)\<rparr>
      else p)"

definition ctx_run :: "ctx_op list \<Rightarrow> ctx_prog" where
  "ctx_run ops = foldl (\<lambda>p o'. ctx_step o' p) cp_init ops"

text \<open>The promise: scopes are numbered in the order they were opened, a drop closes the scope it
  names and no other, and the context of a thread is made of its open scopes, outermost first.\<close>

record scope =
  sc_no :: nat
  sc_thread :: tid
  sc_fields :: "field list"

record scopes =
  s_opened :: nat
  s_owner :: "tid list"
  s_open :: "scope list"
  s_snaps :: "field list list"

definition scopes_init :: scopes where
  "scopes_init = \<lparr>s_opened = 0, s_owner = [], s_open = [], s_snaps = []\<rparr>"

definition scope_context :: "tid \<Rightarrow> scopes \<Rightarrow> field list" where
  "scope_context t a = put_fields (concat (map sc_fields (filter (\<lambda>s. sc_thread s = t) (s_open a)))) []"

definition open_scope :: "tid \<Rightarrow> field list \<Rightarrow> scopes \<Rightarrow> scopes" where
  "open_scope t fs a = a\<lparr>s_opened := Suc (s_opened a), s_owner := s_owner a @ [t],
     s_open := s_open a @ [\<lparr>sc_no = s_opened a, sc_thread = t, sc_fields = fs\<rparr>]\<rparr>"

fun scopes_step :: "ctx_op \<Rightarrow> scopes \<Rightarrow> scopes" where
  "scopes_step (CPush t fs) a = open_scope t fs a"
| "scopes_step (CCapture t) a = a\<lparr>s_snaps := s_snaps a @ [scope_context t a]\<rparr>"
| "scopes_step (CEnter t n) a = (if n < length (s_snaps a) then open_scope t (s_snaps a ! n) a else a)"
| "scopes_step (CDrop n) a = a\<lparr>s_open := filter (\<lambda>s. sc_no s \<noteq> n) (s_open a)\<rparr>"

definition scopes_run :: "ctx_op list \<Rightarrow> scopes" where
  "scopes_run ops = foldl (\<lambda>a o'. scopes_step o' a) scopes_init ops"

text \<open>The simulation: the identifier of scope \<open>n\<close> is \<open>n + 1\<close>, as a word.\<close>

definition scope_frame :: "scope \<Rightarrow> frame" where
  "scope_frame s = \<lparr>fr_id = word_of_nat (Suc (sc_no s)), fr_fields = sc_fields s\<rparr>"

definition ctx_sim :: "ctx_prog \<Rightarrow> scopes \<Rightarrow> bool" where
  "ctx_sim p a \<longleftrightarrow>
     next_frame_id (cp_state p) = word_of_nat (Suc (s_opened a)) \<and>
     (\<forall>t. context_stack (cp_state p) t = map scope_frame (filter (\<lambda>s. sc_thread s = t) (s_open a))) \<and>
     cp_guards p = map (\<lambda>n. (s_owner a ! n, guard_new (word_of_nat (Suc n)))) [0..<s_opened a] \<and>
     length (s_owner a) = s_opened a \<and>
     map snap_fields (cp_snaps p) = s_snaps a \<and>
     distinct (map sc_no (s_open a)) \<and>
     (\<forall>s \<in> set (s_open a). sc_no s < s_opened a \<and> sc_thread s = s_owner a ! sc_no s)"

lemma scope_ids_inject:
  "m < 2 ^ 64 \<Longrightarrow> n < 2 ^ 64 \<Longrightarrow> (word_of_nat (Suc m) :: usize) = word_of_nat (Suc n) \<longleftrightarrow> m = n"
proof -
  assume "m < 2 ^ 64" "n < 2 ^ 64"
  then have "(word_of_nat m :: usize) = word_of_nat n \<longleftrightarrow> m = n"
    by (simp add: word_of_nat_eq_iff take_bit_nat_eq_self)
  then show ?thesis by (simp only: of_nat_Suc add_left_cancel)
qed

lemma ctx_sim_context:
  "ctx_sim p a \<Longrightarrow> current_context t (cp_state p) = scope_context t a"
  by (simp add: ctx_sim_def current_context_puts scope_context_def scope_frame_def comp_def)

lemma ctx_sim_init: "ctx_sim cp_init scopes_init"
  by (simp add: ctx_sim_def cp_init_def scopes_init_def ctx_init_def)

lemma ctx_sim_open:
  assumes "ctx_sim p a"
  shows "ctx_sim (cp_hold t (push_context t fs (cp_state p)) p) (open_scope t fs a)"
proof -
  have owner: "map (\<lambda>n. (s_owner a ! n, g n)) [0..<s_opened a] =
      map (\<lambda>n. ((s_owner a @ [t]) ! n, g n)) [0..<s_opened a]" for g :: "nat \<Rightarrow> context_guard"
    using assms by (intro map_cong) (auto simp: ctx_sim_def nth_append)
  show ?thesis
    using assms owner [of "\<lambda>n. guard_new (word_of_nat (Suc n))"]
    by (auto simp: ctx_sim_def cp_hold_def open_scope_def scope_frame_def push_context_def Let_def
        nth_append)
qed

lemma ctx_sim_drop:
  assumes sim: "ctx_sim p a" and n: "n < s_opened a" and small: "s_opened a \<le> 2 ^ 64"
  shows "ctx_sim (ctx_step (CDrop n) p) (scopes_step (CDrop n) a)"
proof -
  let ?t = "s_owner a ! n" and ?g = "guard_new (word_of_nat (Suc n))"
  have guard: "n < length (cp_guards p)" "cp_guards p ! n = (?t, ?g)"
    using sim n by (simp_all add: ctx_sim_def)
  have stack: "context_stack (cp_state p) t =
      map scope_frame (filter (\<lambda>s. sc_thread s = t) (s_open a))" for t
    using sim by (simp add: ctx_sim_def)
  have same: "fr_id (scope_frame s) = word_of_nat (Suc m) \<longleftrightarrow> sc_no s = m"
    if "s \<in> set (s_open a)" "m < s_opened a" for s m
    using that sim small by (auto simp: ctx_sim_def scope_frame_def simp del: of_nat_Suc
        intro!: scope_ids_inject)
  have "inj_on (\<lambda>s. fr_id (scope_frame s)) (set (s_open a))"
  proof (rule inj_onI)
    fix s s' assume s: "s \<in> set (s_open a)" "s' \<in> set (s_open a)"
      and eq: "fr_id (scope_frame s) = fr_id (scope_frame s')"
    have "sc_no s = sc_no s'"
      using same [of s "sc_no s'"] s sim eq by (auto simp: ctx_sim_def scope_frame_def)
    then show "s = s'" using s sim by (auto simp: ctx_sim_def distinct_map inj_on_def)
  qed
  moreover have "distinct (s_open a)" using sim by (simp add: ctx_sim_def distinct_map)
  ultimately have "distinct (map (\<lambda>s. fr_id (scope_frame s)) (filter (\<lambda>s. sc_thread s = ?t) (s_open a)))"
    by (auto simp: distinct_map inj_on_def)
  then have dist: "distinct (map fr_id (context_stack (cp_state p) ?t))"
    by (simp add: stack comp_def)
  have filt: "filter (\<lambda>f. fr_id f \<noteq> guard_id ?g) (context_stack (cp_state p) ?t) =
      map scope_frame (filter (\<lambda>s. sc_thread s = ?t) (filter (\<lambda>s. sc_no s \<noteq> n) (s_open a)))"
    using same n by (auto simp: stack filter_map comp_def guard_new_def simp del: of_nat_Suc
        intro!: arg_cong [where f = "map scope_frame"] filter_cong)
  have other: "filter (\<lambda>s. sc_thread s = t) (filter (\<lambda>s. sc_no s \<noteq> n) (s_open a)) =
      filter (\<lambda>s. sc_thread s = t) (s_open a)" if "t \<noteq> ?t" for t
    using sim that by (auto simp: ctx_sim_def intro!: filter_cong)
  have "context_stack (guard_drop ?t ?g (cp_state p)) t =
      map scope_frame (filter (\<lambda>s. sc_thread s = t) (filter (\<lambda>s. sc_no s \<noteq> n) (s_open a)))" for t
    using dist filt other [of t] by (cases "t = ?t") (simp_all add: guard_drop_stack stack)
  then show ?thesis
    using sim guard by (simp add: ctx_sim_def distinct_map_filter)
qed

definition opens :: "ctx_op \<Rightarrow> bool" where
  "opens o' = (case o' of CPush _ _ \<Rightarrow> True | CEnter _ _ \<Rightarrow> True | _ \<Rightarrow> False)"

lemma opened_step: "s_opened (scopes_step o' a) \<le> s_opened a + (if opens o' then 1 else 0)"
  by (cases o') (simp_all add: opens_def open_scope_def)

lemma opened_run: "s_opened (scopes_run ops) \<le> length (filter opens ops)"
proof (induction ops rule: rev_induct)
  case (snoc o' ops)
  then show ?case using opened_step [of o' "scopes_run ops"]
    by (simp add: scopes_run_def split: if_splits)
qed (simp add: scopes_run_def scopes_init_def)

lemma ctx_sim_step:
  assumes sim: "ctx_sim p a" and small: "s_opened a \<le> 2 ^ 64"
  shows "ctx_sim (ctx_step o' p) (scopes_step o' a)"
proof (cases o')
  case (CPush t fs)
  with ctx_sim_open [OF sim] show ?thesis by simp
next
  case (CCapture t)
  with sim show ?thesis
    by (simp add: ctx_sim_context [OF sim] capture_context_def) (simp add: ctx_sim_def)
next
  case (CEnter t n)
  have "s_snaps a = map snap_fields (cp_snaps p)" using sim by (simp add: ctx_sim_def)
  with CEnter sim ctx_sim_open [OF sim] show ?thesis by (simp add: snapshot_enter_def)
next
  case (CDrop n)
  show ?thesis
  proof (cases "n < s_opened a")
    case True
    with ctx_sim_drop [OF sim True small] CDrop show ?thesis by simp
  next
    case False
    then have "filter (\<lambda>s. sc_no s \<noteq> n) (s_open a) = s_open a"
      using sim by (auto simp: ctx_sim_def filter_id_conv)
    with False CDrop sim show ?thesis by (simp add: ctx_sim_def)
  qed
qed

lemma ctx_sim_run:
  "length (filter opens ops) \<le> 2 ^ 64 \<Longrightarrow> ctx_sim (ctx_run ops) (scopes_run ops)"
proof (induction ops rule: rev_induct)
  case (snoc o' ops)
  then have small: "length (filter opens ops) \<le> 2 ^ 64" by (simp split: if_splits)
  with snoc.IH have "ctx_sim (ctx_run ops) (scopes_run ops)" by simp
  moreover have "s_opened (scopes_run ops) \<le> 2 ^ 64" using opened_run [of ops] small by linarith
  ultimately show ?case using ctx_sim_step by (simp add: ctx_run_def scopes_run_def)
qed (simp add: ctx_run_def scopes_run_def ctx_sim_init)

subsection \<open>Properties\<close>

text \<open>Claim C16: however the threads of a process push contexts, capture and enter snapshots and
  drop guards, in or out of order, the context a thread sees is the merge of exactly its scopes
  that are still open, outermost first, as long as the 64-bit frame counter has not gone once
  around.\<close>

theorem context_is_open_scopes:
  assumes "length (filter opens ops) \<le> 2 ^ 64"
  shows "current_context t (cp_state (ctx_run ops)) = scope_context t (scopes_run ops)"
  using ctx_sim_context ctx_sim_run assms by blast

theorem context_is_open_scopes_witness:
  "current_context 0 (cp_state (ctx_run
      [CPush 0 [field_str (lit ''a'') (lit ''1'')], CPush 0 [field_str (lit ''b'') (lit ''2'')], CDrop 0])) =
    [field_str (lit ''b'') (lit ''2'')]"
proof -
  define ops where "ops =
    [CPush 0 [field_str (lit ''a'') (lit ''1'')], CPush 0 [field_str (lit ''b'') (lit ''2'')], CDrop 0]"
  have "current_context 0 (cp_state (ctx_run ops)) = scope_context 0 (scopes_run ops)"
    by (rule context_is_open_scopes) (simp add: ops_def opens_def)
  also have "\<dots> = [field_str (lit ''b'') (lit ''2'')]"
    by (simp add: ops_def scopes_run_def scopes_init_def open_scope_def scope_context_def)
  finally show ?thesis by (simp only: ops_def)
qed

text \<open>A snapshot entered on a thread that has no context of its own gives that thread
  exactly the context that was captured, whatever happened since the capture.\<close>

theorem snapshot_transfers_context:
  assumes "context_stack later t' = []"
  shows "current_context t' (snd (snapshot_enter t' (capture_context t st) later)) =
    current_context t st"
  using assms puts_distinct_id [of "[]" "current_context t st"]
  by (simp add: snapshot_enter_def capture_context_def current_context_puts [of t' "snd (push_context t' (current_context t st) later)"]
      current_context_distinct)

theorem snapshot_transfers_context_witness:
  "current_context 7 (snd (snapshot_enter 7 (capture_context 0
      (snd (push_context 0 [field_bool (lit ''x'') True] ctx_init))) ctx_init)) =
    [field_bool (lit ''x'') True]"
proof -
  have "context_stack ctx_init 7 = []" by (simp add: ctx_init_def)
  from snapshot_transfers_context [OF this] show ?thesis
    by (simp add: current_context_def ctx_init_def)
qed

text \<open>Claim C28: how the fields of a record are resolved. After any program of pushes, entered
  snapshots and drops, merging the context of the calling thread into a record keeps the record's
  own fields as they are and appends one field for every other key set by a scope of that thread
  that is still open, and no further field. Looking a key up finds the record's own field, or else
  the field of the innermost open scope that sets the key, the last one within that scope.\<close>

theorem record_fields_resolve:
  assumes "length (filter opens ops) \<le> 2 ^ 64"
    and r: "r = merge_context e (current_context t (cp_state (ctx_run ops)))"
    and scoped: "scoped = concat (map sc_fields (filter (\<lambda>s. sc_thread s = t) (s_open (scopes_run ops))))"
  shows "\<exists>extra. r = e\<lparr>le_fields := le_fields e @ extra\<rparr> \<and> distinct (map f_key extra) \<and>
      f_key ` set extra = f_key ` set scoped - f_key ` set (le_fields e) \<and>
      (\<forall>k. find_key f_key k (le_fields r) =
         (case find_key f_key k (le_fields e) of
            Some f \<Rightarrow> Some f
          | None \<Rightarrow> find_key f_key k (rev scoped)))"
proof (intro exI conjI allI)
  let ?ctx = "current_context t (cp_state (ctx_run ops))"
  let ?extra = "filter (\<lambda>f. f_key f \<notin> f_key ` set (le_fields e)) ?ctx"
  have ctx: "?ctx = put_fields scoped []"
    using ctx_sim_context [OF ctx_sim_run [OF assms(1)]] by (simp add: scope_context_def scoped)
  show "r = e\<lparr>le_fields := le_fields e @ ?extra\<rparr>"
    by (simp add: r merge_context_def merge_loop_append current_context_distinct)
  show "distinct (map f_key ?extra)"
    by (rule distinct_map_filter) (rule current_context_distinct)
  show "f_key ` set ?extra = f_key ` set scoped - f_key ` set (le_fields e)"
  proof -
    have "f_key ` set ?extra = f_key ` set ?ctx - f_key ` set (le_fields e)" by auto
    also have "f_key ` set ?ctx = f_key ` set scoped"
      using upsert_store.puts_key_set [of f_key scoped "[]"] by (simp add: ctx)
    finally show ?thesis .
  qed
  show "find_key f_key k (le_fields r) = (case find_key f_key k (le_fields e) of
      Some f \<Rightarrow> Some f | None \<Rightarrow> find_key f_key k (rev scoped))" for k
    by (simp add: r merge_context_def merge_loop_find ctx upsert_store.puts_find split: option.split)
qed

theorem record_fields_resolve_witness:
  "\<exists>f. find_key f_key (lit ''a'')
     (le_fields (merge_context (entry_new 0 Info [] [] [] 0)
       (current_context 0 (cp_state (ctx_run
         [CPush 0 [field_bool (lit ''a'') True], CPush 0 [field_bool (lit ''a'') False]]))))) = Some f \<and>
     f_value f = Bool False"
proof -
  define ops where
    "ops = [CPush 0 [field_bool (lit ''a'') True], CPush 0 [field_bool (lit ''a'') False]]"
  define e0 where "e0 = entry_new 0 Info [] [] [] 0"
  have "length (filter opens ops) \<le> 2 ^ 64" by (simp add: ops_def opens_def)
  from record_fields_resolve [OF this refl refl, of e0 0]
  have "find_key f_key (lit ''a'') (le_fields (merge_context e0 (current_context 0 (cp_state (ctx_run ops))))) =
      Some (field_bool (lit ''a'') False)"
    by (auto simp: ops_def scopes_run_def scopes_init_def open_scope_def e0_def entry_new_def
        field_bool_def field_new_def)
  then show ?thesis
    by (intro exI [of _ "field_bool (lit ''a'') False"])
      (simp add: ops_def e0_def field_bool_def field_new_def)
qed

end
