(* ===== verification/Xos_Filter.thy ===== *)
theory Xos_Filter
  imports Xos_Level Xos_Utf8
begin

section \<open>Per-target filtering (\<open>src/filter.rs\<close>)\<close>

text \<open>
  \<open>TargetFilter\<close>: the lenient parser of a directive string, the lookup of the effective level of
  a module path and the decision whether a record passes. The lemmas show that the parser keeps
  one directive per target (the last one given), that the scan for the longest match is the walk
  from the module outward to its ancestors, and how a decision depends on level and target.
\<close>

record directive =
  d_target :: rstr
  d_level :: level

record target_filter =
  directives :: "directive list"

definition DEFAULT_FILTER_ENV :: rstr where
  "DEFAULT_FILTER_ENV = lit ''XOSLOG''"

abbreviation c_slash :: rchar where "c_slash \<equiv> 47"
abbreviation c_comma :: rchar where "c_comma \<equiv> 44"
abbreviation c_eq :: rchar where "c_eq \<equiv> 61"

subsection \<open>Parsing\<close>

text \<open>
  One directive, already trimmed and not empty: the target (empty for a bare level) and its
  level; \<open>None\<close> is the code's \<open>continue\<close>.
\<close>

definition parse_directive :: "rstr \<Rightarrow> (rstr \<times> level) option" where
  "parse_directive raw =
     (case str_split c_eq raw of
        [part0] \<Rightarrow>
          (case level_parse part0 of
             Some l \<Rightarrow> Some ([], l)
           | None \<Rightarrow> Some (part0, Trace))
      | [part0, part1] \<Rightarrow>
          (if trim part1 = [] then
             (if part0 = [] then None else Some (part0, Trace))
           else
             (case level_parse (trim part1) of
                Some l \<Rightarrow> Some (part0, l)
              | None \<Rightarrow> None))
      | _ \<Rightarrow> None)"

text \<open>A later directive with the same target replaces the level of the earlier one.\<close>

fun set_directive :: "rstr \<Rightarrow> level \<Rightarrow> directive list \<Rightarrow> directive list" where
  "set_directive t l [] = [\<lparr>d_target = t, d_level = l\<rparr>]"
| "set_directive t l (d # ds) =
     (if d_target d = t then d\<lparr>d_level := l\<rparr> # ds else d # set_directive t l ds)"

fun parse_loop :: "rstr list \<Rightarrow> directive list \<Rightarrow> directive list" where
  "parse_loop [] ds = ds"
| "parse_loop (piece # pieces) ds =
     (let raw = trim piece in
      if raw = [] then parse_loop pieces ds
      else case parse_directive raw of
             None \<Rightarrow> parse_loop pieces ds
           | Some (t, l) \<Rightarrow> parse_loop pieces (set_directive t l ds))"

definition filter_parse :: "rstr \<Rightarrow> target_filter" where
  "filter_parse spec =
     (let mods = hd (str_split c_slash spec)
      in \<lparr>directives = parse_loop (str_split c_comma mods) []\<rparr>)"

text \<open>\<open>env\<close> is \<open>std::env::var(name).ok()\<close>: the variable when set and valid Unicode.\<close>

definition from_env_name :: "(rstr \<Rightarrow> rstr option) \<Rightarrow> rstr \<Rightarrow> target_filter option" where
  "from_env_name env name =
     (case env name of
        None \<Rightarrow> None
      | Some spec \<Rightarrow> if trim spec = [] then None else Some (filter_parse spec))"

definition from_env :: "(rstr \<Rightarrow> rstr option) \<Rightarrow> target_filter option" where
  "from_env env = from_env_name env DEFAULT_FILTER_ENV"

subsection \<open>Lookup\<close>

definition filter_is_empty :: "target_filter \<Rightarrow> bool" where
  "filter_is_empty f \<longleftrightarrow> directives f = []"

definition global_default :: "target_filter \<Rightarrow> level option" where
  "global_default f = map_option d_level (find (\<lambda>d. d_target d = []) (directives f))"

definition default_level :: "target_filter \<Rightarrow> level \<Rightarrow> level" where
  "default_level f base = (case global_default f of Some l \<Rightarrow> l | None \<Rightarrow> base)"

definition module_matches :: "rstr \<Rightarrow> rstr \<Rightarrow> bool" where
  "module_matches d t \<longleftrightarrow>
     (if t = d then True
      else case strip_prefix d t of None \<Rightarrow> False | Some rest \<Rightarrow> starts_with (lit ''::'') rest)"

definition best_step :: "rstr \<Rightarrow> (nat \<times> level) option \<Rightarrow> directive \<Rightarrow> (nat \<times> level) option" where
  "best_step t best d =
     (if d_target d = [] then best
      else if module_matches (d_target d) t then
        (let len = str_len (d_target d) in
         case best of
           Some (best_len, l) \<Rightarrow> if best_len > len then best else Some (len, d_level d)
         | None \<Rightarrow> Some (len, d_level d))
      else best)"

definition effective_level :: "target_filter \<Rightarrow> rstr \<Rightarrow> level \<Rightarrow> level" where
  "effective_level f t base =
     (case foldl (best_step t) None (directives f) of
        None \<Rightarrow> default_level f base
      | Some (_, l) \<Rightarrow> l)"

definition filter_enabled :: "target_filter \<Rightarrow> rstr \<Rightarrow> level \<Rightarrow> level \<Rightarrow> bool" where
  "filter_enabled f t l base =
     (if l = Off then False
      else let e = effective_level f t base in e \<noteq> Off \<and> e \<le> l)"

definition filter_default :: target_filter where
  "filter_default = \<lparr>directives = []\<rparr>"

subsection \<open>One directive per target, the last one given\<close>

lemma set_directive_upsert:
  "set_directive t l ds = upsert d_target \<lparr>d_target = t, d_level = l\<rparr> ds"
  by (induction ds) auto

interpretation dstore: keyed_store d_target "\<lambda>d. set_directive (d_target d) (d_level d)"
  by unfold_locales (simp_all add: set_directive_upsert upsert_keys upsert_find)

text \<open>The directives a specification spells out, in order, before replacement.\<close>

definition raw_directives :: "rstr list \<Rightarrow> directive list" where
  "raw_directives pieces =
     map (\<lambda>(t, l). \<lparr>d_target = t, d_level = l\<rparr>)
       (List.map_filter (\<lambda>p. if trim p = [] then None else parse_directive (trim p)) pieces)"

lemma raw_directives_simps [simp]:
  "raw_directives [] = []"
  "raw_directives (p # ps) =
     (case (if trim p = [] then None else parse_directive (trim p)) of
        None \<Rightarrow> raw_directives ps
      | Some (t, l) \<Rightarrow> \<lparr>d_target = t, d_level = l\<rparr> # raw_directives ps)"
  by (auto simp: raw_directives_def map_filter_simps split: option.splits)

lemma parse_loop_puts: "parse_loop ps ds = dstore.puts (raw_directives ps) ds"
  by (induction ps arbitrary: ds) (auto simp: Let_def split: option.splits)

definition spec_pieces :: "rstr \<Rightarrow> rstr list" where
  "spec_pieces spec = str_split c_comma (takeWhile (\<lambda>c. c \<noteq> c_slash) spec)"

lemma filter_parse_puts:
  "directives (filter_parse spec) = dstore.puts (raw_directives (spec_pieces spec)) []"
  by (simp add: filter_parse_def parse_loop_puts spec_pieces_def hd_str_split)

definition filter_wf :: "target_filter \<Rightarrow> bool" where
  "filter_wf f \<longleftrightarrow> distinct (map d_target (directives f))"

lemma filter_wf_parse [simp]: "filter_wf (filter_parse spec)"
  unfolding filter_wf_def filter_parse_puts by (rule dstore.puts_distinct) simp

lemma filter_wf_default [simp]: "filter_wf filter_default"
  by (simp add: filter_wf_def filter_default_def)

lemma filter_parse_lookup:
  "find_key d_target t (directives (filter_parse spec)) =
     find_key d_target t (rev (raw_directives (spec_pieces spec)))"
  by (simp add: filter_parse_puts dstore.puts_find split: option.splits)

subsection \<open>The longest match is the nearest ancestor with a directive\<close>

lemma module_matches_iff:
  "module_matches d t \<longleftrightarrow> t = d \<or> (\<exists>r. t = d @ lit ''::'' @ r)"
  by (auto simp: module_matches_def strip_prefix_Some_iff starts_with_iff split: option.splits)
     (metis option.distinct(1) strip_prefix_Some_iff)+

lemma module_matches_refl [simp]: "module_matches t t"
  by (simp add: module_matches_iff)

lemma module_matches_take: "module_matches d t \<Longrightarrow> d = take (length d) t"
  by (auto simp: module_matches_iff)

text \<open>A module path and its ancestors, the most specific first: what stands before each \<open>::\<close>. No function of
  the code is used.\<close>

definition module_prefixes :: "rstr \<Rightarrow> rstr list" where
  "module_prefixes t = filter (\<lambda>p. p \<noteq> [])
     (t # map (\<lambda>i. take i t) (filter (\<lambda>i. take 2 (drop i t) = lit ''::'') (rev [0..<length t])))"

text \<open>Reference: walk outward from the module to the root, whose directive is the one without a target; the
  first directive met decides, and the base level when there is none.\<close>

definition nearest_level :: "target_filter \<Rightarrow> rstr \<Rightarrow> level \<Rightarrow> level" where
  "nearest_level f t base =
     (case List.map_filter (\<lambda>p. find (\<lambda>d. d_target d = p) (directives f)) (module_prefixes t @ [[]]) of
        [] \<Rightarrow> base
      | d # _ \<Rightarrow> d_level d)"

text \<open>In terms of the code's fallback.\<close>

lemma nearest_level_default:
  "nearest_level f t base =
     (case List.map_filter (\<lambda>p. find_key d_target p (directives f)) (module_prefixes t) of
        [] \<Rightarrow> default_level f base
      | d # _ \<Rightarrow> d_level d)"
proof -
  have snoc: "List.map_filter g (xs @ [x]) = List.map_filter g xs @ (case g x of None \<Rightarrow> [] | Some y \<Rightarrow> [y])"
    for g :: "rstr \<Rightarrow> directive option" and xs x
    by (simp add: List.map_filter_def split: option.split)
  show ?thesis
    unfolding nearest_level_def snoc find_key_def default_level_def global_default_def
    by (simp split: list.split option.split)
qed

definition candidate :: "rstr \<Rightarrow> directive \<Rightarrow> bool" where
  "candidate t d \<longleftrightarrow> d_target d \<noteq> [] \<and> module_matches (d_target d) t"

text \<open>What one step and the whole scan do to the best match so far.\<close>

lemma best_step_keeps:
  "best_step t (Some (n, l)) d = r \<Longrightarrow> \<exists>n' l'. r = Some (n', l') \<and> n \<le> n'"
  by (auto simp: best_step_def Let_def split: if_splits)

lemma best_step_covers:
  "candidate t d \<Longrightarrow> \<exists>n l. best_step t best d = Some (n, l) \<and> str_len (d_target d) \<le> n"
  by (cases best) (auto simp: best_step_def candidate_def Let_def)

lemma best_step_from:
  "best_step t best d = Some (n, l) \<Longrightarrow>
     best = Some (n, l) \<or> candidate t d \<and> n = str_len (d_target d) \<and> l = d_level d"
  by (auto simp: best_step_def candidate_def Let_def split: if_splits option.splits)

lemma best_keeps: "\<exists>n' l'. foldl (best_step t) (Some (n, l)) ds = Some (n', l') \<and> n \<le> n'"
proof (induction ds arbitrary: n l)
  case (Cons d ds)
  obtain n1 l1 where b: "best_step t (Some (n, l)) d = Some (n1, l1)" "n \<le> n1"
    using best_step_keeps by blast
  with Cons.IH [of n1 l1] show ?case by auto
qed simp

lemma best_covers:
  "d \<in> set ds \<Longrightarrow> candidate t d \<Longrightarrow>
     \<exists>n l. foldl (best_step t) best ds = Some (n, l) \<and> str_len (d_target d) \<le> n"
proof (induction ds arbitrary: best)
  case (Cons x ds)
  show ?case
  proof (cases "d = x")
    case True
    then obtain n1 l1 where "best_step t best x = Some (n1, l1)" "str_len (d_target d) \<le> n1"
      using Cons.prems best_step_covers by blast
    then show ?thesis using best_keeps [of t n1 l1 ds] by auto
  next
    case False
    then show ?thesis using Cons by simp
  qed
qed simp

lemma best_from:
  "foldl (best_step t) best ds = Some (n, l) \<Longrightarrow>
     best = Some (n, l) \<or> (\<exists>d \<in> set ds. candidate t d \<and> n = str_len (d_target d) \<and> l = d_level d)"
proof (induction ds arbitrary: best)
  case (Cons d ds)
  then have "foldl (best_step t) (best_step t best d) ds = Some (n, l)" by simp
  from Cons.IH [OF this] show ?case by (auto dest: best_step_from)
qed simp

lemma str_len_take_mono: "m \<le> n \<Longrightarrow> str_len (take m s) \<le> str_len (take n s)"
proof -
  assume "m \<le> n"
  then have "take n s = take m s @ take (n - m) (drop m s)"
    by (metis le_add_diff_inverse take_add)
  then show ?thesis by (metis le_add1 str_len_append)
qed

lemma str_len_take_less: "m < n \<Longrightarrow> n \<le> length s \<Longrightarrow> str_len (take m s) < str_len (take n s)"
proof -
  assume mn: "m < n" "n \<le> length s"
  then have "take n s = take m s @ take (n - m) (drop m s)"
    by (metis le_add_diff_inverse less_imp_le_nat take_add)
  moreover have "take (n - m) (drop m s) \<noteq> []" using mn by simp
  then have "0 < str_len (take (n - m) (drop m s))"
    by (cases "take (n - m) (drop m s)") (auto simp: str_len_def)
  ultimately show ?thesis by (metis less_add_same_cancel1 str_len_append)
qed

lemma map_filter_first:
  "List.map_filter f xs = y # ys \<Longrightarrow> sorted_wrt R xs \<Longrightarrow>
     \<exists>x \<in> set xs. f x = Some y \<and> (\<forall>z \<in> set xs. f z \<noteq> None \<longrightarrow> z = x \<or> R x z)"
  by (induction xs) (auto simp: map_filter_simps split: option.splits)

lemma map_filter_cong: "\<forall>x \<in> set xs. f x = g x \<Longrightarrow> List.map_filter f xs = List.map_filter g xs"
  by (induction xs) (auto simp: map_filter_simps split: option.split)

lemma map_filter_Nil_iff: "List.map_filter f xs = [] \<longleftrightarrow> (\<forall>x \<in> set xs. f x = None)"
  by (induction xs) (auto simp: map_filter_simps split: option.splits)

lemma module_prefixes_sorted: "sorted_wrt (\<lambda>p q. length q < length p) (module_prefixes t)"
proof -
  define js where "js = filter (\<lambda>i. take 2 (drop i t) = lit ''::'') (rev [0..<length t])"
  have "sorted_wrt (\<lambda>m n. n < m) (rev [0..<length t])"
    unfolding sorted_wrt_rev by (rule sorted_wrt_upt)
  then have desc: "sorted_wrt (\<lambda>m n. n < m) js" unfolding js_def by (rule sorted_wrt_filter)
  have small: "i < length t" if "i \<in> set js" for i using that by (simp add: js_def del: lit_simps)
  have "sorted_wrt (\<lambda>m n. length (take n t) < length (take m t)) js"
  proof (rule sorted_wrt_mono_rel [OF _ desc])
    fix m n assume "m \<in> set js" "n \<in> set js" "n < m"
    then show "length (take n t) < length (take m t)" using small [of m] by simp
  qed
  then have "sorted_wrt (\<lambda>p q. length q < length p) (t # map (\<lambda>i. take i t) js)"
    using small by (auto simp: sorted_wrt_map)
  then show ?thesis unfolding module_prefixes_def js_def by (rule sorted_wrt_filter)
qed

lemma set_module_prefixes: "p \<in> set (module_prefixes t) \<longleftrightarrow> p \<noteq> [] \<and> module_matches p t"
proof
  assume p: "p \<noteq> [] \<and> module_matches p t"
  show "p \<in> set (module_prefixes t)"
  proof (cases "p = t")
    case False
    then obtain r where t: "t = p @ lit ''::'' @ r" using p by (auto simp: module_matches_iff)
    then have "p = take (length p) t" "take 2 (drop (length p) t) = lit ''::''" "length p < length t"
      by (simp_all add: numeral_2_eq_2)
    then show ?thesis using p unfolding module_prefixes_def by (auto simp del: lit_simps)
  qed (use p in \<open>simp add: module_prefixes_def\<close>)
next
  have sep: "module_matches (take i t) t" if "take 2 (drop i t) = lit ''::''" for i
  proof -
    have "t = take i t @ take 2 (drop i t) @ drop 2 (drop i t)" by (simp only: append_take_drop_id)
    then have "t = take i t @ lit ''::'' @ drop 2 (drop i t)" by (simp only: that)
    then show ?thesis unfolding module_matches_iff by blast
  qed
  assume "p \<in> set (module_prefixes t)"
  then have "p \<noteq> []" "p = t \<or> (\<exists>i. take 2 (drop i t) = lit ''::'' \<and> p = take i t)"
    unfolding module_prefixes_def set_filter set_simps set_map by blast+
  then show "p \<noteq> [] \<and> module_matches p t" using sep by (auto simp del: lit_simps)
qed

lemma candidate_longer:
  assumes "candidate t d" "candidate t d'" "length (d_target d) < length (d_target d')"
  shows "str_len (d_target d) < str_len (d_target d')"
proof -
  have "d_target d = take (length (d_target d)) t" "d_target d' = take (length (d_target d')) t"
    using assms by (auto simp: candidate_def dest: module_matches_take)
  moreover have "length (d_target d') \<le> length t"
    using assms by (auto simp: candidate_def module_matches_iff)
  ultimately show ?thesis using str_len_take_less assms(3) by metis
qed

theorem effective_level_nearest:
  assumes "filter_wf f"
  shows "effective_level f t base = nearest_level f t base"
proof (cases "foldl (best_step t) None (directives f)")
  case None
  then have "\<forall>d \<in> set (directives f). \<not> candidate t d"
    using best_covers [of _ "directives f" t None] by fastforce
  then have "List.map_filter (\<lambda>p. find_key d_target p (directives f)) (module_prefixes t) = []"
    unfolding map_filter_Nil_iff
    by (auto simp: set_module_prefixes find_key_None_iff candidate_def)
  with None show ?thesis by (simp add: effective_level_def nearest_level_default)
next
  case (Some nl)
  let ?look = "\<lambda>p. find_key d_target p (directives f)"
  obtain n l where nl: "nl = (n, l)" by (cases nl)
  obtain d0 where d0: "d0 \<in> set (directives f)" "candidate t d0" "n = str_len (d_target d0)"
    "l = d_level d0" using best_from Some nl by blast
  have look0: "?look (d_target d0) = Some d0"
    using assms d0 by (intro find_key_distinct) (simp_all add: filter_wf_def)
  have in0: "d_target d0 \<in> set (module_prefixes t)"
    using d0 by (simp add: set_module_prefixes candidate_def)
  then have "List.map_filter ?look (module_prefixes t) \<noteq> []"
    using look0 by (auto simp: map_filter_Nil_iff)
  then obtain d1 ds where d1: "List.map_filter ?look (module_prefixes t) = d1 # ds"
    by (meson neq_Nil_conv)
  obtain p where p: "p \<in> set (module_prefixes t)" "?look p = Some d1"
    "\<forall>z \<in> set (module_prefixes t). ?look z \<noteq> None \<longrightarrow> z = p \<or> length z < length p"
    using map_filter_first [OF d1 module_prefixes_sorted] by blast
  have c1: "d1 \<in> set (directives f)" "d_target d1 = p" "candidate t d1"
    using p find_key_SomeD [OF p(2)] by (auto simp: candidate_def set_module_prefixes)
  have "str_len (d_target d1) \<le> n"
    using best_covers [OF c1(1,3), of None] Some nl by auto
  then have "\<not> length (d_target d0) < length (d_target d1)"
    using candidate_longer [OF d0(2) c1(3)] d0(3) by auto
  then have "d_target d0 = p" using p(3) in0 look0 c1(2) by auto
  then have "d1 = d0" using p(2) look0 by simp
  with Some nl d0 d1 show ?thesis by (simp add: effective_level_def nearest_level_default)
qed

subsection \<open>Decisions\<close>

lemma filter_enabled_iff:
  "filter_enabled f t l base \<longleftrightarrow> l \<noteq> Off \<and> effective_level f t base \<le> l"
  by (auto simp: filter_enabled_def Let_def)

lemma filter_enabled_mono:
  "filter_enabled f t l base \<Longrightarrow> l \<le> l' \<Longrightarrow> l' \<noteq> Off \<Longrightarrow> filter_enabled f t l' base"
  by (auto simp: filter_enabled_iff)

lemma filter_enabled_default [simp]: "filter_enabled filter_default t l base \<longleftrightarrow> l \<noteq> Off \<and> base \<le> l"
  by (simp add: filter_enabled_iff effective_level_def filter_default_def default_level_def
      global_default_def)

text \<open>The default target \<open>""\<close> only sees the global default.\<close>

lemma effective_level_empty_target: "effective_level f [] base = default_level f base"
proof -
  have "foldl (best_step []) None ds = None" for ds
    by (induction ds) (auto simp: best_step_def module_matches_iff)
  then show ?thesis by (simp add: effective_level_def)
qed

text \<open>A directive for a module that is no ancestor of the target does not touch it.\<close>

lemma global_default_find_key: "global_default f = map_option d_level (find_key d_target [] (directives f))"
  by (simp add: global_default_def find_key_def)

lemma nearest_level_other:
  assumes "p \<noteq> []" "\<not> module_matches p t"
  shows "nearest_level \<lparr>directives = set_directive p l (directives f)\<rparr> t base = nearest_level f t base"
proof -
  have "List.map_filter (\<lambda>q. find_key d_target q (set_directive p l (directives f))) (module_prefixes t)
      = List.map_filter (\<lambda>q. find_key d_target q (directives f)) (module_prefixes t)"
    using assms
    by (intro map_filter_cong) (auto simp: set_directive_upsert upsert_find set_module_prefixes)
  moreover have "default_level \<lparr>directives = set_directive p l (directives f)\<rparr> base = default_level f base"
    using assms by (simp add: default_level_def global_default_find_key set_directive_upsert upsert_find)
  ultimately show ?thesis by (simp add: nearest_level_default split: list.split)
qed

subsection \<open>Printing directives and parsing them back\<close>

definition render_directive :: "directive \<Rightarrow> rstr" where
  "render_directive d =
     (if d_target d = [] then level_as_str (d_level d)
      else d_target d @ c_eq # level_as_str (d_level d))"

fun join_comma :: "rstr list \<Rightarrow> rstr" where
  "join_comma [] = []"
| "join_comma [s] = s"
| "join_comma (s # t # ts) = s @ c_comma # join_comma (t # ts)"

definition render_filter :: "target_filter \<Rightarrow> rstr" where
  "render_filter f = join_comma (map render_directive (directives f))"

text \<open>Targets that the grammar can spell: no separator in them, no white space at the ends.\<close>

definition printable_target :: "rstr \<Rightarrow> bool" where
  "printable_target t \<longleftrightarrow> c_eq \<notin> set t \<and> c_comma \<notin> set t \<and> c_slash \<notin> set t \<and> trim t = t"

lemma level_as_str_chars:
  "level_as_str l \<noteq> []" "\<forall>c \<in> set (level_as_str l). 65 \<le> c \<and> c \<le> 90"
  by (cases l; simp add: level_as_str_def)+

lemma level_as_str_no_sep [simp]:
  "c_eq \<notin> set (level_as_str l)" "c_comma \<notin> set (level_as_str l)" "c_slash \<notin> set (level_as_str l)"
  using level_as_str_chars [of l] by auto

lemma level_as_str_ends [simp]:
  "\<not> is_whitespace (hd (level_as_str l))" "\<not> is_whitespace (last (level_as_str l))"
  by (cases l; simp add: level_as_str_def is_whitespace_def)+

lemma trim_level_as_str [simp]: "trim (level_as_str l) = level_as_str l"
  by (intro trim_id) simp

lemma trim_fixed_hd: "trim t = t \<Longrightarrow> t \<noteq> [] \<Longrightarrow> \<not> is_whitespace (hd t)"
  using trim_ends [of t] by auto

lemma render_directive_props:
  assumes "printable_target (d_target d)"
  shows "trim (render_directive d) = render_directive d" "render_directive d \<noteq> []"
    "c_comma \<notin> set (render_directive d)" "c_slash \<notin> set (render_directive d)"
    "parse_directive (render_directive d) = Some (d_target d, d_level d)"
proof -
  show ne: "render_directive d \<noteq> []"
    using level_as_str_chars by (simp add: render_directive_def)
  show "c_comma \<notin> set (render_directive d)" "c_slash \<notin> set (render_directive d)"
    using assms by (auto simp: render_directive_def printable_target_def)
  have "last (render_directive d) = last (level_as_str (d_level d))"
    using level_as_str_chars by (simp add: render_directive_def)
  then have "\<not> is_whitespace (last (render_directive d))"
    by simp
  moreover have "\<not> is_whitespace (hd (render_directive d))"
    using assms trim_fixed_hd by (auto simp: render_directive_def printable_target_def)
  ultimately show "trim (render_directive d) = render_directive d"
    by (intro trim_id) simp
  show "parse_directive (render_directive d) = Some (d_target d, d_level d)"
    using assms level_as_str_chars(1) [of "d_level d"]
    by (auto simp: parse_directive_def render_directive_def printable_target_def
        str_split_no_sep str_split_append_sep)
qed

lemma split_join_comma:
  "ss \<noteq> [] \<Longrightarrow> \<forall>s \<in> set ss. c_comma \<notin> set s \<Longrightarrow> str_split c_comma (join_comma ss) = ss"
  by (induction ss rule: join_comma.induct) (auto simp: str_split_no_sep str_split_append_sep)

lemma join_comma_chars: "c \<in> set (join_comma ss) \<Longrightarrow> c = c_comma \<or> (\<exists>s \<in> set ss. c \<in> set s)"
  by (induction ss rule: join_comma.induct) auto

lemma raw_directives_render:
  "\<forall>d \<in> set ds. printable_target (d_target d) \<Longrightarrow> raw_directives (map render_directive ds) = ds"
  by (induction ds) (auto simp: render_directive_props)

lemma upsert_fresh: "key x \<notin> key ` set xs \<Longrightarrow> upsert key x xs = xs @ [x]"
  by (induction xs) auto

lemma puts_fresh: "distinct (map d_target (xs @ ds)) \<Longrightarrow> dstore.puts ds xs = xs @ ds"
proof (induction ds arbitrary: xs)
  case (Cons d ds)
  have "set_directive (d_target d) (d_level d) xs = xs @ [d]"
    using Cons.prems upsert_fresh [of d_target d xs] by (cases d) (auto simp: set_directive_upsert)
  then show ?case using Cons.IH [of "xs @ [d]"] Cons.prems by simp
qed simp

subsection \<open>The properties\<close>

text \<open>Claim C14: for every specification, target and base level, the level the scan over a parsed
  filter computes is the one of the nearest ancestor of the target that has a directive: of the target
  itself, else of the longest part of it before a \<open>::\<close>, else of the directive without a target; the base
  level when there is none. A name that only starts like the target's is no ancestor.\<close>

theorem parsed_filter_nearest_ancestor:
  "effective_level (filter_parse spec) t base = nearest_level (filter_parse spec) t base"
  by (simp add: effective_level_nearest)

text \<open>Claim C34: a parsed filter holds at most one directive per target, and for each target it is
  the last well-formed directive of the specification with that target; malformed pieces are
  skipped and everything behind the first slash is ignored.\<close>

theorem parsed_filter_last_directive:
  "distinct (map d_target (directives (filter_parse spec))) \<and>
   find_key d_target t (directives (filter_parse spec)) =
     find_key d_target t (rev (raw_directives (spec_pieces spec)))"
  using filter_wf_parse [of spec] by (simp add: filter_wf_def filter_parse_lookup)

text \<open>Claim C33: a filter with one directive per target, whose targets the grammar can spell, is
  read back unchanged from its printed form.\<close>

theorem filter_print_parse:
  assumes "filter_wf f" and "\<forall>d \<in> set (directives f). printable_target (d_target d)"
  shows "filter_parse (render_filter f) = f"
proof -
  let ?ss = "map render_directive (directives f)"
  have clean: "\<forall>s \<in> set ?ss. c_comma \<notin> set s \<and> c_slash \<notin> set s"
    using assms(2) by (auto simp: render_directive_props)
  then have "c_slash \<notin> set (render_filter f)"
    using join_comma_chars [of c_slash ?ss] by (auto simp: render_filter_def)
  then have tw: "takeWhile (\<lambda>c. c \<noteq> c_slash) (render_filter f) = render_filter f"
    by (auto simp: takeWhile_eq_all_conv)
  have "raw_directives (spec_pieces (render_filter f)) = directives f"
  proof (cases "directives f = []")
    case False
    then have "spec_pieces (render_filter f) = ?ss"
      using clean unfolding spec_pieces_def tw unfolding render_filter_def
      by (intro split_join_comma) simp_all
    then show ?thesis using assms(2) by (simp add: raw_directives_render)
  qed (simp add: spec_pieces_def render_filter_def trim_def trim_start_def trim_end_def)
  then have "directives (filter_parse (render_filter f)) = directives f"
    using assms(1) puts_fresh [of "[]" "directives f"] by (simp add: filter_parse_puts filter_wf_def)
  then show ?thesis by (cases f) (simp add: filter_parse_def)
qed

theorem filter_print_parse_witness:
  "filter_parse (render_filter \<lparr>directives =
      [\<lparr>d_target = lit ''my_app'', d_level = Debug\<rparr>, \<lparr>d_target = [], d_level = Warn\<rparr>]\<rparr>) =
    \<lparr>directives = [\<lparr>d_target = lit ''my_app'', d_level = Debug\<rparr>, \<lparr>d_target = [], d_level = Warn\<rparr>]\<rparr>"
  by (rule filter_print_parse)
    (simp_all add: filter_wf_def printable_target_def trim_def trim_start_def trim_end_def
      is_whitespace_def)

text \<open>Adding or replacing the directive of one module changes the decision for no target
  outside that module and its descendants; in particular not for a sibling whose name merely
  starts with the module's name.\<close>

theorem directive_leaves_others_alone:
  assumes "filter_wf f" "p \<noteq> []" "\<not> module_matches p t"
  shows "filter_enabled \<lparr>directives = set_directive p pl (directives f)\<rparr> t l base =
    filter_enabled f t l base"
proof -
  have "filter_wf \<lparr>directives = set_directive p pl (directives f)\<rparr>"
    using assms(1) dstore.put_distinct [of "directives f" "\<lparr>d_target = p, d_level = pl\<rparr>"]
    by (simp add: filter_wf_def)
  then show ?thesis
    using assms by (simp add: filter_enabled_iff effective_level_nearest nearest_level_other)
qed

theorem directive_leaves_others_alone_witness:
  "filter_enabled \<lparr>directives = set_directive (lit ''myapp'') Off []\<rparr> (lit ''myapp_client'') Info Info
    = filter_enabled filter_default (lit ''myapp_client'') Info Info"
  using directive_leaves_others_alone [of filter_default "lit ''myapp''" "lit ''myapp_client''" Off Info Info]
  by (simp add: filter_default_def filter_wf_def module_matches_def strip_prefix_def starts_with_def)

text \<open>A directive with an empty target and a level, such as \<open>=debug\<close>, is not skipped as a
  malformed one: it sets the global default level.\<close>

theorem stray_equals_sets_global_default:
  "filter_parse (c_eq # level_as_str l) = \<lparr>directives = [\<lparr>d_target = [], d_level = l\<rparr>]\<rparr> \<and>
   global_default (filter_parse (c_eq # level_as_str l)) = Some l"
proof -
  have "\<not> is_whitespace c_eq" by (simp add: is_whitespace_def)
  then have "trim (c_eq # level_as_str l) = c_eq # level_as_str l"
    using level_as_str_chars(1) [of l] \<open>\<not> is_whitespace c_eq\<close> by (intro trim_id) simp
  moreover have "takeWhile (\<lambda>c. c \<noteq> c_slash) (c_eq # level_as_str l) = c_eq # level_as_str l"
    by (auto simp: takeWhile_eq_all_conv)
  moreover have "str_split c_comma (c_eq # level_as_str l) = [c_eq # level_as_str l]"
    by (rule str_split_no_sep) simp
  moreover have "parse_directive (c_eq # level_as_str l) = Some ([], l)"
    using level_as_str_chars(1) [of l] by (simp add: parse_directive_def str_split_no_sep)
  ultimately have "filter_parse (c_eq # level_as_str l) = \<lparr>directives = [\<lparr>d_target = [], d_level = l\<rparr>]\<rparr>"
    by (simp only: filter_parse_def hd_str_split Let_def) simp
  then show ?thesis by (simp add: global_default_def)
qed

text \<open>White space before the equals sign stays in the target, so a directive written
  \<open>myapp =debug\<close> never applies to \<open>myapp\<close>: its level remains the base level.\<close>

theorem space_before_equals_disables_directive:
  assumes "t \<noteq> []" "printable_target t"
  shows "effective_level (filter_parse (t @ 32 # c_eq # level_as_str l)) t base = base"
proof -
  let ?s = "t @ 32 # c_eq # level_as_str l"
  have ne: "level_as_str l \<noteq> []" by (rule level_as_str_chars)
  have "\<not> is_whitespace (hd t)"
    using assms trim_fixed_hd by (simp add: printable_target_def)
  then have "trim ?s = ?s" using assms(1) ne by (intro trim_id) simp
  moreover have "takeWhile (\<lambda>c. c \<noteq> c_slash) ?s = ?s"
    using assms(2) by (auto simp: takeWhile_eq_all_conv printable_target_def)
  moreover have "str_split c_comma ?s = [?s]"
    using assms(2) by (intro str_split_no_sep) (simp add: printable_target_def)
  moreover have "str_split c_eq ?s = [t @ [32], level_as_str l]"
    using assms(2) str_split_append_sep [of c_eq "t @ [32]" "level_as_str l"]
    by (simp add: printable_target_def str_split_no_sep)
  then have "parse_directive ?s = Some (t @ [32], l)"
    using ne by (simp add: parse_directive_def)
  ultimately have "filter_parse ?s = \<lparr>directives = [\<lparr>d_target = t @ [32], d_level = l\<rparr>]\<rparr>"
    using assms(1) by (simp only: filter_parse_def hd_str_split Let_def) simp
  moreover have "\<not> module_matches (t @ [32]) t" by (simp add: module_matches_iff)
  ultimately show ?thesis
    by (simp add: effective_level_def best_step_def default_level_def global_default_def)
qed

theorem space_before_equals_disables_directive_witness:
  "effective_level (filter_parse (lit ''myapp'' @ 32 # c_eq # level_as_str Debug)) (lit ''myapp'') Info = Info"
  by (rule space_before_equals_disables_directive)
    (simp_all add: printable_target_def trim_def trim_start_def trim_end_def is_whitespace_def)

end
