(* ===== verification/Xos_Logger.thy ===== *)
theory Xos_Logger
  imports Xos_Channel Xos_Delivery Xos_Context Xos_Filter
begin

section \<open>The logger: callers, queue and writer thread (\<open>src/logger.rs\<close>)\<close>

text \<open>
  The state shared by the clones of a \<open>Logger\<close>, the calls in progress on the threads of the process,
  the queue and the writer thread, and the step relation of their interleavings. A step is a piece of
  a call between two points where another thread can be observed: loading or storing \<open>closed\<close>,
  reading the clock, taking the lock of the sender, a send, the arrival of an acknowledgement, the
  lock of the join handle, one message of the writer. A step whose operation returns \<open>None\<close> is not
  possible yet: the thread is blocked.
\<close>

type_synonym i32 = "32 word"

datatype backpressure = Block | DropNewest

text \<open>The join handle behind its mutex, which is held during the join.\<close>

datatype join_handle = HandleThere | HandleTaken tid | HandleGone

text \<open>\<open>tx\<close> is the mutex of the sender: the thread that holds it.\<close>

record inner =
  tx_lock :: "tid option"
  in_level :: level
  in_filter :: target_filter
  time_offset_seconds :: i32
  in_backpressure :: backpressure
  join_lock :: join_handle
  is_closed :: bool
  dropped :: usize
  in_json :: bool

text \<open>Where a thread is in a call of the logger.\<close>

datatype caller =
    Idle | Stamping log_entry | Locking message | Sending message | Awaiting message | Joining | JoinWait

datatype writer = WIdle | WBusy message | WStopping | WStopped

text \<open>What became of a record that passed the filter.\<close>

datatype fate = Queued | Dropped | Emergency

text \<open>The fields from \<open>pr_sent\<close> on are history: no operation reads them.\<close>

record 'c process =
  pr_inner :: inner
  pr_clones :: bool
  pr_calls :: "tid \<Rightarrow> caller"
  pr_chan :: "message chan"
  pr_writer :: writer
  pr_slots :: "'c sink_slot list"
  pr_location :: bool
  pr_json :: bool
  pr_acked :: "nat list"
  pr_next_ack :: nat
  pr_ctx :: ctx_state
  pr_world :: world
  pr_sent :: "message list"
  pr_handled :: "message list"
  pr_discarded :: "message list"
  pr_admitted :: "(tid \<times> log_entry) list"
  pr_fates :: "(tid \<times> log_entry \<times> fate) list"

subsection \<open>Levels and filter\<close>

definition is_enabled :: "inner \<Rightarrow> level \<Rightarrow> bool" where
  "is_enabled i l = filter_enabled (in_filter i) [] l (in_level i)"

definition is_enabled_for :: "inner \<Rightarrow> level \<Rightarrow> rstr \<Rightarrow> bool" where
  "is_enabled_for i l target = filter_enabled (in_filter i) target l (in_level i)"

definition logger_level :: "inner \<Rightarrow> level" where
  "logger_level i = in_level i"

definition logger_filter :: "inner \<Rightarrow> target_filter" where
  "logger_filter i = in_filter i"

definition dropped_message_count :: "inner \<Rightarrow> usize" where
  "dropped_message_count i = dropped i"

subsection \<open>Callers\<close>

definition set_call :: "tid \<Rightarrow> caller \<Rightarrow> 'c process \<Rightarrow> 'c process" where
  "set_call t c s = s\<lparr>pr_calls := (pr_calls s)(t := c)\<rparr>"

text \<open>\<open>log\<close> up to the checks: the closed flag, then the filter.\<close>

definition log_enter :: "tid \<Rightarrow> log_entry \<Rightarrow> 'c process \<Rightarrow> 'c process" where
  "log_enter t e s =
     (if is_closed (pr_inner s) then s
      else if \<not> is_enabled_for (pr_inner s) (le_level e) (le_target e) then s
      else set_call t (Stamping e) s)"

text \<open>The time stamp and the context of the calling thread.\<close>

definition log_stamp :: "tid \<Rightarrow> log_entry \<Rightarrow> 'c process \<Rightarrow> 'c process" where
  "log_stamp t e s =
     (case system_now (pr_world s) of (now, w) \<Rightarrow>
        let e = e\<lparr>le_timestamp := timestamp_now now (sint (time_offset_seconds (pr_inner s)))\<rparr>;
            e = merge_context e (current_context t (pr_ctx s))
        in set_call t (Locking (MLog e)) (s\<lparr>pr_world := w, pr_admitted := pr_admitted s @ [(t, e)]\<rparr>))"

text \<open>\<open>tx_guard\<close>: the lock of the sender, poisoned or not.\<close>

definition tx_guard :: "tid \<Rightarrow> message \<Rightarrow> 'c process \<Rightarrow> 'c process option" where
  "tx_guard t msg s =
     (case tx_lock (pr_inner s) of
        Some _ \<Rightarrow> None
      | None \<Rightarrow> Some (set_call t (Sending msg) (s\<lparr>pr_inner := (pr_inner s)\<lparr>tx_lock := Some t\<rparr>\<rparr>)))"

definition tx_release :: "tid \<Rightarrow> caller \<Rightarrow> 'c process \<Rightarrow> 'c process" where
  "tx_release t c s = set_call t c (s\<lparr>pr_inner := (pr_inner s)\<lparr>tx_lock := None\<rparr>\<rparr>)"

definition add_fate :: "tid \<Rightarrow> log_entry \<Rightarrow> fate \<Rightarrow> 'c process \<Rightarrow> 'c process" where
  "add_fate t e f s = s\<lparr>pr_fates := pr_fates s @ [(t, e, f)]\<rparr>"

definition send_message :: "message \<Rightarrow> 'c process \<Rightarrow> 'c process option" where
  "send_message msg s =
     (case chan_send msg (pr_chan s) of
        None \<Rightarrow> None
      | Some c \<Rightarrow> Some (s\<lparr>pr_chan := c, pr_sent := pr_sent s @ [msg]\<rparr>))"

text \<open>The send of \<open>log\<close>, under the lock: \<open>send\<close> or \<open>try_send\<close>, and the synchronous write when the
  receiver is gone.\<close>

definition log_send :: "tid \<Rightarrow> log_entry \<Rightarrow> 'c process \<Rightarrow> 'c process option" where
  "log_send t e s =
     (case send_message (MLog e) s of
        Some s' \<Rightarrow> Some (tx_release t Idle (add_fate t e Queued s'))
      | None \<Rightarrow>
          if chan_full (pr_chan s) then
            (case in_backpressure (pr_inner s) of
               Block \<Rightarrow> None
             | DropNewest \<Rightarrow>
                 (let i = pr_inner s; s' = s\<lparr>pr_inner := i\<lparr>dropped := dropped i + 1\<rparr>\<rparr>
                  in Some (tx_release t Idle (add_fate t e Dropped s'))))
          else
            (let w = snd (emergency_write e (in_json (pr_inner s)) (pr_world s))
             in Some (tx_release t Idle (add_fate t e Emergency (s\<lparr>pr_world := w\<rparr>)))))"

text \<open>\<open>send_ctrl\<close>: always the blocking \<open>send\<close>; without a receiver the call returns.\<close>

definition send_ctrl :: "tid \<Rightarrow> message \<Rightarrow> 'c process \<Rightarrow> 'c process option" where
  "send_ctrl t msg s =
     (case send_message msg s of
        Some s' \<Rightarrow> Some (tx_release t (Awaiting msg) s')
      | None \<Rightarrow> if chan_full (pr_chan s) then None else Some (tx_release t Idle s))"

definition fresh_ack :: "'c process \<Rightarrow> nat \<times> 'c process" where
  "fresh_ack s = (pr_next_ack s, s\<lparr>pr_next_ack := Suc (pr_next_ack s)\<rparr>)"

definition flush_enter :: "tid \<Rightarrow> 'c process \<Rightarrow> 'c process" where
  "flush_enter t s = (case fresh_ack s of (a, s) \<Rightarrow> set_call t (Locking (MFlush a)) s)"

definition shutdown_enter :: "tid \<Rightarrow> 'c process \<Rightarrow> 'c process" where
  "shutdown_enter t s =
     (case fresh_ack (s\<lparr>pr_inner := (pr_inner s)\<lparr>is_closed := True\<rparr>\<rparr>) of
        (a, s) \<Rightarrow> set_call t (Locking (MShutdown a)) s)"

text \<open>\<open>rx.recv()\<close> on an acknowledgement channel: it returns when the acknowledgement is there or its
  sender was dropped with the message.\<close>

definition ack_of :: "message \<Rightarrow> nat option" where
  "ack_of msg = (case msg of MLog e \<Rightarrow> None | MFlush a \<Rightarrow> Some a | MShutdown a \<Rightarrow> Some a)"

definition ack_sender_alive :: "message \<Rightarrow> 'c process \<Rightarrow> bool" where
  "ack_sender_alive msg s \<longleftrightarrow> msg \<in> set (ch_queue (pr_chan s)) \<or> pr_writer s = WBusy msg"

definition ack_arrived :: "message \<Rightarrow> 'c process \<Rightarrow> bool" where
  "ack_arrived msg s \<longleftrightarrow> (case ack_of msg of None \<Rightarrow> False | Some a \<Rightarrow> a \<in> set (pr_acked s))"

definition ack_recv :: "tid \<Rightarrow> message \<Rightarrow> 'c process \<Rightarrow> 'c process option" where
  "ack_recv t msg s =
     (if ack_arrived msg s \<or> \<not> ack_sender_alive msg s
      then Some (set_call t (case msg of MShutdown a \<Rightarrow> Joining | _ \<Rightarrow> Idle) s) else None)"

text \<open>The end of \<open>shutdown\<close>: the lock of the handle, \<open>take\<close> and \<open>join\<close>.\<close>

definition join_enter :: "tid \<Rightarrow> 'c process \<Rightarrow> 'c process option" where
  "join_enter t s =
     (case join_lock (pr_inner s) of
        HandleThere \<Rightarrow> Some (set_call t JoinWait (s\<lparr>pr_inner := (pr_inner s)\<lparr>join_lock := HandleTaken t\<rparr>\<rparr>))
      | HandleTaken _ \<Rightarrow> None
      | HandleGone \<Rightarrow> Some (set_call t Idle s))"

definition join_return :: "tid \<Rightarrow> 'c process \<Rightarrow> 'c process option" where
  "join_return t s =
     (if pr_writer s = WStopped
      then Some (set_call t Idle (s\<lparr>pr_inner := (pr_inner s)\<lparr>join_lock := HandleGone\<rparr>\<rparr>)) else None)"

subsection \<open>The writer thread\<close>

text \<open>Arriving at \<open>rx.recv()\<close>, which a queue of capacity 0 needs to let a message through.\<close>

definition writer_wait :: "'c process \<Rightarrow> 'c process" where
  "writer_wait s = s\<lparr>pr_chan := chan_wait (pr_chan s)\<rparr>"

text \<open>\<open>rx.recv()\<close>: a message, or the disconnection when every clone is gone and the queue is
  empty.\<close>

definition writer_recv :: "'c process \<Rightarrow> 'c process option" where
  "writer_recv s =
     (case chan_recv (pr_chan s) of
        Some (msg, c) \<Rightarrow> Some (s\<lparr>pr_chan := c, pr_writer := WBusy msg\<rparr>)
      | None \<Rightarrow> if pr_clones s then None else Some (s\<lparr>pr_writer := WStopping\<rparr>))"

definition writer_handle :: "'c sink_ops \<Rightarrow> message \<Rightarrow> 'c process \<Rightarrow> 'c process" where
  "writer_handle ops msg s =
     (case writer_step ops (pr_location s) (pr_json s) msg (pr_slots s) (pr_world s) of
        (stop, slots, acks, w) \<Rightarrow>
          s\<lparr>pr_slots := slots, pr_world := w, pr_acked := pr_acked s @ acks, pr_handled := pr_handled s @ [msg],
            pr_writer := (if stop then WStopping else WIdle)\<rparr>)"

text \<open>The last flush, and the end of the thread, with which the receiver is dropped.\<close>

definition writer_exit :: "'c sink_ops \<Rightarrow> 'c process \<Rightarrow> 'c process" where
  "writer_exit ops s =
     (case slots_flush ops (pr_slots s) (pr_world s) of
        (r, slots, w) \<Rightarrow>
          s\<lparr>pr_slots := slots, pr_world := w, pr_discarded := ch_queue (pr_chan s),
            pr_chan := chan_close (pr_chan s), pr_writer := WStopped\<rparr>)"

definition writer_next :: "'c sink_ops \<Rightarrow> 'c process \<Rightarrow> 'c process option" where
  "writer_next ops s = (case pr_writer s of
     WIdle \<Rightarrow> writer_recv s
   | WBusy msg \<Rightarrow> Some (writer_handle ops msg s)
   | WStopping \<Rightarrow> Some (writer_exit ops s)
   | WStopped \<Rightarrow> None)"

inductive writer_moves :: "'c sink_ops \<Rightarrow> 'c process \<Rightarrow> 'c process \<Rightarrow> bool" for ops where
  wait: "pr_writer s = WIdle \<Longrightarrow> writer_moves ops s (writer_wait s)"
| work: "writer_next ops s = Some s' \<Longrightarrow> writer_moves ops s s'"

subsection \<open>The process\<close>

text \<open>The next piece of the call a thread is in.\<close>

definition call_step :: "tid \<Rightarrow> 'c process \<Rightarrow> 'c process option" where
  "call_step t s = (case pr_calls s t of
     Idle \<Rightarrow> None
   | Stamping e \<Rightarrow> Some (log_stamp t e s)
   | Locking msg \<Rightarrow> tx_guard t msg s
   | Sending msg \<Rightarrow> (case msg of MLog e \<Rightarrow> log_send t e s | _ \<Rightarrow> send_ctrl t msg s)
   | Awaiting msg \<Rightarrow> ack_recv t msg s
   | Joining \<Rightarrow> join_enter t s
   | JoinWait \<Rightarrow> join_return t s)"

text \<open>A call begins on an idle thread through a clone of the logger, which lives as long as the call.
  The last clone can go when no call is in progress.\<close>

inductive lstep :: "'c sink_ops \<Rightarrow> 'c process \<Rightarrow> 'c process \<Rightarrow> bool" for ops where
  push: "pr_calls s t = Idle \<Longrightarrow> lstep ops s (s\<lparr>pr_ctx := snd (push_context t fs (pr_ctx s))\<rparr>)"
| drop_guard: "pr_calls s t = Idle \<Longrightarrow> lstep ops s (s\<lparr>pr_ctx := guard_drop t g (pr_ctx s)\<rparr>)"
| log: "pr_calls s t = Idle \<Longrightarrow> pr_clones s \<Longrightarrow> lstep ops s (log_enter t e s)"
| flush: "pr_calls s t = Idle \<Longrightarrow> pr_clones s \<Longrightarrow> lstep ops s (flush_enter t s)"
| shutdown: "pr_calls s t = Idle \<Longrightarrow> pr_clones s \<Longrightarrow> lstep ops s (shutdown_enter t s)"
| call: "call_step t s = Some s' \<Longrightarrow> lstep ops s s'"
| writer: "writer_moves ops s s' \<Longrightarrow> lstep ops s s'"
| last_drop: "\<forall>t. pr_calls s t = Idle \<Longrightarrow> lstep ops s (s\<lparr>pr_clones := False\<rparr>)"

inductive_cases writer_movesE: "writer_moves ops s s'"

text \<open>A process right after \<open>build\<close>.\<close>

definition started :: "inner \<Rightarrow> bool \<Rightarrow> nat \<Rightarrow> 'c sink_slot list \<Rightarrow> ctx_state \<Rightarrow> world \<Rightarrow> 'c process" where
  "started i include_location capacity slots ctx w =
     \<lparr>pr_inner = i, pr_clones = True, pr_calls = (\<lambda>_. Idle), pr_chan = sync_channel capacity,
      pr_writer = WIdle, pr_slots = slots, pr_location = include_location, pr_json = in_json i,
      pr_acked = [], pr_next_ack = 0, pr_ctx = ctx, pr_world = w, pr_sent = [], pr_handled = [],
      pr_discarded = [], pr_admitted = [], pr_fates = []\<rparr>"

definition fresh_inner :: "inner \<Rightarrow> bool" where
  "fresh_inner i \<longleftrightarrow> tx_lock i = None \<and> join_lock i = HandleThere \<and> \<not> is_closed i \<and> dropped i = 0"

text \<open>Reachability.\<close>

abbreviation lreach :: "'c sink_ops \<Rightarrow> 'c process \<Rightarrow> 'c process \<Rightarrow> bool" where
  "lreach ops \<equiv> rtranclp (lstep ops)"

subsection \<open>Schedules\<close>

text \<open>The same steps, named, so that a schedule can be run.\<close>

datatype act = ALog tid log_entry | AFlush tid | AShutdown tid | ACall tid | AWriter | AWait

definition act_step :: "'c sink_ops \<Rightarrow> act \<Rightarrow> 'c process \<Rightarrow> 'c process option" where
  "act_step ops a s = (case a of
     ALog t e \<Rightarrow> if pr_calls s t = Idle \<and> pr_clones s then Some (log_enter t e s) else None
   | AFlush t \<Rightarrow> if pr_calls s t = Idle \<and> pr_clones s then Some (flush_enter t s) else None
   | AShutdown t \<Rightarrow> if pr_calls s t = Idle \<and> pr_clones s then Some (shutdown_enter t s) else None
   | ACall t \<Rightarrow> call_step t s
   | AWriter \<Rightarrow> writer_next ops s
   | AWait \<Rightarrow> if pr_writer s = WIdle then Some (writer_wait s) else None)"

fun acts_run :: "'c sink_ops \<Rightarrow> act list \<Rightarrow> 'c process \<Rightarrow> 'c process option" where
  "acts_run ops [] s = Some s"
| "acts_run ops (a # as) s = (case act_step ops a s of None \<Rightarrow> None | Some s' \<Rightarrow> acts_run ops as s')"

lemma act_step_lstep: "act_step ops a s = Some s' \<Longrightarrow> lstep ops s s'"
  by (cases a) (auto simp: act_step_def intro: lstep.intros writer_moves.intros split: if_splits)

fun_cases acts_run_ConsE: "acts_run ops (a # as) s = Some s'"

lemma acts_run_lreach: "acts_run ops as s = Some s' \<Longrightarrow> lreach ops s s'"
proof (induction as arbitrary: s)
  case (Cons a as)
  from Cons.prems show ?case
    by (elim acts_run_ConsE) (auto split: option.splits dest!: act_step_lstep
        intro: Cons.IH [OF sym] converse_rtranclp_into_rtranclp)
qed simp

end
