(* ===== verification/Xos_Concurrency.thy ===== *)
theory Xos_Concurrency
  imports Xos_Logger
begin

section \<open>What the logger guarantees to concurrent callers\<close>

text \<open>
  Invariants of the step relation of the logger, each kept by every step, and the properties that
  follow from them for every reachable state: no record is lost, duplicated or reordered, what an
  acknowledged flush means, that the writer alone can always let a flush return, and which records a
  shutdown loses.
\<close>

subsection \<open>The steps of a call\<close>

lemmas call_defs = set_call_def tx_release_def add_fate_def

lemma call_step_cases [consumes 1, case_names stamp lock queued dropped emergency sent unsent acked
    take gone joined]:
  assumes "call_step t s = Some s'"
  obtains
    (stamp) e where "pr_calls s t = Stamping e" "s' = log_stamp t e s"
  | (lock) msg where "pr_calls s t = Locking msg" "tx_lock (pr_inner s) = None"
      "s' = set_call t (Sending msg) (s\<lparr>pr_inner := (pr_inner s)\<lparr>tx_lock := Some t\<rparr>\<rparr>)"
  | (queued) e c where "pr_calls s t = Sending (MLog e)" "chan_send (MLog e) (pr_chan s) = Some c"
      "s' = tx_release t Idle (add_fate t e Queued (s\<lparr>pr_chan := c, pr_sent := pr_sent s @ [MLog e]\<rparr>))"
  | (dropped) e where "pr_calls s t = Sending (MLog e)" "chan_full (pr_chan s)"
      "in_backpressure (pr_inner s) = DropNewest"
      "s' = tx_release t Idle (add_fate t e Dropped
         (s\<lparr>pr_inner := (pr_inner s)\<lparr>dropped := dropped (pr_inner s) + 1\<rparr>\<rparr>))"
  | (emergency) e where "pr_calls s t = Sending (MLog e)" "\<not> ch_alive (pr_chan s)"
      "s' = tx_release t Idle (add_fate t e Emergency
         (s\<lparr>pr_world := snd (emergency_write e (in_json (pr_inner s)) (pr_world s))\<rparr>))"
  | (sent) msg c where "pr_calls s t = Sending msg" "ack_of msg \<noteq> None" "chan_send msg (pr_chan s) = Some c"
      "s' = tx_release t (Awaiting msg) (s\<lparr>pr_chan := c, pr_sent := pr_sent s @ [msg]\<rparr>)"
  | (unsent) msg where "pr_calls s t = Sending msg" "ack_of msg \<noteq> None" "\<not> ch_alive (pr_chan s)"
      "s' = tx_release t Idle s"
  | (acked) msg c where "pr_calls s t = Awaiting msg" "ack_arrived msg s \<or> \<not> ack_sender_alive msg s"
      "c = Idle \<or> c = Joining \<and> (\<exists>a. msg = MShutdown a)" "s' = set_call t c s"
  | (take) "pr_calls s t = Joining"
      "s' = set_call t JoinWait (s\<lparr>pr_inner := (pr_inner s)\<lparr>join_lock := HandleTaken t\<rparr>\<rparr>)"
  | (gone) "pr_calls s t = Joining" "join_lock (pr_inner s) = HandleGone" "s' = set_call t Idle s"
  | (joined) "pr_calls s t = JoinWait" "pr_writer s = WStopped"
      "s' = set_call t Idle (s\<lparr>pr_inner := (pr_inner s)\<lparr>join_lock := HandleGone\<rparr>\<rparr>)"
proof (cases "pr_calls s t")
  case (Sending msg)
  show thesis
  proof (cases "chan_send msg (pr_chan s)")
    case (Some c)
    then show thesis using assms Sending that(3,6)
      by (cases msg) (auto simp: call_step_def log_send_def send_ctrl_def send_message_def ack_of_def)
  next
    case None
    then have alive: "ch_alive (pr_chan s) \<longleftrightarrow> chan_full (pr_chan s)"
      by (auto simp: chan_send_def chan_full_def split: if_splits)
    show thesis
    proof (cases msg)
      case (MLog e)
      then show thesis using assms Sending None alive that(4,5)
        by (auto simp: call_step_def log_send_def send_message_def Let_def split: if_splits backpressure.splits)
    qed (use assms Sending None alive that(7) in
        \<open>auto simp: call_step_def send_ctrl_def send_message_def ack_of_def split: if_splits\<close>)
  qed
next
  case (Locking msg)
  then show thesis using assms that(2) by (auto simp: call_step_def tx_guard_def split: option.splits)
next
  case (Awaiting msg)
  then show thesis using assms that(8)
    by (auto simp: call_step_def ack_recv_def split: if_splits message.splits)
qed (use assms that in \<open>auto simp: call_step_def join_enter_def join_return_def
      split: join_handle.splits if_splits\<close>)

lemma writer_moves_cases [consumes 1, case_names wait recv disconnect handle exit]:
  assumes "writer_moves ops s s'"
  obtains
    (wait) "pr_writer s = WIdle" "s' = writer_wait s"
  | (recv) msg c where "pr_writer s = WIdle" "chan_recv (pr_chan s) = Some (msg, c)"
      "s' = s\<lparr>pr_chan := c, pr_writer := WBusy msg\<rparr>"
  | (disconnect) "pr_writer s = WIdle" "ch_queue (pr_chan s) = []" "\<not> pr_clones s" "s' = s\<lparr>pr_writer := WStopping\<rparr>"
  | (handle) msg where "pr_writer s = WBusy msg" "s' = writer_handle ops msg s"
  | (exit) "pr_writer s = WStopping" "s' = writer_exit ops s"
  using assms
  by (elim writer_movesE)
    (auto simp: writer_next_def writer_recv_def chan_recv_laws(3) split: writer.splits option.splits if_splits)

lemma writer_step_effect:
  assumes "writer_step ops il json msg slots w = (stop, slots', acks, w')"
  shows "stop \<Longrightarrow> \<exists>a. msg = MShutdown a" "set acks \<subseteq> set (acks_of [msg])"
  using assms
  by (auto simp: writer_step_def handle_message_def Let_def acks_of_def
      split: prod.splits outcome.splits message.splits)

subsection \<open>The queue\<close>

definition busy :: "writer \<Rightarrow> message list" where
  "busy wr = (case wr of WBusy msg \<Rightarrow> [msg] | _ \<Rightarrow> [])"

lemma busy_simps [simp]:
  "busy WIdle = []" "busy (WBusy msg) = [msg]" "busy WStopping = []" "busy WStopped = []"
  by (simp_all add: busy_def)

text \<open>What was sent has been handled, is being handled or is queued, in order; what is discarded is
  the queue at the moment the thread ends.\<close>

definition queue_inv :: "'c process \<Rightarrow> bool" where
  "queue_inv s \<longleftrightarrow>
     (if ch_alive (pr_chan s)
      then pr_writer s \<noteq> WStopped \<and> pr_discarded s = [] \<and>
        mpsc.accounts (pr_sent s) (pr_handled s @ busy (pr_writer s)) (pr_chan s)
      else pr_writer s = WStopped \<and> ch_queue (pr_chan s) = [] \<and> pr_sent s = pr_handled s @ pr_discarded s)"

lemma queue_inv_frame:
  "queue_inv s \<Longrightarrow> pr_chan s' = pr_chan s \<Longrightarrow> pr_writer s' = pr_writer s \<Longrightarrow> pr_discarded s' = pr_discarded s \<Longrightarrow>
   pr_sent s' = pr_sent s \<Longrightarrow> pr_handled s' = pr_handled s \<Longrightarrow> queue_inv s'"
  by (simp add: queue_inv_def)

lemma queue_inv_send:
  assumes "queue_inv s" "chan_send msg (pr_chan s) = Some c" "pr_chan s' = c" "pr_sent s' = pr_sent s @ [msg]"
    "pr_writer s' = pr_writer s" "pr_discarded s' = pr_discarded s" "pr_handled s' = pr_handled s"
  shows "queue_inv s'"
proof -
  have "ch_alive (pr_chan s)" "ch_alive c" using assms(2) by (auto simp: chan_send_def split: if_splits)
  with assms mpsc.accounts_put [OF _ assms(2)] show ?thesis by (simp add: queue_inv_def)
qed

lemma log_enter_cases: "log_enter t e s = s \<or> log_enter t e s = set_call t (Stamping e) s"
  by (simp add: log_enter_def)

lemma log_stamp_simps [simp]:
  "pr_chan (log_stamp t e s) = pr_chan s" "pr_writer (log_stamp t e s) = pr_writer s"
  "pr_discarded (log_stamp t e s) = pr_discarded s" "pr_sent (log_stamp t e s) = pr_sent s"
  "pr_handled (log_stamp t e s) = pr_handled s" "pr_fates (log_stamp t e s) = pr_fates s"
  "pr_inner (log_stamp t e s) = pr_inner s" "pr_acked (log_stamp t e s) = pr_acked s"
  "pr_next_ack (log_stamp t e s) = pr_next_ack s" "pr_slots (log_stamp t e s) = pr_slots s"
  "pr_location (log_stamp t e s) = pr_location s" "pr_json (log_stamp t e s) = pr_json s"
  "pr_clones (log_stamp t e s) = pr_clones s"
  by (simp_all add: log_stamp_def call_defs Let_def split: prod.split)

text \<open>The record as it is sent: with its time stamp and the context of its thread.\<close>

definition stamped :: "tid \<Rightarrow> log_entry \<Rightarrow> 'c process \<Rightarrow> log_entry" where
  "stamped t e s = merge_context
     (e\<lparr>le_timestamp := timestamp_now (fst (system_now (pr_world s))) (sint (time_offset_seconds (pr_inner s)))\<rparr>)
     (current_context t (pr_ctx s))"

lemma log_stamp_stamped [simp]:
  "pr_calls (log_stamp t e s) = (pr_calls s)(t := Locking (MLog (stamped t e s)))"
  "pr_admitted (log_stamp t e s) = pr_admitted s @ [(t, stamped t e s)]"
  "pr_world (log_stamp t e s) = snd (system_now (pr_world s))"
  by (simp_all add: log_stamp_def call_defs stamped_def Let_def split: prod.split)

lemma writer_handle_cases:
  obtains stop slots acks w where
    "writer_step ops (pr_location s) (pr_json s) msg (pr_slots s) (pr_world s) = (stop, slots, acks, w)"
    "writer_handle ops msg s = s\<lparr>pr_slots := slots, pr_world := w, pr_acked := pr_acked s @ acks,
       pr_handled := pr_handled s @ [msg], pr_writer := (if stop then WStopping else WIdle)\<rparr>"
proof -
  obtain stop slots acks w where
    "writer_step ops (pr_location s) (pr_json s) msg (pr_slots s) (pr_world s) = (stop, slots, acks, w)"
    using prod_cases4 by blast
  then show thesis using that by (simp add: writer_handle_def)
qed

lemma writer_exit_cases:
  obtains r slots w where "slots_flush ops (pr_slots s) (pr_world s) = (r, slots, w)"
    "writer_exit ops s = s\<lparr>pr_slots := slots, pr_world := w, pr_discarded := ch_queue (pr_chan s),
       pr_chan := chan_close (pr_chan s), pr_writer := WStopped\<rparr>"
  using that by (cases "slots_flush ops (pr_slots s) (pr_world s)") (simp add: writer_exit_def)

lemma queue_inv_started: "queue_inv (started i il cap slots ctx w)"
  by (simp add: queue_inv_def started_def sync_channel_def mpsc.accounts_def)

lemma queue_inv_writer:
  assumes "writer_moves ops s s'" "queue_inv s"
  shows "queue_inv s'"
  using assms(1)
proof (cases rule: writer_moves_cases)
  case wait
  with assms(2) show ?thesis by (simp add: queue_inv_def writer_wait_def mpsc.accounts_def split: if_splits)
next
  case (recv msg c)
  then have al: "ch_alive (pr_chan s)" using assms(2) by (auto simp: queue_inv_def chan_recv_def split: if_splits)
  moreover have "ch_alive c = ch_alive (pr_chan s)"
    using recv by (auto simp: chan_recv_def split: list.splits)
  ultimately show ?thesis using recv assms(2) mpsc.accounts_get [OF _ recv(2)] by (simp add: queue_inv_def)
next
  case disconnect
  with assms(2) show ?thesis by (simp add: queue_inv_def split: if_splits)
next
  case (handle msg)
  obtain stop slots acks w where "writer_handle ops msg s = s\<lparr>pr_slots := slots, pr_world := w,
      pr_acked := pr_acked s @ acks, pr_handled := pr_handled s @ [msg],
      pr_writer := (if stop then WStopping else WIdle)\<rparr>"
    by (rule writer_handle_cases)
  with handle assms(2) show ?thesis by (simp add: queue_inv_def split: if_splits)
next
  case exit
  obtain r slots w where "writer_exit ops s = s\<lparr>pr_slots := slots, pr_world := w,
      pr_discarded := ch_queue (pr_chan s), pr_chan := chan_close (pr_chan s), pr_writer := WStopped\<rparr>"
    by (rule writer_exit_cases)
  with exit assms(2) show ?thesis by (simp add: queue_inv_def mpsc.accounts_def split: if_splits)
qed

lemma queue_inv_call:
  assumes "call_step t s = Some s'" "queue_inv s"
  shows "queue_inv s'"
  using assms(1)
proof (cases rule: call_step_cases)
  case queued
  then show ?thesis by (intro queue_inv_send [OF assms(2)]) (auto simp: call_defs)
next
  case sent
  then show ?thesis by (intro queue_inv_send [OF assms(2)]) (auto simp: call_defs)
qed (auto simp: call_defs intro: queue_inv_frame [OF assms(2)])

lemma queue_inv_step: "lstep ops s s' \<Longrightarrow> queue_inv s \<Longrightarrow> queue_inv s'"
proof (induction rule: lstep.induct)
  case (log s t e)
  then show ?case using log_enter_cases [of t e s] by (auto simp: call_defs intro: queue_inv_frame)
qed (auto simp: flush_enter_def shutdown_enter_def fresh_ack_def call_defs
    intro: queue_inv_frame queue_inv_call queue_inv_writer)

lemma queue_inv_reach: "lreach ops (started i il cap slots ctx w) s \<Longrightarrow> queue_inv s"
  by (induction rule: rtranclp_induct) (auto intro: queue_inv_started queue_inv_step)


subsection \<open>The fate of a record\<close>

definition with_fate :: "fate \<Rightarrow> 'c process \<Rightarrow> log_entry list" where
  "with_fate f s = map (\<lambda>x. fst (snd x)) (filter (\<lambda>x. snd (snd x) = f) (pr_fates s))"

definition settled_by :: "tid \<Rightarrow> 'c process \<Rightarrow> log_entry list" where
  "settled_by t s = map (\<lambda>x. fst (snd x)) (filter (\<lambda>x. fst x = t) (pr_fates s))"

definition admitted_by :: "tid \<Rightarrow> 'c process \<Rightarrow> log_entry list" where
  "admitted_by t s = map snd (filter (\<lambda>x. fst x = t) (pr_admitted s))"

text \<open>The record a thread is about to send.\<close>

definition pending :: "caller \<Rightarrow> log_entry list" where
  "pending c = (case c of Locking msg \<Rightarrow> records_of [msg] | Sending msg \<Rightarrow> records_of [msg] | _ \<Rightarrow> [])"

lemma records_of_simps [simp]:
  "records_of [] = []" "records_of (MLog e # ms) = e # records_of ms" "records_of (MFlush a # ms) = records_of ms"
  "records_of (MShutdown a # ms) = records_of ms" "records_of (ms @ ms') = records_of ms @ records_of ms'"
  by (simp_all add: records_of_def)

lemma records_of_control [simp]: "ack_of msg \<noteq> None \<Longrightarrow> records_of [msg] = []"
  by (cases msg) (simp_all add: ack_of_def)

definition fate_inv :: "'c process \<Rightarrow> bool" where
  "fate_inv s \<longleftrightarrow>
     with_fate Queued s = records_of (pr_sent s) \<and>
     dropped (pr_inner s) = word_of_nat (length (with_fate Dropped s)) \<and>
     (in_backpressure (pr_inner s) = Block \<longrightarrow> with_fate Dropped s = []) \<and>
     (ch_alive (pr_chan s) \<longrightarrow> with_fate Emergency s = []) \<and>
     (\<forall>t. admitted_by t s = settled_by t s @ pending (pr_calls s t))"

lemma pending_simps [simp]:
  "pending Idle = []" "pending (Stamping e) = []" "pending (Locking msg) = records_of [msg]"
  "pending (Sending msg) = records_of [msg]" "pending (Awaiting msg) = []" "pending Joining = []" "pending JoinWait = []"
  by (simp_all add: pending_def)

lemma fate_inv_frame:
  assumes "fate_inv s" "pr_fates s' = pr_fates s" "pr_sent s' = pr_sent s" "pr_admitted s' = pr_admitted s"
    "dropped (pr_inner s') = dropped (pr_inner s)" "in_backpressure (pr_inner s') = in_backpressure (pr_inner s)"
    "ch_alive (pr_chan s') \<Longrightarrow> ch_alive (pr_chan s)"
    "\<And>t. pending (pr_calls s' t) = pending (pr_calls s t)"
  shows "fate_inv s'"
  using assms by (simp add: fate_inv_def with_fate_def settled_by_def admitted_by_def)

lemma fate_inv_started: "fresh_inner i \<Longrightarrow> fate_inv (started i il cap slots ctx w)"
  by (simp add: fate_inv_def started_def fresh_inner_def with_fate_def settled_by_def admitted_by_def)

lemma chan_send_alive: "chan_send msg c = Some c' \<Longrightarrow> ch_alive c \<and> ch_alive c'"
  by (auto simp: chan_send_def split: if_splits)

lemma chan_recv_alive: "chan_recv c = Some (msg, c') \<Longrightarrow> ch_alive c' = ch_alive c"
  by (auto simp: chan_recv_def split: list.splits)

lemma fate_inv_writer:
  assumes "writer_moves ops s s'" "fate_inv s"
  shows "fate_inv s'"
  using assms(1)
proof (cases rule: writer_moves_cases)
  case (handle msg)
  show ?thesis by (rule writer_handle_cases [of ops s msg]) (use handle in \<open>auto intro: fate_inv_frame [OF assms(2)]\<close>)
next
  case exit
  show ?thesis by (rule writer_exit_cases [of ops s]) (use exit in \<open>auto intro: fate_inv_frame [OF assms(2)]\<close>)
qed (auto simp: writer_wait_def chan_recv_alive intro: fate_inv_frame [OF assms(2)])

lemma fate_inv_call:
  assumes "call_step t s = Some s'" "fate_inv s"
  shows "fate_inv s'"
  using assms(1)
proof (cases rule: call_step_cases)
  case (stamp e)
  then show ?thesis using assms(2)
    by (auto simp: fate_inv_def with_fate_def settled_by_def admitted_by_def)
next
  case (queued e c)
  then show ?thesis using assms(2) chan_send_alive [OF queued(2)]
    by (auto simp: fate_inv_def with_fate_def settled_by_def admitted_by_def call_defs)
next
  case (dropped e)
  then show ?thesis using assms(2)
    by (auto simp: fate_inv_def with_fate_def settled_by_def admitted_by_def call_defs)
next
  case (emergency e)
  then show ?thesis using assms(2)
    by (auto simp: fate_inv_def with_fate_def settled_by_def admitted_by_def call_defs)
next
  case (sent msg c)
  then show ?thesis using assms(2) chan_send_alive [OF sent(3)]
    by (auto simp: fate_inv_def with_fate_def settled_by_def admitted_by_def call_defs)
qed (auto simp: call_defs intro: fate_inv_frame [OF assms(2)])

lemma fate_inv_step: "lstep ops s s' \<Longrightarrow> fate_inv s \<Longrightarrow> fate_inv s'"
proof (induction rule: lstep.induct)
  case (log s t e)
  then show ?case using log_enter_cases [of t e s] by (auto simp: call_defs intro: fate_inv_frame)
qed (auto simp: flush_enter_def shutdown_enter_def fresh_ack_def call_defs
    intro: fate_inv_frame fate_inv_call fate_inv_writer)

lemma fate_inv_reach: "lreach ops (started i il cap slots ctx w) s \<Longrightarrow> fresh_inner i \<Longrightarrow> fate_inv s"
  by (induction rule: rtranclp_induct) (auto intro: fate_inv_started fate_inv_step)

subsection \<open>Configuration\<close>

text \<open>What no step changes.\<close>

definition same_config :: "'c process \<Rightarrow> 'c process \<Rightarrow> bool" where
  "same_config s s' \<longleftrightarrow> pr_location s' = pr_location s \<and> pr_json s' = pr_json s \<and>
     ch_capacity (pr_chan s') = ch_capacity (pr_chan s) \<and> in_level (pr_inner s') = in_level (pr_inner s) \<and>
     in_filter (pr_inner s') = in_filter (pr_inner s) \<and> in_json (pr_inner s') = in_json (pr_inner s) \<and>
     in_backpressure (pr_inner s') = in_backpressure (pr_inner s) \<and>
     time_offset_seconds (pr_inner s') = time_offset_seconds (pr_inner s)"

lemma chan_capacity:
  "chan_send msg c = Some c' \<Longrightarrow> ch_capacity c' = ch_capacity c"
  "chan_recv c = Some (msg, c') \<Longrightarrow> ch_capacity c' = ch_capacity c"
  by (auto simp: chan_send_def chan_recv_def split: if_splits list.splits)

lemma same_config_writer:
  assumes "writer_moves ops s s'"
  shows "same_config s s'"
  using assms
proof (cases rule: writer_moves_cases)
  case (handle msg)
  show ?thesis by (rule writer_handle_cases [of ops s msg]) (use handle in \<open>auto simp: same_config_def\<close>)
next
  case exit
  show ?thesis by (rule writer_exit_cases [of ops s]) (use exit in \<open>auto simp: same_config_def\<close>)
qed (auto simp: writer_wait_def chan_capacity same_config_def)

lemma same_config_call: "call_step t s = Some s' \<Longrightarrow> same_config s s'"
  by (cases rule: call_step_cases) (auto simp: same_config_def call_defs chan_capacity)

lemma same_config_step: "lstep ops s s' \<Longrightarrow> same_config s s'"
proof (induction rule: lstep.induct)
  case (log s t e)
  then show ?case using log_enter_cases [of t e s] by (auto simp: call_defs same_config_def)
next
  case (call t s s')
  then show ?case by (rule same_config_call)
next
  case (writer s s')
  then show ?case by (rule same_config_writer)
qed (simp_all add: flush_enter_def shutdown_enter_def fresh_ack_def call_defs same_config_def)

lemma same_config_reach: "lreach ops s s' \<Longrightarrow> same_config s s'"
  by (induction rule: rtranclp_induct) (auto dest: same_config_step simp: same_config_def)


subsection \<open>Acknowledgements and the lock of the sender\<close>

text \<open>The acknowledgement channel of a request that is not sent yet.\<close>

definition own_ack :: "caller \<Rightarrow> nat option" where
  "own_ack c = (case c of Locking msg \<Rightarrow> ack_of msg | Sending msg \<Rightarrow> ack_of msg | _ \<Rightarrow> None)"

lemma own_ack_simps [simp]:
  "own_ack Idle = None" "own_ack (Stamping e) = None" "own_ack (Locking msg) = ack_of msg"
  "own_ack (Sending msg) = ack_of msg" "own_ack (Awaiting msg) = None" "own_ack Joining = None" "own_ack JoinWait = None"
  by (simp_all add: own_ack_def)

lemma ack_of_simps [simp]: "ack_of (MLog e) = None" "ack_of (MFlush a) = Some a" "ack_of (MShutdown a) = Some a"
  by (simp_all add: ack_of_def)

lemma acks_of_append [simp]: "acks_of (ms @ ms') = acks_of ms @ acks_of ms'"
  by (simp add: acks_of_def)

lemma acks_of_one: "acks_of [msg] = (case ack_of msg of None \<Rightarrow> [] | Some a \<Rightarrow> [a])"
  by (cases msg) simp_all

lemma in_acks_of: "a \<in> set (acks_of ms) \<longleftrightarrow> (\<exists>msg \<in> set ms. ack_of msg = Some a)"
  by (induction ms) (auto simp: acks_of_def ack_of_def split: message.splits)

definition ack_inv :: "'c process \<Rightarrow> bool" where
  "ack_inv s \<longleftrightarrow>
     distinct (acks_of (pr_sent s)) \<and> (\<forall>a \<in> set (acks_of (pr_sent s)). a < pr_next_ack s) \<and>
     (\<forall>t a. own_ack (pr_calls s t) = Some a \<longrightarrow> a < pr_next_ack s \<and> a \<notin> set (acks_of (pr_sent s))) \<and>
     (\<forall>t t'. own_ack (pr_calls s t) = own_ack (pr_calls s t') \<longrightarrow> own_ack (pr_calls s t) \<noteq> None \<longrightarrow> t = t') \<and>
     set (pr_acked s) \<subseteq> set (acks_of (pr_handled s)) \<and>
     (\<forall>t msg. pr_calls s t = Awaiting msg \<longrightarrow> msg \<in> set (pr_sent s) \<and> ack_of msg \<noteq> None)"

definition is_sending :: "caller \<Rightarrow> bool" where
  "is_sending c \<longleftrightarrow> (case c of Sending msg \<Rightarrow> True | _ \<Rightarrow> False)"

lemma is_sending_simps [simp]:
  "\<not> is_sending Idle" "\<not> is_sending (Stamping e)" "\<not> is_sending (Locking msg)" "is_sending (Sending msg)"
  "\<not> is_sending (Awaiting msg)" "\<not> is_sending Joining" "\<not> is_sending JoinWait"
  by (simp_all add: is_sending_def)

definition lock_inv :: "'c process \<Rightarrow> bool" where
  "lock_inv s \<longleftrightarrow> (\<forall>t. is_sending (pr_calls s t) \<longleftrightarrow> tx_lock (pr_inner s) = Some t)"

lemma ack_inv_started: "ack_inv (started i il cap slots ctx w)"
  by (simp add: ack_inv_def started_def)

lemma lock_inv_started: "fresh_inner i \<Longrightarrow> lock_inv (started i il cap slots ctx w)"
  by (simp add: lock_inv_def started_def fresh_inner_def)

text \<open>A thread moves without sending anything or asking for an acknowledgement.\<close>

lemma ack_inv_quiet:
  assumes "ack_inv s" "pr_calls s' = (pr_calls s)(t := c)" "pr_sent s' = pr_sent s" "pr_acked s' = pr_acked s"
    "pr_handled s' = pr_handled s" "pr_next_ack s' = pr_next_ack s"
    "own_ack c = None \<or> own_ack c = own_ack (pr_calls s t)" "\<And>msg. c = Awaiting msg \<Longrightarrow> c = pr_calls s t"
  shows "ack_inv s'"
proof -
  have own: "own_ack (pr_calls s' u) = Some a \<Longrightarrow> own_ack (pr_calls s u) = Some a" for u a
    using assms(2,7) by (auto split: if_splits)
  have wait: "pr_calls s' u = Awaiting msg \<Longrightarrow> pr_calls s u = Awaiting msg" for u msg
    using assms(2,8) by (auto split: if_splits)
  have one: "u = u'" if "own_ack (pr_calls s u) = Some a" "own_ack (pr_calls s u') = Some a" for u u' a
    using assms(1) that by (auto simp: ack_inv_def)
  have "u = u'" if "own_ack (pr_calls s' u) = own_ack (pr_calls s' u')" "own_ack (pr_calls s' u) \<noteq> None" for u u'
    using that own [of u] own [of u'] one [of u _ u'] by (cases "own_ack (pr_calls s' u)") auto
  then show ?thesis
    using assms(1) by (auto simp: ack_inv_def assms(3-6) dest: own wait)
qed

lemma ack_inv_same:
  assumes "ack_inv s" "pr_calls s' = pr_calls s" "pr_sent s' = pr_sent s" "pr_acked s' = pr_acked s"
    "pr_handled s' = pr_handled s" "pr_next_ack s' = pr_next_ack s"
  shows "ack_inv s'"
  using assms by (simp add: ack_inv_def)

text \<open>A thread sends the message it was about to send.\<close>

lemma ack_inv_send:
  assumes inv: "ack_inv s" and was: "pr_calls s t = Sending msg"
    and to: "pr_calls s' = (pr_calls s)(t := c)" "own_ack c = None" "\<And>m. c = Awaiting m \<Longrightarrow> m = msg \<and> ack_of msg \<noteq> None"
    and rest: "pr_sent s' = pr_sent s @ [msg]" "pr_acked s' = pr_acked s" "pr_handled s' = pr_handled s"
      "pr_next_ack s' = pr_next_ack s"
  shows "ack_inv s'"
proof -
  have own: "own_ack (pr_calls s t) = ack_of msg" using was by simp
  have fresh: "a < pr_next_ack s \<and> a \<notin> set (acks_of (pr_sent s))" if "ack_of msg = Some a" for a
    using inv own that by (auto simp: ack_inv_def)
  have sent: "set (acks_of (pr_sent s')) = set (acks_of (pr_sent s)) \<union> set (acks_of [msg])"
    "distinct (acks_of (pr_sent s'))"
    using inv fresh by (auto simp: rest ack_inv_def acks_of_one split: option.splits)
  have new: "a \<in> set (acks_of [msg]) \<longleftrightarrow> ack_of msg = Some a" for a
    by (auto simp: acks_of_one split: option.splits)
  have other: "own_ack (pr_calls s u) = Some a \<Longrightarrow> u \<noteq> t \<Longrightarrow> ack_of msg \<noteq> Some a" for u a
    using inv own unfolding ack_inv_def by (metis option.distinct(1))
  have calls: "pr_calls s' u = (if u = t then c else pr_calls s u)" for u using to(1) by simp
  show ?thesis
    unfolding ack_inv_def
  proof (intro conjI allI impI ballI)
    show "distinct (acks_of (pr_sent s'))" by (rule sent(2))
    show "a < pr_next_ack s'" if "a \<in> set (acks_of (pr_sent s'))" for a
      using that inv fresh new by (auto simp: sent(1) rest(4) ack_inv_def)
    show "a < pr_next_ack s'" "a \<notin> set (acks_of (pr_sent s'))" if "own_ack (pr_calls s' u) = Some a" for u a
      using that inv to(2) other [of u a] new by (auto simp: calls sent(1) rest(4) ack_inv_def split: if_splits)
    show "u = u'" if "own_ack (pr_calls s' u) = own_ack (pr_calls s' u')" "own_ack (pr_calls s' u) \<noteq> None" for u u'
      using that inv to(2) by (auto simp: calls ack_inv_def split: if_splits)
    show "set (pr_acked s') \<subseteq> set (acks_of (pr_handled s'))" using inv by (simp add: rest ack_inv_def)
    show "m \<in> set (pr_sent s')" "ack_of m \<noteq> None" if "pr_calls s' u = Awaiting m" for u m
      using that inv to(3) by (auto simp: calls rest(1) ack_inv_def split: if_splits)
  qed
qed

lemma ack_inv_writer:
  assumes "writer_moves ops s s'" "ack_inv s"
  shows "ack_inv s'"
  using assms(1)
proof (cases rule: writer_moves_cases)
  case (handle msg)
  obtain stop slots acks w where
    1: "writer_step ops (pr_location s) (pr_json s) msg (pr_slots s) (pr_world s) = (stop, slots, acks, w)" and
    2: "writer_handle ops msg s = s\<lparr>pr_slots := slots, pr_world := w, pr_acked := pr_acked s @ acks,
       pr_handled := pr_handled s @ [msg], pr_writer := (if stop then WStopping else WIdle)\<rparr>"
    by (rule writer_handle_cases)
  from assms(2) writer_step_effect(2) [OF 1] show ?thesis by (auto simp: handle(2) 2 ack_inv_def)
next
  case exit
  show ?thesis by (rule writer_exit_cases [of ops s]) (use exit in \<open>auto intro: ack_inv_same [OF assms(2)]\<close>)
qed (auto simp: writer_wait_def intro: ack_inv_same [OF assms(2)])

lemma ack_inv_call:
  assumes "call_step t s = Some s'" "ack_inv s"
  shows "ack_inv s'"
  using assms(1)
proof (cases rule: call_step_cases)
  case (queued e c)
  then show ?thesis by (intro ack_inv_send [OF assms(2) queued(1)]) (auto simp: call_defs)
next
  case (sent msg c)
  then show ?thesis by (intro ack_inv_send [OF assms(2) sent(1)]) (auto simp: call_defs)
next
  case (acked msg c)
  then show ?thesis by (intro ack_inv_quiet [OF assms(2), of _ t c]) (auto simp: call_defs)
next
  case (stamp e)
  then show ?thesis by (intro ack_inv_quiet [OF assms(2), of _ t "Locking (MLog (stamped t e s))"]) auto
next
  case (lock msg)
  then show ?thesis by (intro ack_inv_quiet [OF assms(2), of _ t "Sending msg"]) (auto simp: call_defs)
next
  case take
  then show ?thesis by (intro ack_inv_quiet [OF assms(2), of _ t JoinWait]) (auto simp: call_defs)
qed (intro ack_inv_quiet [OF assms(2), of _ t Idle]; simp add: call_defs)+

lemma ack_inv_ask:
  assumes "ack_inv s" "pr_calls s' = (pr_calls s)(t := Locking msg)" "ack_of msg = Some (pr_next_ack s)"
    "pr_next_ack s' = Suc (pr_next_ack s)" "pr_sent s' = pr_sent s" "pr_acked s' = pr_acked s" "pr_handled s' = pr_handled s"
  shows "ack_inv s'"
proof -
  let ?n = "pr_next_ack s"
  have own: "own_ack (pr_calls s' u) = (if u = t then Some ?n else own_ack (pr_calls s u))" for u
    using assms(2,3) by simp
  have wait: "pr_calls s' u = Awaiting m \<Longrightarrow> pr_calls s u = Awaiting m" for u m
    using assms(2) by (auto split: if_splits)
  have old: "own_ack (pr_calls s u) \<noteq> Some ?n" for u
    using assms(1) by (auto simp: ack_inv_def)
  have new: "?n \<notin> set (acks_of (pr_sent s))"
    using assms(1) by (auto simp: ack_inv_def)
  show ?thesis
    unfolding ack_inv_def assms(4-7)
  proof (intro conjI allI impI ballI)
    show "u = u'" if "own_ack (pr_calls s' u) = own_ack (pr_calls s' u')" "own_ack (pr_calls s' u) \<noteq> None" for u u'
      using that old [of u] old [of u'] assms(1) by (auto simp: own ack_inv_def split: if_splits)
    show "a < Suc ?n" "a \<notin> set (acks_of (pr_sent s))" if "own_ack (pr_calls s' u) = Some a" for u a
      using that new assms(1) by (auto simp: own ack_inv_def less_Suc_eq split: if_splits)
    show "m \<in> set (pr_sent s)" "ack_of m \<noteq> None" if "pr_calls s' u = Awaiting m" for u m
      using wait [OF that] assms(1) by (auto simp: ack_inv_def)
  qed (use assms(1) in \<open>auto simp: ack_inv_def less_Suc_eq\<close>)
qed

lemma ack_inv_step: "lstep ops s s' \<Longrightarrow> ack_inv s \<Longrightarrow> ack_inv s'"
proof (induction rule: lstep.induct)
  case (log s t e)
  show ?case
  proof (cases "log_enter t e s = s")
    case False
    then have "log_enter t e s = set_call t (Stamping e) s" using log_enter_cases by blast
    with log show ?thesis by (intro ack_inv_quiet [OF log(3), of _ t "Stamping e"]) (auto simp: call_defs)
  qed (simp add: log)
next
  case (flush s t)
  then show ?case
    by (intro ack_inv_ask [OF flush(3), where msg = "MFlush (pr_next_ack s)"])
      (auto simp: flush_enter_def fresh_ack_def call_defs)
next
  case (shutdown s t)
  then show ?case
    by (intro ack_inv_ask [OF shutdown(3), where msg = "MShutdown (pr_next_ack s)"])
      (auto simp: shutdown_enter_def fresh_ack_def call_defs)
next
  case (call t s s')
  then show ?case by (rule ack_inv_call)
next
  case (writer s s')
  then show ?case by (rule ack_inv_writer)
qed (simp_all add: ack_inv_def)

lemma ack_inv_reach: "lreach ops (started i il cap slots ctx w) s \<Longrightarrow> ack_inv s"
  by (induction rule: rtranclp_induct) (auto intro: ack_inv_started ack_inv_step)

lemma lock_inv_quiet:
  assumes "lock_inv s" "pr_calls s' = (pr_calls s)(t := c)" "tx_lock (pr_inner s') = tx_lock (pr_inner s)"
    "\<not> is_sending c" "\<not> is_sending (pr_calls s t)"
  shows "lock_inv s'"
  using assms by (auto simp: lock_inv_def)

lemma lock_inv_release:
  assumes "lock_inv s" "pr_calls s t = Sending msg" "pr_calls s' = (pr_calls s)(t := c)" "tx_lock (pr_inner s') = None"
    "\<not> is_sending c"
  shows "lock_inv s'"
proof -
  have "tx_lock (pr_inner s) = Some t" using assms(1,2) by (simp add: lock_inv_def) (metis is_sending_simps(4))
  with assms show ?thesis by (auto simp: lock_inv_def)
qed

lemma lock_inv_call:
  assumes "call_step t s = Some s'" "lock_inv s"
  shows "lock_inv s'"
  using assms(1)
proof (cases rule: call_step_cases)
  case (lock msg)
  with assms(2) show ?thesis by (auto simp: lock_inv_def call_defs)
next
  case queued
  then show ?thesis by (intro lock_inv_release [OF assms(2), of t _ _ Idle]) (auto simp: call_defs)
next
  case dropped
  then show ?thesis by (intro lock_inv_release [OF assms(2), of t _ _ Idle]) (auto simp: call_defs)
next
  case emergency
  then show ?thesis by (intro lock_inv_release [OF assms(2), of t _ _ Idle]) (auto simp: call_defs)
next
  case (sent msg c)
  then show ?thesis by (intro lock_inv_release [OF assms(2), of t _ _ "Awaiting msg"]) (auto simp: call_defs)
next
  case unsent
  then show ?thesis by (intro lock_inv_release [OF assms(2), of t _ _ Idle]) (auto simp: call_defs)
next
  case (stamp e)
  then show ?thesis by (intro lock_inv_quiet [OF assms(2), of _ t "Locking (MLog (stamped t e s))"]) auto
next
  case (acked msg c)
  then show ?thesis by (intro lock_inv_quiet [OF assms(2), of _ t c]) (auto simp: call_defs)
next
  case take
  then show ?thesis by (intro lock_inv_quiet [OF assms(2), of _ t JoinWait]) (auto simp: call_defs)
qed (intro lock_inv_quiet [OF assms(2), of _ t Idle]; simp add: call_defs)+

lemma lock_inv_writer:
  assumes "writer_moves ops s s'" "lock_inv s"
  shows "lock_inv s'"
  using assms(1)
proof (cases rule: writer_moves_cases)
  case (handle msg)
  show ?thesis by (rule writer_handle_cases [of ops s msg]) (use handle assms(2) in \<open>auto simp: lock_inv_def\<close>)
next
  case exit
  show ?thesis by (rule writer_exit_cases [of ops s]) (use exit assms(2) in \<open>auto simp: lock_inv_def\<close>)
qed (use assms(2) in \<open>auto simp: writer_wait_def lock_inv_def\<close>)

lemma lock_inv_step: "lstep ops s s' \<Longrightarrow> lock_inv s \<Longrightarrow> lock_inv s'"
proof (induction rule: lstep.induct)
  case (log s t e)
  show ?case
  proof (cases "log_enter t e s = s")
    case False
    then have "log_enter t e s = set_call t (Stamping e) s" using log_enter_cases by blast
    with log show ?thesis by (intro lock_inv_quiet [OF log(3), of _ t "Stamping e"]) (auto simp: call_defs)
  qed (simp add: log)
next
  case (flush s t)
  then show ?case
    by (intro lock_inv_quiet [OF flush(3), of _ t "Locking (MFlush (pr_next_ack s))"])
      (auto simp: flush_enter_def fresh_ack_def call_defs)
next
  case (shutdown s t)
  then show ?case
    by (intro lock_inv_quiet [OF shutdown(3), of _ t "Locking (MShutdown (pr_next_ack s))"])
      (auto simp: shutdown_enter_def fresh_ack_def call_defs)
next
  case (call t s s')
  then show ?case by (rule lock_inv_call)
next
  case (writer s s')
  then show ?case by (rule lock_inv_writer)
qed (simp_all add: lock_inv_def)

lemma lock_inv_reach: "lreach ops (started i il cap slots ctx w) s \<Longrightarrow> fresh_inner i \<Longrightarrow> lock_inv s"
  by (induction rule: rtranclp_induct) (auto intro: lock_inv_started lock_inv_step)

text \<open>Two messages with the same acknowledgement channel are the same message.\<close>

lemma ack_unique:
  assumes "distinct (acks_of (xs @ msg # ys))" "xs @ msg # ys = xs' @ msg' # ys'" "ack_of msg = Some a" "ack_of msg' = Some a"
  shows "xs = xs' \<and> msg = msg'"
proof -
  have no: "a \<notin> set (acks_of xs)" "a \<notin> set (acks_of ys)"
    using assms(1,3) acks_of_Cons [of msg ys] by (auto simp: acks_of_one)
  have in_acks: "msg' \<in> set zs \<Longrightarrow> a \<in> set (acks_of zs)" for zs using assms(4) by (auto simp: in_acks_of)
  have "\<not> length xs' < length xs"
  proof
    assume "length xs' < length xs"
    then have "msg' = xs ! length xs'" using assms(2) by (metis nth_append nth_append_length)
    then show False using in_acks [of xs] no(1) \<open>length xs' < length xs\<close> by simp
  qed
  moreover have "\<not> length xs < length xs'"
  proof
    assume len: "length xs < length xs'"
    then have "msg' = (msg # ys) ! (length xs' - length xs)"
      using assms(2) by (metis less_or_eq_imp_le not_less nth_append nth_append_length)
    then have "msg' = ys ! (length xs' - length xs - 1)" using len by simp
    moreover have "length xs' - length xs - 1 < length ys"
      using len arg_cong [OF assms(2), of length] by simp
    ultimately show False using in_acks [of ys] no(2) by simp
  qed
  ultimately have "length xs = length xs'" by simp
  with assms(2) show ?thesis by simp
qed

end
