(* ===== verification/Xos_Guarantees.thy ===== *)
theory Xos_Guarantees
  imports Xos_Concurrency
begin

section \<open>Properties of the running logger\<close>

text \<open>
  From the invariants of the step relation: every call can return, what the files of a file sink
  hold at any moment, and the claims about concurrent callers.
\<close>

subsection \<open>The writer alone empties the queue\<close>

lemma writer_moves_frame:
  assumes "writer_moves ops s s'"
  shows "pr_calls s' = pr_calls s" "pr_inner s' = pr_inner s" "pr_sent s' = pr_sent s"
  using assms
proof (induction rule: writer_moves_cases)
  case (handle msg)
  { case 1 show ?case by (rule writer_handle_cases [of ops s msg]) (use handle in auto) }
  { case 2 show ?case by (rule writer_handle_cases [of ops s msg]) (use handle in auto) }
  { case 3 show ?case by (rule writer_handle_cases [of ops s msg]) (use handle in auto) }
next
  case exit
  { case 1 show ?case by (rule writer_exit_cases [of ops s]) (use exit in auto) }
  { case 2 show ?case by (rule writer_exit_cases [of ops s]) (use exit in auto) }
  { case 3 show ?case by (rule writer_exit_cases [of ops s]) (use exit in auto) }
qed (simp_all add: writer_wait_def)

abbreviation wreach :: "'c sink_ops \<Rightarrow> 'c process \<Rightarrow> 'c process \<Rightarrow> bool" where
  "wreach ops \<equiv> rtranclp (writer_moves ops)"

lemma wreach_frame:
  "wreach ops s s' \<Longrightarrow> pr_calls s' = pr_calls s \<and> pr_inner s' = pr_inner s \<and> pr_sent s' = pr_sent s"
  by (induction rule: rtranclp_induct) (auto dest: writer_moves_frame)

lemma wreach_lreach: "wreach ops s s' \<Longrightarrow> lreach ops s s'"
  by (rule rtranclp_mono [THEN predicate2D]) (auto intro: lstep.writer)

text \<open>Nothing left to do: waiting on the empty queue, or ended.\<close>

definition drained :: "'c process \<Rightarrow> bool" where
  "drained s \<longleftrightarrow> pr_writer s = WIdle \<and> ch_queue (pr_chan s) = [] \<or> pr_writer s = WStopped"

lemma exit_moves: "pr_writer s = WStopping \<Longrightarrow> writer_moves ops s (writer_exit ops s)"
  by (rule writer_moves.work) (simp add: writer_next_def)

lemma handle_moves: "pr_writer s = WBusy msg \<Longrightarrow> writer_moves ops s (writer_handle ops msg s)"
  by (rule writer_moves.work) (simp add: writer_next_def)

lemma recv_moves:
  "pr_writer s = WIdle \<Longrightarrow> ch_queue (pr_chan s) = msg # q \<Longrightarrow>
     writer_moves ops s (s\<lparr>pr_chan := (pr_chan s)\<lparr>ch_queue := q, ch_waiting := False\<rparr>, pr_writer := WBusy msg\<rparr>)"
  by (rule writer_moves.work) (simp add: writer_next_def writer_recv_def chan_recv_def)

lemma exit_stops: "pr_writer (writer_exit ops s) = WStopped"
  by (rule writer_exit_cases [of ops s]) simp

lemma writer_drains: "\<exists>s'. wreach ops s s' \<and> drained s'"
proof (induction "2 * length (ch_queue (pr_chan s)) + length (busy (pr_writer s))" arbitrary: s rule: less_induct)
  case less
  show ?case
  proof (cases "pr_writer s")
    case WIdle
    show ?thesis
    proof (cases "ch_queue (pr_chan s)")
      case Nil
      with WIdle show ?thesis by (auto simp: drained_def)
    next
      case (Cons msg q)
      let ?s = "s\<lparr>pr_chan := (pr_chan s)\<lparr>ch_queue := q, ch_waiting := False\<rparr>, pr_writer := WBusy msg\<rparr>"
      have "\<exists>s'. wreach ops ?s s' \<and> drained s'" by (rule less) (simp add: WIdle Cons)
      with recv_moves [OF WIdle Cons, of ops] show ?thesis by (meson converse_rtranclp_into_rtranclp)
    qed
  next
    case (WBusy msg)
    let ?s = "writer_handle ops msg s"
    have move: "writer_moves ops s ?s" using WBusy by (rule handle_moves)
    obtain st where st: "pr_chan ?s = pr_chan s" "pr_writer ?s = (if st then WStopping else WIdle)"
      by (rule writer_handle_cases [of ops s msg]) simp
    have "\<exists>s'. wreach ops ?s s' \<and> drained s'" by (rule less) (simp add: WBusy st)
    with move show ?thesis by (meson converse_rtranclp_into_rtranclp)
  next
    case WStopping
    then show ?thesis using exit_moves [OF WStopping, of ops] exit_stops [of ops s] by (auto simp: drained_def)
  qed (auto simp: drained_def)
qed

subsection \<open>Every call can return\<close>

text \<open>A flush that unwinds keeps the writer from stopping, so a caller's sink must not do that.\<close>

definition flush_returns :: "'c sink_ops \<Rightarrow> bool" where
  "flush_returns ops \<longleftrightarrow> (\<forall>c w. fst (op_flush ops c w) \<noteq> Panicked)"

lemma wrap_sink_fst [simp]: "fst (wrap_sink c r) = fst r"
  by (simp add: wrap_sink_def split: prod.split)

lemma sink_flush_returns: "flush_returns ops \<Longrightarrow> fst (sink_flush ops s w) \<noteq> Panicked"
  by (cases s) (auto simp: flush_returns_def sink_flush_def std_flush_op_def file_flush_op_def
      syslog_flush_op_def remote_flush_op_def stream_op_def split: prod.splits)

lemma slots_flush_returns: "flush_returns ops \<Longrightarrow> fst (slots_flush ops slots w) \<noteq> Panicked"
proof (induction slots arbitrary: w)
  case (Cons slot slots)
  obtain r s w1 where 1: "sink_flush ops (slot_sink slot) w = (r, s, w1)" by (cases "sink_flush ops (slot_sink slot) w")
  then obtain x where "r = Done x" using sink_flush_returns [OF Cons.prems, of "slot_sink slot" w] by (cases r) auto
  with 1 Cons.IH [OF Cons.prems, of w1] show ?case by (cases "slots_flush ops slots w1") simp
qed simp

lemma shutdown_stops:
  "flush_returns ops \<Longrightarrow> writer_step ops il json (MShutdown a) slots w = (stop, slots', acks, w') \<Longrightarrow> stop"
  using slots_flush_returns [of ops slots w]
  by (auto simp: writer_step_def handle_message_def split: prod.splits outcome.splits)

definition ends :: "writer \<Rightarrow> bool" where
  "ends wr \<longleftrightarrow> wr = WStopping \<or> wr = WStopped"

definition stop_inv :: "'c process \<Rightarrow> bool" where
  "stop_inv s \<longleftrightarrow>
     (\<forall>a. MShutdown a \<in> set (pr_handled s) \<longrightarrow> ends (pr_writer s)) \<and>
     (\<forall>t. pr_calls s t = Joining \<or> pr_calls s t = JoinWait \<longrightarrow> ends (pr_writer s)) \<and>
     (\<forall>t. join_lock (pr_inner s) = HandleTaken t \<longrightarrow> pr_calls s t = JoinWait)"

lemma stop_inv_started: "fresh_inner i \<Longrightarrow> stop_inv (started i il cap slots ctx w)"
  by (simp add: stop_inv_def started_def fresh_inner_def)

lemma stop_inv_writer:
  assumes "writer_moves ops s s'" "stop_inv s" "flush_returns ops"
  shows "stop_inv s'"
  using assms(1)
proof (cases rule: writer_moves_cases)
  case (handle msg)
  obtain stop slots acks w where
    1: "writer_step ops (pr_location s) (pr_json s) msg (pr_slots s) (pr_world s) = (stop, slots, acks, w)" and
    2: "writer_handle ops msg s = s\<lparr>pr_slots := slots, pr_world := w, pr_acked := pr_acked s @ acks,
       pr_handled := pr_handled s @ [msg], pr_writer := (if stop then WStopping else WIdle)\<rparr>"
    by (rule writer_handle_cases)
  have "stop" if "msg = MShutdown a" for a using shutdown_stops [OF assms(3)] 1 that by blast
  with assms(2) show ?thesis by (auto simp: handle 2 stop_inv_def ends_def)
next
  case exit
  show ?thesis by (rule writer_exit_cases [of ops s]) (use exit assms(2) in \<open>auto simp: stop_inv_def ends_def\<close>)
qed (use assms(2) in \<open>auto simp: writer_wait_def stop_inv_def ends_def\<close>)

text \<open>A shutdown whose wait is over: its message was handled, or the thread has ended.\<close>

lemma shutdown_wait_over:
  assumes "queue_inv s" "ack_inv s" "stop_inv s" "pr_calls s t = Awaiting (MShutdown a)"
    "ack_arrived (MShutdown a) s \<or> \<not> ack_sender_alive (MShutdown a) s"
  shows "ends (pr_writer s)"
proof (cases "ch_alive (pr_chan s)")
  case True
  have sent: "pr_sent s = pr_handled s @ busy (pr_writer s) @ ch_queue (pr_chan s)"
    using assms(1) True by (simp add: queue_inv_def mpsc.accounts_def)
  have mem: "MShutdown a \<in> set (pr_sent s)" using assms(2,4) by (auto simp: ack_inv_def)
  have "MShutdown a \<in> set (pr_handled s)"
  proof (cases "ack_sender_alive (MShutdown a) s")
    case False
    then show ?thesis using mem sent by (auto simp: ack_sender_alive_def busy_def split: writer.splits)
  next
    case True
    then have "a \<in> set (pr_acked s)" using assms(5) by (simp add: ack_arrived_def)
    then obtain msg where m: "msg \<in> set (pr_handled s)" "ack_of msg = Some a"
      using assms(2) in_acks_of [of a "pr_handled s"] by (auto simp: ack_inv_def)
    obtain xs ys where 1: "pr_sent s = xs @ MShutdown a # ys" using mem by (auto simp: in_set_conv_decomp)
    obtain xs' ys' where "pr_handled s = xs' @ msg # ys'" using m(1) by (auto simp: in_set_conv_decomp)
    then obtain zs where 2: "pr_sent s = xs' @ msg # zs" using sent by auto
    have "distinct (acks_of (xs @ MShutdown a # ys))" using assms(2) 1 by (simp only: ack_inv_def)
    moreover have "xs @ MShutdown a # ys = xs' @ msg # zs" using 1 2 by simp
    ultimately have "MShutdown a = msg" using ack_unique [where a = a] m(2) by simp
    with m(1) show ?thesis by simp
  qed
  then show ?thesis using assms(3) by (auto simp: stop_inv_def)
next
  case False
  then show ?thesis using assms(1) by (simp add: queue_inv_def ends_def)
qed

lemma stop_inv_call:
  assumes "call_step t s = Some s'" "queue_inv s" "ack_inv s" "stop_inv s"
  shows "stop_inv s'"
  using assms(1)
proof (cases rule: call_step_cases)
  case (acked msg c)
  then show ?thesis
    using assms(4) shutdown_wait_over [OF assms(2-4)] by (auto simp: stop_inv_def call_defs)
qed (use assms(4) in \<open>auto simp: stop_inv_def call_defs\<close>)

lemma stop_inv_step:
  "lstep ops s s' \<Longrightarrow> flush_returns ops \<Longrightarrow> queue_inv s \<Longrightarrow> ack_inv s \<Longrightarrow> stop_inv s \<Longrightarrow> stop_inv s'"
proof (induction rule: lstep.induct)
  case (log s t e)
  then show ?case using log_enter_cases [of t e s] by (auto simp: call_defs stop_inv_def split: if_splits)
next
  case (call t s s')
  then show ?case using stop_inv_call by blast
next
  case (writer s s')
  then show ?case using stop_inv_writer by blast
qed (auto simp: flush_enter_def shutdown_enter_def fresh_ack_def call_defs stop_inv_def)

lemma stop_inv_reach:
  "lreach ops (started i il cap slots ctx w) s \<Longrightarrow> fresh_inner i \<Longrightarrow> flush_returns ops \<Longrightarrow> stop_inv s"
proof (induction rule: rtranclp_induct)
  case (step s s')
  then show ?case using stop_inv_step queue_inv_reach ack_inv_reach by blast
qed (rule stop_inv_started)

definition sound :: "'c process \<Rightarrow> bool" where
  "sound s \<longleftrightarrow> queue_inv s \<and> ack_inv s \<and> lock_inv s \<and> stop_inv s"

lemma sound_started: "fresh_inner i \<Longrightarrow> sound (started i il cap slots ctx w)"
  by (simp add: sound_def queue_inv_started ack_inv_started lock_inv_started stop_inv_started)

lemma sound_reach: "lreach ops s s' \<Longrightarrow> flush_returns ops \<Longrightarrow> sound s \<Longrightarrow> sound s'"
proof (induction rule: rtranclp_induct)
  case (step s' s'')
  then show ?case
    using queue_inv_step ack_inv_step lock_inv_step stop_inv_step unfolding sound_def by blast
qed simp

text \<open>The stages of a call, each reached from the one before by steps of the writer and, where the
  thread waits for a lock, of the thread that holds it.\<close>

lemma drain_reach:
  assumes "flush_returns ops" "sound s"
  obtains s' where "lreach ops s s'" "drained s'" "sound s'" "pr_calls s' = pr_calls s" "pr_inner s' = pr_inner s"
proof -
  obtain s' where s': "wreach ops s s'" "drained s'" using writer_drains by blast
  then have "lreach ops s s'" by (simp add: wreach_lreach)
  with s' show thesis using that wreach_frame [OF s'(1)] sound_reach [OF _ assms] by blast
qed

lemma drained_room:
  assumes "sound s" "drained s"
  obtains s' where "lreach ops s s'" "\<not> chan_full (pr_chan s')" "pr_calls s' = pr_calls s"
proof (cases "pr_writer s = WStopped")
  case True
  then have "\<not> ch_alive (pr_chan s)" using assms(1) by (auto simp: sound_def queue_inv_def split: if_splits)
  then show thesis by (intro that [of s]) (auto simp: chan_full_def)
next
  case False
  then have idle: "pr_writer s = WIdle" "ch_queue (pr_chan s) = []" using assms(2) by (auto simp: drained_def)
  have "lreach ops s (writer_wait s)"
    using writer_moves.wait [OF idle(1)] by (blast intro: lstep.writer)
  then show thesis
    by (rule that) (auto simp: writer_wait_def chan_full_def chan_room_def idle)
qed

lemma call_sending:
  assumes "pr_calls s t = Sending msg" "\<not> chan_full (pr_chan s)"
  obtains s' where "call_step t s = Some s'" "pr_calls s' t = Idle \<or> pr_calls s' t = Awaiting msg"
    "\<And>u. u \<noteq> t \<Longrightarrow> pr_calls s' u = pr_calls s u" "tx_lock (pr_inner s') = None"
proof (cases msg)
  case (MLog e)
  show thesis
    by (cases "send_message (MLog e) s")
      (use assms MLog that in \<open>auto simp: call_step_def log_send_def call_defs send_message_def Let_def split: option.splits\<close>)
qed (cases "send_message msg s";
    use assms that in \<open>auto simp: call_step_def send_ctrl_def call_defs send_message_def split: option.splits\<close>)+

lemma sending_reach:
  assumes "flush_returns ops" "sound s" "pr_calls s t = Sending msg"
  obtains s' where "lreach ops s s'" "pr_calls s' t = Idle \<or> pr_calls s' t = Awaiting msg"
    "\<And>u. u \<noteq> t \<Longrightarrow> pr_calls s' u = pr_calls s u" "tx_lock (pr_inner s') = None"
proof -
  obtain s1 where 1: "lreach ops s s1" "drained s1" "sound s1" "pr_calls s1 = pr_calls s"
    using drain_reach [OF assms(1,2)] by metis
  obtain s2 where 2: "lreach ops s1 s2" "\<not> chan_full (pr_chan s2)" "pr_calls s2 = pr_calls s1"
    using drained_room [OF 1(3,2)] by metis
  obtain s3 where 3: "call_step t s2 = Some s3" "pr_calls s3 t = Idle \<or> pr_calls s3 t = Awaiting msg"
    "\<And>u. u \<noteq> t \<Longrightarrow> pr_calls s3 u = pr_calls s2 u" "tx_lock (pr_inner s3) = None"
    using call_sending [of s2 t msg] 2(2,3) 1(4) assms(3) by metis
  have "lreach ops s s3" using 1(1) 2(1) lstep.call [OF 3(1), of ops] by (meson rtranclp.rtrancl_into_rtrancl rtranclp_trans)
  with 1(4) 2(3) 3 show thesis by (intro that) auto
qed

lemma locking_reach:
  assumes "flush_returns ops" "sound s" "pr_calls s t = Locking msg"
  obtains s' where "lreach ops s s'" "pr_calls s' t = Sending msg"
proof -
  have "\<exists>s1. lreach ops s s1 \<and> pr_calls s1 t = Locking msg \<and> tx_lock (pr_inner s1) = None"
  proof (cases "tx_lock (pr_inner s)")
    case (Some u)
    then have "is_sending (pr_calls s u)" using assms(2) by (simp add: sound_def lock_inv_def)
    then obtain m where u: "pr_calls s u = Sending m" by (auto simp: is_sending_def split: caller.splits)
    then have "u \<noteq> t" using assms(3) by auto
    with sending_reach [OF assms(1,2) u] assms(3) show ?thesis by metis
  qed (use assms(3) in auto)
  then obtain s1 where 1: "lreach ops s s1" "pr_calls s1 t = Locking msg" "tx_lock (pr_inner s1) = None" by blast
  obtain s2 where 2: "call_step t s1 = Some s2" "pr_calls s2 t = Sending msg"
    using 1(2,3) by (simp add: call_step_def tx_guard_def set_call_def)
  have "lreach ops s s2" using 1(1) lstep.call [OF 2(1), of ops] by (rule rtranclp.rtrancl_into_rtrancl)
  then show thesis using that 2(2) by blast
qed

lemma awaiting_reach:
  assumes "flush_returns ops" "sound s" "pr_calls s t = Awaiting msg"
  obtains s' where "lreach ops s s'" "pr_calls s' t = Idle \<or> pr_calls s' t = Joining"
proof -
  obtain s1 where 1: "lreach ops s s1" "drained s1" "sound s1" "pr_calls s1 = pr_calls s"
    using drain_reach [OF assms(1,2)] by metis
  have "ch_queue (pr_chan s1) = []" "\<And>m. pr_writer s1 \<noteq> WBusy m"
    using 1(2,3) by (auto simp: drained_def sound_def queue_inv_def split: if_splits)
  then have "\<not> ack_sender_alive msg s1" by (simp add: ack_sender_alive_def)
  then obtain s2 where 2: "call_step t s1 = Some s2" "pr_calls s2 t = Idle \<or> pr_calls s2 t = Joining"
    using 1(4) assms(3) by (auto simp: call_step_def ack_recv_def set_call_def split: message.splits)
  have "lreach ops s s2" using 1(1) lstep.call [OF 2(1), of ops] by (rule rtranclp.rtrancl_into_rtrancl)
  then show thesis using that 2(2) by blast
qed

lemma join_wait_reach:
  assumes "flush_returns ops" "sound s" "pr_calls s t = JoinWait"
  obtains s' where "lreach ops s s'" "pr_calls s' t = Idle" "\<And>u. u \<noteq> t \<Longrightarrow> pr_calls s' u = pr_calls s u"
    "join_lock (pr_inner s') = HandleGone"
proof -
  obtain s1 where 1: "lreach ops s s1" "drained s1" "sound s1" "pr_calls s1 = pr_calls s"
    using drain_reach [OF assms(1,2)] by metis
  have "ends (pr_writer s1)" using 1(3,4) assms(3) by (auto simp: sound_def stop_inv_def)
  then have "pr_writer s1 = WStopped" using 1(2) by (auto simp: drained_def ends_def)
  then obtain s2 where 2: "call_step t s1 = Some s2" "pr_calls s2 = (pr_calls s1)(t := Idle)"
      "join_lock (pr_inner s2) = HandleGone"
    using 1(4) assms(3) by (simp add: call_step_def join_return_def set_call_def)
  have "lreach ops s s2" using 1(1) lstep.call [OF 2(1), of ops] by (rule rtranclp.rtrancl_into_rtrancl)
  then show thesis using 1(4) 2 by (intro that) auto
qed

lemma joining_reach:
  assumes "flush_returns ops" "sound s" "pr_calls s t = Joining"
  obtains s' where "lreach ops s s'" "pr_calls s' t = Idle \<or> pr_calls s' t = JoinWait"
proof -
  have "\<exists>s1. lreach ops s s1 \<and> pr_calls s1 t = Joining \<and> (\<forall>u. join_lock (pr_inner s1) \<noteq> HandleTaken u)"
  proof (cases "\<exists>u. join_lock (pr_inner s) = HandleTaken u")
    case True
    then obtain u where u: "join_lock (pr_inner s) = HandleTaken u" by blast
    then have w: "pr_calls s u = JoinWait" using assms(2) by (simp add: sound_def stop_inv_def)
    then have "u \<noteq> t" using assms(3) by auto
    with join_wait_reach [OF assms(1,2) w] assms(3) show ?thesis by (metis join_handle.distinct(5))
  qed (use assms(3) in auto)
  then obtain s1 where 1: "lreach ops s s1" "pr_calls s1 t = Joining" "\<And>u. join_lock (pr_inner s1) \<noteq> HandleTaken u"
    by blast
  obtain s2 where 2: "call_step t s1 = Some s2" "pr_calls s2 t = Idle \<or> pr_calls s2 t = JoinWait"
    using 1(2,3) by (cases "join_lock (pr_inner s1)") (auto simp: call_step_def join_enter_def set_call_def)
  have "lreach ops s s2" using 1(1) lstep.call [OF 2(1), of ops] by (rule rtranclp.rtrancl_into_rtrancl)
  then show thesis using that 2(2) by blast
qed

lemma idle_reach:
  assumes "flush_returns ops" "sound s"
  shows "\<exists>s'. lreach ops s s' \<and> pr_calls s' t = Idle"
proof -
  have wait: "\<exists>s'. lreach ops s s' \<and> pr_calls s' t = Idle" if "sound s" "pr_calls s t = JoinWait" for s
    using join_wait_reach [OF assms(1) that] by metis
  have join: "\<exists>s'. lreach ops s s' \<and> pr_calls s' t = Idle" if "sound s" "pr_calls s t = Joining" for s
    using joining_reach [OF assms(1) that] wait sound_reach [OF _ assms(1) that(1)] by (metis rtranclp_trans)
  have ack: "\<exists>s'. lreach ops s s' \<and> pr_calls s' t = Idle" if "sound s" "pr_calls s t = Awaiting m" for s m
    using awaiting_reach [OF assms(1) that] join sound_reach [OF _ assms(1) that(1)] by (metis rtranclp_trans)
  have send: "\<exists>s'. lreach ops s s' \<and> pr_calls s' t = Idle" if "sound s" "pr_calls s t = Sending m" for s m
    using sending_reach [OF assms(1) that] ack sound_reach [OF _ assms(1) that(1)] by (metis rtranclp_trans)
  have lock: "\<exists>s'. lreach ops s s' \<and> pr_calls s' t = Idle" if "sound s" "pr_calls s t = Locking m" for s m
    using locking_reach [OF assms(1) that] send sound_reach [OF _ assms(1) that(1)] by (metis rtranclp_trans)
  show ?thesis
  proof (cases "pr_calls s t")
    case (Stamping e)
    have step: "lstep ops s (log_stamp t e s)" using Stamping by (intro lstep.call [where t = t]) (simp add: call_step_def)
    then have "sound (log_stamp t e s)" using sound_reach [OF _ assms] by blast
    then show ?thesis using lock step by (metis converse_rtranclp_into_rtranclp fun_upd_same log_stamp_stamped(1))
  qed (use assms(2) wait join ack send lock in blast)+
qed

subsection \<open>The files behind a running logger\<close>

lemma system_now_files: "same_files w (snd (system_now w))"
  by (simp add: system_now_def same_files_def)

lemma stderr_files: "same_files w (snd (stderr_write_all bs w))" "same_files w (snd (std_flush w))"
  by (simp_all add: stderr_write_all_def std_flush_def syscall_def same_files_def split: option.split)

lemma emergency_write_files: "same_files w (snd (emergency_write e json w))"
proof -
  let ?buf = "if json then write_record e False [] else format_record e False []"
  let ?note = "utf8 (lit ''[xoslog] writer thread unavailable, logging synchronously'') @ [10]"
  obtain r1 w1 where 1: "stderr_write_all ?note w = (r1, w1)" by (cases "stderr_write_all ?note w")
  obtain r2 w2 where 2: "stderr_write_all ?buf w1 = (r2, w2)" by (cases "stderr_write_all ?buf w1")
  have f: "same_files w w1" "same_files w1 w2" "same_files w2 (snd (std_flush w2))"
    using stderr_files(1) [of w ?note] stderr_files(1) [of w1 ?buf] stderr_files(2) [of w2] 1 2 by simp_all
  then have g: "same_files w w2" "same_files w (snd (std_flush w2))"
    using same_files_trans by blast+
  have "snd (emergency_write e json w) = w1 \<or> snd (emergency_write e json w) = w2 \<or>
      snd (emergency_write e json w) = snd (std_flush w2)"
    using 1 2 by (cases r1; cases r2) (simp_all add: emergency_write_def Let_def del: utf8_simps lit_simps)
  with f g show ?thesis by metis
qed

text \<open>With a single file sink the files hold what has been handled.\<close>

definition file_inv :: "file_sink \<times> world \<Rightarrow> level \<Rightarrow> 'c process \<Rightarrow> bool" where
  "file_inv start l s \<longleftrightarrow> (\<exists>fs gens. pr_slots s = [file_slot fs l] \<and> file_history fs (pr_world s) gens \<and>
     concat gens = file_records (pr_location s) (pr_json s) l (pr_handled s) \<and>
     same_sink start (fs, pr_world s))"

lemma file_inv_frame:
  "file_inv start l s \<Longrightarrow> pr_slots s' = pr_slots s \<Longrightarrow> same_files (pr_world s) (pr_world s') \<Longrightarrow>
   pr_location s' = pr_location s \<Longrightarrow> pr_json s' = pr_json s \<Longrightarrow> pr_handled s' = pr_handled s \<Longrightarrow> file_inv start l s'"
  by (auto simp: file_inv_def dest: file_history_files same_sink_files)

lemma file_inv_call:
  assumes "call_step t s = Some s'" "file_inv start l s"
  shows "file_inv start l s'"
  using assms(1)
  by (cases rule: call_step_cases)
    (rule file_inv_frame [OF assms(2)]; simp add: call_defs system_now_files emergency_write_files)+

lemma file_inv_writer:
  assumes "writer_moves ops s s'" "file_inv start l s"
    "length (concat (file_records (pr_location s') (pr_json s') l (pr_handled s'))) < 2 ^ 64"
  shows "file_inv start l s'"
  using assms(1)
proof (cases rule: writer_moves_cases)
  case (handle msg)
  obtain fs gens where inv: "pr_slots s = [file_slot fs l]" "file_history fs (pr_world s) gens"
      "concat gens = file_records (pr_location s) (pr_json s) l (pr_handled s)"
      "same_sink start (fs, pr_world s)"
    using assms(2) by (auto simp: file_inv_def)
  have "length (concat (file_records (pr_location s) (pr_json s) l (pr_handled s @ [msg]))) < 2 ^ 64"
    by (rule writer_handle_cases [of ops s msg]) (use assms(3) in \<open>simp add: handle\<close>)
  then have len: "length (concat (concat gens)) +
      length (concat (file_records (pr_location s) (pr_json s) l [msg])) < 2 ^ 64"
    by (simp add: inv(3))
  show ?thesis
    by (rule writer_step_history [OF inv(2) len, of ops])
      (use same_sink_trans [OF inv(4)] in \<open>auto simp: handle writer_handle_def inv(1,3) file_inv_def\<close>)
next
  case exit
  obtain fs where "pr_slots s = [file_slot fs l]" using assms(2) by (auto simp: file_inv_def)
  then have "pr_slots s' = pr_slots s" "pr_world s' = pr_world s" "pr_location s' = pr_location s"
      "pr_json s' = pr_json s" "pr_handled s' = pr_handled s"
    using exit by (simp_all add: writer_exit_def file_slot_flush del: slots_flush.simps)
  then show ?thesis by (intro file_inv_frame [OF assms(2)]) auto
qed (auto simp: writer_wait_def intro: file_inv_frame [OF assms(2)])

lemma handled_grows: "lstep ops s s' \<Longrightarrow> \<exists>ms. pr_handled s' = pr_handled s @ ms"
proof (induction rule: lstep.induct)
  case (log s t e)
  then show ?case using log_enter_cases [of t e s] by (auto simp: call_defs)
next
  case (call t s s')
  then show ?case by (cases rule: call_step_cases) (auto simp: call_defs)
next
  case (writer s s')
  then show ?case
  proof (cases rule: writer_moves_cases)
    case (handle msg)
    show ?thesis by (rule writer_handle_cases [of ops s msg]) (use handle in auto)
  next
    case exit
    show ?thesis by (rule writer_exit_cases [of ops s]) (use exit in auto)
  qed (auto simp: writer_wait_def)
qed (auto simp: flush_enter_def shutdown_enter_def fresh_ack_def call_defs)

lemma file_inv_step:
  assumes "lstep ops s s'" "file_inv start l s"
    "length (concat (file_records (pr_location s') (pr_json s') l (pr_handled s'))) < 2 ^ 64"
  shows "file_inv start l s'"
  using assms
proof (induction rule: lstep.induct)
  case (log s t e)
  show ?case by (rule file_inv_frame [OF log(3)]) (simp_all add: log_enter_def call_defs)
next
  case (call t s s')
  then show ?case by (blast intro: file_inv_call)
next
  case (writer s s')
  then show ?case by (blast intro: file_inv_writer)
qed (erule file_inv_frame; simp add: flush_enter_def shutdown_enter_def fresh_ack_def call_defs)+

lemma file_inv_reach:
  "lreach ops s s' \<Longrightarrow> file_inv start l s \<Longrightarrow>
   length (concat (file_records (pr_location s') (pr_json s') l (pr_handled s'))) < 2 ^ 64 \<Longrightarrow> file_inv start l s'"
proof (induction rule: rtranclp_induct)
  case (step s' s'')
  obtain more where more: "pr_handled s'' = pr_handled s' @ more" using handled_grows [OF step.hyps(2)] by blast
  have conf: "pr_location s'' = pr_location s'" "pr_json s'' = pr_json s'"
    using same_config_step [OF step.hyps(2)] by (simp_all add: same_config_def)
  have "length (concat (file_records (pr_location s') (pr_json s') l (pr_handled s'))) < 2 ^ 64"
    using step.prems(2) by (simp add: more conf)
  with step show ?case by (blast intro: file_inv_step)
qed simp

subsection \<open>Two schedules\<close>

text \<open>The record as a thread sends it in the first steps of a process.\<close>

definition first_record :: "inner \<Rightarrow> tid \<Rightarrow> log_entry \<Rightarrow> ctx_state \<Rightarrow> world \<Rightarrow> log_entry" where
  "first_record i t e ctx w = merge_context
     (e\<lparr>le_timestamp := timestamp_now (w_clock w (w_ticks w)) (sint (time_offset_seconds i))\<rparr>) (current_context t ctx)"

lemma first_record_message [simp]: "le_message (first_record i t e ctx w) = le_message e"
  by (simp add: first_record_def merge_context_def)

lemmas act_defs = act_step_def log_enter_def log_stamp_def call_step_def tx_guard_def log_send_def send_ctrl_def
  send_message_def flush_enter_def shutdown_enter_def fresh_ack_def call_defs started_def fresh_inner_def
  chan_send_def chan_room_def chan_full_def sync_channel_def system_now_def writer_next_def writer_recv_def
  chan_recv_def first_record_def is_enabled_for_def

text \<open>A record is checked before, and sent after, a request to shut down.\<close>

definition racing_acts :: "log_entry \<Rightarrow> act list" where
  "racing_acts e = [ALog 1 e, AShutdown 2, ACall 2, ACall 2, ACall 1, ACall 1, ACall 1, AWriter]"

lemma racing_run:
  assumes "fresh_inner i" "2 \<le> cap" "is_enabled_for i (le_level e) (le_target e)"
  obtains s where "acts_run ops (racing_acts e) (started i il cap slots ctx w) = Some s"
    "pr_calls s = (\<lambda>_. Idle)(2 := Awaiting (MShutdown 0))" "pr_writer s = WBusy (MShutdown 0)"
    "ch_queue (pr_chan s) = [MLog (first_record i 1 e ctx w)]" "pr_handled s = []" "pr_acked s = []"
    "pr_fates s = [(1, first_record i 1 e ctx w, Queued)]" "pr_inner s = i\<lparr>is_closed := True\<rparr>"
proof -
  have "acts_run ops (racing_acts e) (started i il cap slots ctx w) = Some
    ((started i il cap slots ctx w)\<lparr>pr_inner := i\<lparr>is_closed := True\<rparr>,
      pr_calls := (\<lambda>_. Idle)(2 := Awaiting (MShutdown 0)),
      pr_chan := (sync_channel cap)\<lparr>ch_queue := [MLog (first_record i 1 e ctx w)]\<rparr>,
      pr_writer := WBusy (MShutdown 0), pr_next_ack := 1, pr_world := snd (system_now w),
      pr_sent := [MShutdown 0, MLog (first_record i 1 e ctx w)],
      pr_admitted := [(1, first_record i 1 e ctx w)],
      pr_fates := [(1, first_record i 1 e ctx w, Queued)]\<rparr>)"
    using assms by (auto simp: racing_acts_def act_defs fun_eq_iff Let_def intro!: process.equality inner.equality)
  then show thesis by (rule that) (simp_all add: started_def)
qed

text \<open>A record is queued, a request to flush follows it, and the writer takes the record.\<close>

definition flushing_acts :: "log_entry \<Rightarrow> act list" where
  "flushing_acts e = [ALog 1 e, ACall 1, ACall 1, ACall 1, AFlush 2, ACall 2, ACall 2, AWriter]"

lemma flushing_run:
  assumes "fresh_inner i" "2 \<le> cap" "is_enabled_for i (le_level e) (le_target e)"
  obtains s where "acts_run ops (flushing_acts e) (started i il cap slots ctx w) = Some s"
    "pr_writer s = WBusy (MLog (first_record i 1 e ctx w))" "ch_queue (pr_chan s) = [MFlush 0]"
    "pr_handled s = []" "pr_sent s = [MLog (first_record i 1 e ctx w), MFlush 0]"
    "pr_slots s = slots" "pr_world s = snd (system_now w)" "pr_location s = il" "pr_json s = in_json i"
proof -
  have "acts_run ops (flushing_acts e) (started i il cap slots ctx w) = Some
    ((started i il cap slots ctx w)\<lparr>pr_calls := (\<lambda>_. Idle)(2 := Awaiting (MFlush 0)),
      pr_chan := (sync_channel cap)\<lparr>ch_queue := [MFlush 0]\<rparr>,
      pr_writer := WBusy (MLog (first_record i 1 e ctx w)), pr_next_ack := 1, pr_world := snd (system_now w),
      pr_sent := [MLog (first_record i 1 e ctx w), MFlush 0],
      pr_admitted := [(1, first_record i 1 e ctx w)],
      pr_fates := [(1, first_record i 1 e ctx w, Queued)]\<rparr>)"
    using assms by (auto simp: flushing_acts_def act_defs fun_eq_iff Let_def intro!: process.equality inner.equality)
  then show thesis by (rule that) (simp_all add: started_def)
qed

text \<open>What an arrived acknowledgement says about the messages sent before the request.\<close>

lemma acked_handled:
  assumes "queue_inv s" "ack_inv s" "a \<in> set (pr_acked s)" "pr_sent s = pre @ msg # post" "ack_of msg = Some a"
  obtains more where "pr_handled s = pre @ msg # more" "\<exists>rest. post = more @ rest"
proof -
  obtain msg' where m: "msg' \<in> set (pr_handled s)" "ack_of msg' = Some a"
    using assms(2,3) in_acks_of [of a "pr_handled s"] by (auto simp: ack_inv_def)
  then obtain xs ys where h: "pr_handled s = xs @ msg' # ys" by (auto simp: in_set_conv_decomp)
  obtain rest where rest: "pr_sent s = pr_handled s @ rest"
    using assms(1) by (auto simp: queue_inv_def mpsc.accounts_def split: if_splits)
  then have eq: "pre @ msg # post = xs @ msg' # (ys @ rest)" using h assms(4) by simp
  have "distinct (acks_of (pre @ msg # post))" using assms(2,4) by (simp only: ack_inv_def)
  from ack_unique [OF this eq assms(5) m(2)] eq h have "pr_handled s = pre @ msg # ys" "post = ys @ rest" by simp_all
  then show thesis using that by blast
qed

text \<open>A logger over a single file sink: what its files hold once a request is acknowledged.\<close>

lemma acknowledged_in_files:
  assumes "file_history s0 w0 [[]]" "fs_max_size s0 = ms" "fs_max_backups s0 = mb"
    "lreach ops (started i il cap [slot_new (FileSink s0) l] ctx w0) s"
    "length (concat (file_records il (in_json i) l (pr_sent s))) < 2 ^ 64"
    "a \<in> set (pr_acked s)" "pr_sent s = pre @ msg # post" "ack_of msg = Some a"
  shows "\<exists>fs gens later rest. pr_slots s = [slot_new (FileSink fs) l] \<and> post = later @ rest \<and>
    concat gens = file_records il (in_json i) l pre @ file_records il (in_json i) l later \<and>
    holds_history fs (pr_world s) mb gens \<and> gens_bounded ms gens \<and>
    (\<exists>ks. gens_due (fs_interval s0) ms (clock_reading (fs_clock s0) (w_clock w0)) ks gens)"
proof -
  let ?s0 = "started i il cap [file_slot s0 l] ctx w0"
  have start: "file_inv (s0, w0) l ?s0"
    unfolding file_inv_def
    by (rule exI [of _ s0], rule exI [of _ "[[]]"]) (simp add: started_def assms(1))
  have reach: "lreach ops ?s0 s" using assms(4) by (simp add: file_slot_def)
  have conf: "pr_location s = il" "pr_json s = in_json i"
    using same_config_reach [OF reach] by (simp_all add: same_config_def started_def)
  obtain more where more: "pr_handled s = pre @ msg # more" "\<exists>rest. post = more @ rest"
    by (rule acked_handled [OF queue_inv_reach [OF reach] ack_inv_reach [OF reach] assms(6-8)])
  then obtain rest where rest: "post = more @ rest" by blast
  have split: "file_records il (in_json i) l (pr_handled s) =
      file_records il (in_json i) l pre @ file_records il (in_json i) l more"
    using assms(8) by (cases msg) (simp_all add: more)
  have sent: "file_records il (in_json i) l (pr_sent s) =
      file_records il (in_json i) l (pr_handled s) @ file_records il (in_json i) l rest"
    using assms(7) more(1) rest by (metis append.assoc append_Cons file_records_append)
  then have "length (concat (file_records il (in_json i) l (pr_handled s))) < 2 ^ 64"
    using assms(5) by simp
  then have "file_inv (s0, w0) l s" using file_inv_reach [OF reach start] by (simp add: conf)
  then obtain fs gens where "pr_slots s = [file_slot fs l]" "file_history fs (pr_world s) gens"
      "concat gens = file_records il (in_json i) l (pr_handled s)" "same_sink (s0, w0) (fs, pr_world s)"
    by (auto simp: file_inv_def conf)
  moreover from this have "holds_history fs (pr_world s) mb gens" "gens_bounded ms gens"
      "\<exists>ks. gens_due (fs_interval s0) ms (clock_reading (fs_clock s0) (w_clock w0)) ks gens"
    using assms(2,3)
    by (auto simp: file_history_def gens_inv_def holds_history_def gens_timed_def same_sink_def)
  ultimately show ?thesis using split rest unfolding file_slot_def by metis
qed

subsection \<open>Properties\<close>

text \<open>Claim C2: in every reachable state the records a thread passed to the logger and that the
  filter admitted are, in its order, those whose call has come to an end and the one it is about to
  send. The queued ones are handled, being handled, in the queue or discarded at the end of the
  writer, in the order they were sent, none lost, repeated or reordered; the queue keeps to its
  bound; the counter is the number of dropped ones modulo \<open>2^64\<close>; with \<open>Block\<close> none is dropped, and
  none is discarded or written past the queue while the writer thread lives.\<close>

theorem no_record_lost_or_reordered:
  assumes "lreach ops (started i il cap slots ctx w) s" "fresh_inner i"
  shows "admitted_by t s = settled_by t s @ pending (pr_calls s t) \<and>
    with_fate Queued s = records_of (pr_sent s) \<and>
    pr_sent s = pr_handled s @ busy (pr_writer s) @ ch_queue (pr_chan s) @ pr_discarded s \<and>
    length (ch_queue (pr_chan s)) \<le> max 1 cap \<and>
    dropped_message_count (pr_inner s) = word_of_nat (length (with_fate Dropped s)) \<and>
    (if in_backpressure i = Block then with_fate Dropped s = [] else True) \<and>
    (if pr_writer s = WStopped then True else with_fate Emergency s = [] \<and> pr_discarded s = [])"
proof -
  have cap: "ch_capacity (pr_chan s) = cap" "in_backpressure (pr_inner s) = in_backpressure i"
    using same_config_reach [OF assms(1)] by (simp_all add: same_config_def started_def sync_channel_def)
  have "ch_alive (pr_chan s) \<longleftrightarrow> pr_writer s \<noteq> WStopped"
    using queue_inv_reach [OF assms(1)] by (simp add: queue_inv_def split: if_splits)
  then show ?thesis
    using queue_inv_reach [OF assms(1)] fate_inv_reach [OF assms] cap
    by (auto simp: queue_inv_def fate_inv_def mpsc.accounts_def dropped_message_count_def split: if_splits)
qed

definition quiet_inner :: inner where
  "quiet_inner = \<lparr>tx_lock = None, in_level = Info, in_filter = filter_default, time_offset_seconds = 0,
     in_backpressure = Block, join_lock = HandleThere, is_closed = False, dropped = 0, in_json = False\<rparr>"

lemma quiet_inner_fresh: "fresh_inner quiet_inner"
  by (simp add: fresh_inner_def quiet_inner_def)

lemma quiet_inner_enabled: "is_enabled_for quiet_inner (le_level plain_example) (le_target plain_example)"
  by (simp add: is_enabled_for_def quiet_inner_def plain_example_def filter_enabled_iff filter_default_def
      effective_level_def default_level_def global_default_def level_order_defs)

theorem no_record_lost_or_reordered_witness:
  "\<exists>s. lreach panicking_ops (started quiet_inner True 2 [] ctx_init quiet_world) s \<and>
    length (pr_sent s) = 2 \<and> pr_sent s = pr_handled s @ busy (pr_writer s) @ ch_queue (pr_chan s) @ pr_discarded s"
proof -
  obtain s where "acts_run panicking_ops (flushing_acts plain_example)
      (started quiet_inner True 2 [] ctx_init quiet_world) = Some s" "length (pr_sent s) = 2"
    by (rule flushing_run [OF quiet_inner_fresh _ quiet_inner_enabled, where cap = 2 and ops = panicking_ops
          and il = True and slots = "[]" and ctx = ctx_init and w = quiet_world]) simp_all
  with no_record_lost_or_reordered [OF acts_run_lreach quiet_inner_fresh] show ?thesis
    using acts_run_lreach by blast
qed

text \<open>Claim C3: when the acknowledgement of a flush or a shutdown has arrived, everything sent before
  that request, by any thread, has been handled by the writer in the order it was sent, and the
  request itself has been.\<close>

theorem acknowledged_request_covers_earlier_sends:
  assumes "lreach ops (started i il cap slots ctx w) s" "a \<in> set (pr_acked s)"
    "pr_sent s = pre @ msg # post" "ack_of msg = Some a"
  shows "take (length pre + 1) (pr_handled s) = pre @ [msg]"
proof -
  obtain more where "pr_handled s = pre @ msg # more"
    by (rule acked_handled [OF queue_inv_reach [OF assms(1)] ack_inv_reach [OF assms(1)] assms(2-4)])
  then show ?thesis by simp
qed

text \<open>A run in which the flush is acknowledged, with a file sink behind the writer.\<close>

lemma flushing_acked:
  assumes "fresh_inner i" "2 \<le> cap" "is_enabled_for i (le_level e) (le_target e)"
    "file_history fs w gens"
    "length (concat (concat gens)) + length (format_entry il (in_json i) (first_record i 1 e ctx w)) < 2 ^ 64"
  obtains s where "lreach ops (started i il cap [file_slot fs l] ctx w) s" "pr_acked s = [0]"
    "pr_sent s = [MLog (first_record i 1 e ctx w), MFlush 0]" "pr_location s = il" "pr_json s = in_json i"
proof -
  let ?m = "MLog (first_record i 1 e ctx w)"
  obtain s1 where run: "acts_run ops (flushing_acts e) (started i il cap [file_slot fs l] ctx w) = Some s1"
    and s1: "pr_writer s1 = WBusy ?m" "ch_queue (pr_chan s1) = [MFlush 0]" "pr_handled s1 = []"
      "pr_sent s1 = [?m, MFlush 0]" "pr_slots s1 = [file_slot fs l]" "pr_world s1 = snd (system_now w)"
      "pr_location s1 = il" "pr_json s1 = in_json i"
    by (rule flushing_run [OF assms(1-3)])
  have acked: "pr_acked s1 = []"
    using ack_inv_reach [OF acts_run_lreach [OF run]] s1(3) by (simp add: ack_inv_def)
  have "file_history fs (pr_world s1) gens"
    using file_history_files [OF assms(4) system_now_files] s1(6) by simp
  moreover have "length (concat (concat gens)) + length (concat (file_records il (in_json i) l [?m])) < 2 ^ 64"
    using assms(5) by simp
  ultimately obtain fs' w' where step: "writer_step ops il (in_json i) ?m (pr_slots s1) (pr_world s1) =
      (\<exists>a. ?m = MShutdown a, [file_slot fs' l], acks_of [?m], w')"
    unfolding s1(5) by (rule writer_step_history)
  define s2 where "s2 = writer_handle ops ?m s1"
  have s2: "pr_writer s2 = WIdle" "ch_queue (pr_chan s2) = [MFlush 0]" "pr_slots s2 = [file_slot fs' l]"
    "pr_acked s2 = []" "pr_sent s2 = [?m, MFlush 0]" "pr_location s2 = il" "pr_json s2 = in_json i"
    using step by (simp_all add: s2_def writer_handle_def s1 acked)
  define s3 where
    "s3 = s2\<lparr>pr_chan := (pr_chan s2)\<lparr>ch_queue := [], ch_waiting := False\<rparr>, pr_writer := WBusy (MFlush 0)\<rparr>"
  have moves: "writer_moves ops s1 s2" "writer_moves ops s2 s3" "writer_moves ops s3 (writer_handle ops (MFlush 0) s3)"
    using handle_moves [OF s1(1)] recv_moves [OF s2(1,2)] handle_moves [of s3 "MFlush 0"]
    by (simp_all add: s2_def s3_def)
  then have "wreach ops s1 (writer_handle ops (MFlush 0) s3)"
    by (meson rtranclp.rtrancl_into_rtrancl rtranclp.rtrancl_refl)
  then have "lreach ops (started i il cap [file_slot fs l] ctx w) (writer_handle ops (MFlush 0) s3)"
    using acts_run_lreach [OF run] wreach_lreach by (meson rtranclp_trans)
  then show thesis
    by (rule that) (simp_all add: writer_handle_def writer_step_file s2 s3_def)
qed

text \<open>The example record, sent when the clock reads the epoch.\<close>

definition epoch :: timestamp where
  "epoch = \<lparr>ts_year = 1970, ts_month = 1, ts_day = 1, ts_hour = 0, ts_minute = 0, ts_second = 0,
     ts_microsecond = 0, ts_offset_seconds = 0\<rparr>"

lemma timestamp_epoch: "timestamp_now 0 0 = epoch"
  by code_simp

lemma display_epoch: "display_timestamp epoch = lit ''1970-01-01T00:00:00.000000Z''"
  by (simp add: display_timestamp_def display_offset_def epoch_def fmt_int0_def pad_zero_def
      fmt_nat_small fmt_nat_big replicate_5)

definition example_record :: log_entry where
  "example_record = plain_example\<lparr>le_timestamp := epoch\<rparr>"

lemma first_example: "w_clock w = (\<lambda>_. 0) \<Longrightarrow> first_record quiet_inner 1 plain_example ctx_init w = example_record"
  by (simp add: first_record_def merge_context_def quiet_inner_def timestamp_epoch
      current_context_def ctx_init_def plain_example_def example_record_def)

definition example_line :: bytes where
  "example_line = utf8 (lit ''1970-01-01T00:00:00.000000Z [INFO] hi'') @ [10]"

lemma format_example_record: "format_entry True False example_record = example_line"
  unfolding example_record_def example_line_def
  by (simp add: format_entry_def format_record_def plain_example_def location_def display_epoch
      level_as_str_def del: utf8_simps)

lemma example_line_short: "length example_line < 2 ^ 64"
  by (simp add: example_line_def utf8_ascii del: utf8_simps)

lemma fs_clock:
  "w_clock (snd (fs_create_dir_all p w)) = w_clock w" "w_clock (snd (fs_open_append p w)) = w_clock w"
  "w_clock (snd (fs_metadata f w)) = w_clock w" "w_clock (snd (clock_now c w)) = w_clock w"
  by (simp_all add: fs_create_dir_all_def fs_open_append_def fs_lookup_create_def fs_metadata_def clock_now_def
      system_now_def syscall_def Let_def split: option.split clock.split)

lemma interval_start_for_clock: "w_clock (snd (interval_start_for f i c w)) = w_clock w"
  using fs_clock(4) [of c w] fs_clock(3) [of f "snd (clock_now c w)"]
  by (auto simp: interval_start_for_def Let_def split: prod.splits sum.splits option.splits clock.splits)

lemma open_with_clock: "w_clock (snd (open_with p ms mb iv c w)) = w_clock w"
proof -
  let ?made = "case path_parent p of
      Some parent \<Rightarrow> if parent \<noteq> [] then fs_create_dir_all parent w else (Inr (), w) | None \<Rightarrow> (Inr (), w)"
  obtain r1 w1 where 1: "?made = (r1, w1)" by (cases ?made)
  have "w_clock (snd ?made) = w_clock w" using fs_clock(1) by (auto split: option.split)
  then have w1: "w_clock w1 = w_clock w" by (simp add: 1)
  obtain r2 w2 where 2: "fs_open_append p w1 = (r2, w2)" by (cases "fs_open_append p w1")
  have w2: "w_clock w2 = w_clock w" using fs_clock(2) [of p w1] by (simp add: 2 w1)
  show ?thesis
  proof (cases r2)
    case (Inr f)
    obtain r3 w3 where 3: "fs_metadata f w2 = (r3, w3)" by (cases "fs_metadata f w2")
    have w3: "w_clock w3 = w_clock w" using fs_clock(3) [of f w2] by (simp add: 3 w2)
    obtain r4 w4 where 4: "interval_start_for f iv c w3 = (r4, w4)" by (cases "interval_start_for f iv c w3")
    have "w_clock w4 = w_clock w" using interval_start_for_clock [of f iv c w3] by (simp add: 4 w3)
    then show ?thesis using 1 2 3 4 Inr w1 by (cases r1) (simp_all add: open_with_def Let_def)
  qed (use 1 2 w1 w2 in \<open>cases r1; simp add: open_with_def\<close>)
qed

lemma example_flush:
  assumes "file_history s0 w0 [[]]" "w_clock w0 = (\<lambda>_. 0)" "2 \<le> cap"
  obtains s where "lreach ops (started quiet_inner True cap [file_slot s0 l] ctx_init w0) s"
    "pr_acked s = [0]" "pr_sent s = [MLog example_record, MFlush 0]"
proof -
  note rec = first_example [OF assms(2)]
  have len: "length (concat (concat [[]])) + length (format_entry True (in_json quiet_inner)
      (first_record quiet_inner 1 plain_example ctx_init w0)) < 2 ^ 64"
    using example_line_short unfolding rec by (simp add: quiet_inner_def format_example_record)
  show thesis
    by (rule flushing_acked [OF quiet_inner_fresh assms(3) quiet_inner_enabled assms(1) len, where ops = ops and l = l])
      (use that in \<open>simp_all add: rec [simplified]\<close>)
qed

lemma example_open:
  obtains s0 w0 where "open_with (lit ''app.log'') 0 3 Daily System quiet_world = (Inr s0, w0)"
    "file_history s0 w0 [[]]" "w_clock w0 = (\<lambda>_. 0)"
proof -
  have "calm quiet_world" "\<forall>k \<le> 3. w_dir quiet_world (gen_path (lit ''app.log'') k) = None"
    by (simp_all add: calm_def quiet_world_def)
  then obtain s0 w0 where op: "open_with (lit ''app.log'') 0 3 Daily System quiet_world = (Inr s0, w0)"
      "gens_inv s0 w0 [[]]" "start_read s0 w0"
    using open_with_fresh by metis
  have "w_clock w0 = (\<lambda>_. 0)" using open_with_clock [of "lit ''app.log''" 0 3 Daily System quiet_world]
    by (simp only: op(1) snd_conv) (simp add: quiet_world_def)
  then show thesis by (rule that [OF op(1) file_history_start [OF op(2,3)]])
qed

theorem acknowledged_request_covers_earlier_sends_witness:
  "\<exists>slots w s. lreach panicking_ops (started quiet_inner True 2 slots ctx_init w) s \<and>
    take 2 (pr_handled s) = [MLog example_record, MFlush 0]"
proof -
  obtain s0 w0 where "file_history s0 w0 [[]]" "w_clock w0 = (\<lambda>_. 0)" by (rule example_open)
  then obtain s where "lreach panicking_ops (started quiet_inner True 2 [file_slot s0 Debug] ctx_init w0) s"
    "pr_acked s = [0]" "pr_sent s = [MLog example_record, MFlush 0]"
    using example_flush [of s0 w0 2 panicking_ops Debug] by auto
  then have "take 2 (pr_handled s) = [MLog example_record, MFlush 0]"
    using acknowledged_request_covers_earlier_sends [of panicking_ops quiet_inner True 2 "[file_slot s0 Debug]"
        ctx_init w0 s 0 "[MLog example_record]" "MFlush 0" "[]"] by (simp add: numeral_2_eq_2)
  then show ?thesis using \<open>lreach _ _ s\<close> by blast
qed

text \<open>No deadlock. If the flush of a caller's sink never unwinds, then from every reachable
  state, whatever the other threads are doing, the writer and the holders of the locks can make the
  steps after which the call a thread is in (log, flush or shutdown) has returned.\<close>

theorem every_call_can_return:
  assumes "flush_returns ops" "fresh_inner i" "lreach ops (started i il cap slots ctx w) s"
  shows "\<exists>s'. lreach ops s s' \<and> pr_calls s' t = Idle"
  by (rule idle_reach [OF assms(1) sound_reach [OF assms(3,1) sound_started [OF assms(2)]]])

text \<open>A caller's sink that accepts everything.\<close>

definition quiet_ops :: "unit sink_ops" where
  "quiet_ops = \<lparr>op_write_entry = (\<lambda>e bs s w. (Done (Inr ()), s, w)), op_flush = (\<lambda>s w. (Done (Inr ()), s, w))\<rparr>"

lemma quiet_ops_returns: "flush_returns quiet_ops"
  by (simp add: flush_returns_def quiet_ops_def)

theorem every_call_can_return_witness:
  "\<exists>s s'. pr_calls s 2 = Awaiting (MShutdown 0) \<and>
    lreach quiet_ops (started quiet_inner True 2 [] ctx_init quiet_world) s \<and>
    lreach quiet_ops s s' \<and> pr_calls s' 2 = Idle"
proof -
  obtain s where s: "acts_run quiet_ops (racing_acts plain_example)
      (started quiet_inner True 2 [] ctx_init quiet_world) = Some s" "pr_calls s 2 = Awaiting (MShutdown 0)"
    by (rule racing_run [OF quiet_inner_fresh _ quiet_inner_enabled, where cap = 2 and ops = quiet_ops
          and il = True and slots = "[]" and ctx = ctx_init and w = quiet_world]) simp_all
  from acts_run_lreach [OF s(1)] s(2)
    every_call_can_return [OF quiet_ops_returns quiet_inner_fresh acts_run_lreach [OF s(1)], of 2]
  show ?thesis by blast
qed

text \<open>Claim C29: also with \<open>Block\<close> a record can vanish. A thread passes the check of the closed flag,
  another shuts the logger down, and the record is sent behind the request: \<open>log\<close> returns normally, the
  writer ends without handling the record, and it is neither counted as dropped nor written to
  standard error.\<close>

theorem shutdown_loses_racing_record:
  fixes e :: log_entry
  assumes "fresh_inner i" "2 \<le> cap" "is_enabled_for i (le_level e) (le_target e)" "flush_returns ops"
    "in_backpressure i = Block"
  shows "\<exists>s r. lreach ops (started i il cap slots ctx w) s \<and> le_message r = le_message e \<and>
    pr_fates s = [(1, r, Queued)] \<and> (\<forall>t. pr_calls s t = Idle) \<and> pr_writer s = WStopped \<and>
    pr_handled s = [MShutdown 0] \<and> pr_discarded s = [MLog r] \<and> dropped_message_count (pr_inner s) = 0"
proof -
  let ?r = "first_record i 1 e ctx w"
  obtain s1 where run: "acts_run ops (racing_acts e) (started i il cap slots ctx w) = Some s1"
    and s1: "pr_calls s1 = (\<lambda>_. Idle)(2 := Awaiting (MShutdown 0))" "pr_writer s1 = WBusy (MShutdown 0)"
      "ch_queue (pr_chan s1) = [MLog ?r]" "pr_handled s1 = []" "pr_acked s1 = []"
      "pr_fates s1 = [(1, ?r, Queued)]" "pr_inner s1 = i\<lparr>is_closed := True\<rparr>"
    by (rule racing_run [OF assms(1-3)])
  define s2 where "s2 = writer_handle ops (MShutdown 0) s1"
  have s2: "pr_writer s2 = WStopping" "pr_calls s2 = pr_calls s1" "pr_chan s2 = pr_chan s1"
    "pr_handled s2 = [MShutdown 0]" "pr_fates s2 = [(1, ?r, Queued)]" "pr_inner s2 = pr_inner s1"
    using shutdown_stops [OF assms(4)] unfolding s2_def
    by (rule writer_handle_cases [of ops s1 "MShutdown 0"]; force simp: s1)+
  define s3 where "s3 = writer_exit ops s2"
  have s3: "pr_writer s3 = WStopped" "pr_calls s3 = pr_calls s1" "pr_handled s3 = [MShutdown 0]"
    "pr_discarded s3 = [MLog ?r]" "ch_queue (pr_chan s3) = []" "pr_fates s3 = [(1, ?r, Queued)]" "pr_inner s3 = pr_inner s1"
    unfolding s3_def by (rule writer_exit_cases [of ops s2]; simp add: s2 s1)+
  let ?i = "i\<lparr>is_closed := True, join_lock := HandleGone\<rparr>"
  have "acts_run ops [ACall 2, ACall 2, ACall 2] s3 = Some (s3\<lparr>pr_calls := (\<lambda>_. Idle), pr_inner := ?i\<rparr>)"
    using assms(1) by (auto simp: act_step_def call_step_def ack_recv_def ack_sender_alive_def join_enter_def
        join_return_def set_call_def s3 s1 fresh_inner_def intro!: process.equality)
  then have "lreach ops s3 (s3\<lparr>pr_calls := (\<lambda>_. Idle), pr_inner := ?i\<rparr>)" by (rule acts_run_lreach)
  moreover have "wreach ops s1 s3"
    using handle_moves [OF s1(2)] exit_moves [OF s2(1)] unfolding s2_def s3_def
    by (meson rtranclp.rtrancl_into_rtrancl rtranclp.rtrancl_refl)
  ultimately have "lreach ops (started i il cap slots ctx w) (s3\<lparr>pr_calls := (\<lambda>_. Idle), pr_inner := ?i\<rparr>)"
    using acts_run_lreach [OF run] wreach_lreach by (meson rtranclp_trans)
  then show ?thesis
    using assms(1) by (intro exI [of _ "s3\<lparr>pr_calls := (\<lambda>_. Idle), pr_inner := ?i\<rparr>"] exI [of _ ?r])
      (simp add: s3 fresh_inner_def dropped_message_count_def)
qed

theorem shutdown_loses_racing_record_witness:
  "\<exists>s r. lreach quiet_ops (started quiet_inner True 2 [] ctx_init quiet_world) s \<and> le_message r = lit ''hi'' \<and>
    pr_fates s = [(1, r, Queued)] \<and> pr_handled s = [MShutdown 0] \<and> pr_discarded s = [MLog r] \<and>
    dropped_message_count (pr_inner s) = 0"
proof -
  have "in_backpressure quiet_inner = Block" "le_message plain_example = lit ''hi''"
    by (simp_all add: quiet_inner_def plain_example_def)
  then show ?thesis
    using shutdown_loses_racing_record [OF quiet_inner_fresh _ quiet_inner_enabled quiet_ops_returns,
        of 2 True "[]" ctx_init quiet_world] by auto
qed

text \<open>Claim C39: with \<open>DropNewest\<close> a caller of \<open>log\<close> can block. The queue is full, one thread calls
  \<open>flush\<close>, whose send waits for room and holds the lock of the sender; a second thread in \<open>log\<close> then waits for
  that lock, neither sending its record nor dropping and counting it, until the writer moves.\<close>

theorem drop_newest_caller_can_block:
  fixes e :: log_entry
  assumes "fresh_inner i" "is_enabled_for i (le_level e) (le_target e)" "in_backpressure i = DropNewest"
  shows "\<exists>s m. lreach ops (started i il 1 slots ctx w) s \<and> chan_full (pr_chan s) \<and>
    pr_calls s 1 = Locking (MLog m) \<and> pr_calls s 2 = Sending (MFlush 0) \<and>
    call_step 1 s = None \<and> call_step 2 s = None \<and> dropped_message_count (pr_inner s) = 0"
proof -
  have "\<exists>s m. acts_run ops [ALog 1 e, ACall 1, ACall 1, ACall 1, AFlush 2, ACall 2, ALog 1 e, ACall 1]
      (started i il 1 slots ctx w) = Some s \<and> chan_full (pr_chan s) \<and>
    pr_calls s 1 = Locking (MLog m) \<and> pr_calls s 2 = Sending (MFlush 0) \<and>
    call_step 1 s = None \<and> call_step 2 s = None \<and> dropped_message_count (pr_inner s) = 0"
    using assms by (simp add: act_defs Let_def dropped_message_count_def)
  then show ?thesis using acts_run_lreach by blast
qed

theorem drop_newest_caller_can_block_witness:
  "\<exists>s. lreach quiet_ops (started (quiet_inner\<lparr>in_backpressure := DropNewest\<rparr>) True 1 [] ctx_init quiet_world) s \<and>
    call_step 1 s = None \<and> pr_calls s 1 \<noteq> Idle"
proof -
  let ?i = "quiet_inner\<lparr>in_backpressure := DropNewest\<rparr>"
  have "fresh_inner ?i" "is_enabled_for ?i (le_level plain_example) (le_target plain_example)"
    using quiet_inner_fresh quiet_inner_enabled by (simp_all add: fresh_inner_def is_enabled_for_def)
  then show ?thesis
    using drop_newest_caller_can_block [of ?i plain_example quiet_ops True "[]" ctx_init quiet_world] by force
qed

end
