(* ===== verification/Xos_Builder.thy ===== *)
theory Xos_Builder
  imports Xos_Guarantees
begin

section \<open>The builder (\<open>src/logger.rs\<close>)\<close>

text \<open>
  The configuration as the builder collects it, and \<open>build\<close>, which opens the sinks and starts the writer
  thread. The environment is a map from names to values, the identity of the process a record, the
  resolver of host names an argument. A boxed sink of the caller
  is a value of type \<open>sink\<close>: its own, or one of the crate's.
\<close>

definition DEFAULT_CHANNEL_CAPACITY :: nat where "DEFAULT_CHANNEL_CAPACITY = 8192"
definition DEFAULT_MAX_FILE_SIZE :: u64 where "DEFAULT_MAX_FILE_SIZE = 10 * 1024 * 1024"

datatype 'c sink_source =
    Stdout | Stderr | File path u64 nat rotation_interval | Syslog syslog_sink | RemoteSyslog remote_sink
  | Custom "'c sink"

record 'c builder =
  b_level :: level
  b_capacity :: nat
  b_backpressure :: backpressure
  b_include_location :: bool
  b_time_offset_seconds :: i32
  b_json :: bool
  b_filter :: "target_filter option"
  b_read_env :: bool
  b_sinks :: "('c sink_source \<times> level) list"

definition builder_default :: "'c builder" where
  "builder_default = \<lparr>b_level = Info, b_capacity = DEFAULT_CHANNEL_CAPACITY, b_backpressure = Block,
     b_include_location = True, b_time_offset_seconds = 0, b_json = False, b_filter = None,
     b_read_env = True, b_sinks = []\<rparr>"

definition builder_new :: "'c builder" where "builder_new = builder_default"

subsection \<open>Settings\<close>

definition set_level :: "level \<Rightarrow> 'c builder \<Rightarrow> 'c builder" where
  "set_level l b = b\<lparr>b_level := l\<rparr>"

definition channel_capacity :: "nat \<Rightarrow> 'c builder \<Rightarrow> 'c builder" where
  "channel_capacity n b = b\<lparr>b_capacity := n\<rparr>"

definition set_backpressure :: "backpressure \<Rightarrow> 'c builder \<Rightarrow> 'c builder" where
  "set_backpressure p b = b\<lparr>b_backpressure := p\<rparr>"

definition include_location :: "bool \<Rightarrow> 'c builder \<Rightarrow> 'c builder" where
  "include_location x b = b\<lparr>b_include_location := x\<rparr>"

definition set_json :: "'c builder \<Rightarrow> 'c builder" where
  "set_json b = b\<lparr>b_json := True\<rparr>"

definition set_filter :: "target_filter \<Rightarrow> 'c builder \<Rightarrow> 'c builder" where
  "set_filter f b = b\<lparr>b_filter := Some f\<rparr>"

definition env_filter :: "'c builder \<Rightarrow> 'c builder" where
  "env_filter b = b\<lparr>b_read_env := True\<rparr>"

definition ignore_env_filter :: "'c builder \<Rightarrow> 'c builder" where
  "ignore_env_filter b = b\<lparr>b_read_env := False\<rparr>"

definition set_time_offset :: "i32 \<Rightarrow> 'c builder \<Rightarrow> 'c builder" where
  "set_time_offset x b = b\<lparr>b_time_offset_seconds := x\<rparr>"

subsection \<open>Sinks\<close>

definition set_single_sink :: "'c sink_source \<Rightarrow> 'c builder \<Rightarrow> 'c builder" where
  "set_single_sink src b = b\<lparr>b_sinks := [(src, Trace)]\<rparr>"

definition to_stdout :: "'c builder \<Rightarrow> 'c builder" where
  "to_stdout b = set_single_sink Stdout b"

definition to_stderr :: "'c builder \<Rightarrow> 'c builder" where
  "to_stderr b = set_single_sink Stderr b"

text \<open>The file is opened once to report an error early, and again by \<open>build\<close>.\<close>

definition to_file_with_interval ::
  "path \<Rightarrow> u64 \<Rightarrow> nat \<Rightarrow> rotation_interval \<Rightarrow> 'c builder \<Rightarrow> world \<Rightarrow> 'c builder io_result \<times> world" where
  "to_file_with_interval p max_size max_backups interval b w =
     (case open_with_interval p max_size max_backups interval w of
        (Inl e, w) \<Rightarrow> (Inl e, w)
      | (Inr _, w) \<Rightarrow> (Inr (set_single_sink (File p max_size max_backups interval) b), w))"

definition to_file :: "path \<Rightarrow> u64 \<Rightarrow> nat \<Rightarrow> 'c builder \<Rightarrow> world \<Rightarrow> 'c builder io_result \<times> world" where
  "to_file p max_size max_backups b w = to_file_with_interval p max_size max_backups Never b w"

definition builder_sink :: "'c sink \<Rightarrow> 'c builder \<Rightarrow> 'c builder" where
  "builder_sink s b = set_single_sink (Custom s) b"

definition add_sink :: "'c sink \<Rightarrow> level \<Rightarrow> 'c builder \<Rightarrow> 'c builder" where
  "add_sink s l b = b\<lparr>b_sinks := b_sinks b @ [(Custom s, l)]\<rparr>"

definition to_syslog :: "process_env \<Rightarrow> facility \<Rightarrow> 'c builder \<Rightarrow> 'c builder" where
  "to_syslog pe f b = set_single_sink (Syslog (syslog_local pe f (default_ident (pe_args pe)))) b"

type_synonym resolver = "rstr \<Rightarrow> 16 word \<Rightarrow> path list io_result"

definition to_remote_syslog ::
  "process_env \<Rightarrow> resolver \<Rightarrow> rstr \<Rightarrow> 16 word \<Rightarrow> facility \<Rightarrow> 'c builder \<Rightarrow> world \<Rightarrow> 'c builder io_result \<times> world" where
  "to_remote_syslog pe resolve host port f b w =
     (case resolve host port of
        Inl e \<Rightarrow> (Inl e, w)
      | Inr [] \<Rightarrow> (Inl InvalidInput, w)
      | Inr (addr # _) \<Rightarrow>
          (case remote_new pe addr f (default_ident (pe_args pe)) w of
             (Inl e, w) \<Rightarrow> (Inl e, w)
           | (Inr r, w) \<Rightarrow> (Inr (set_single_sink (RemoteSyslog r) b), w)))"

subsection \<open>Building\<close>

definition open_source :: "'c sink_source \<Rightarrow> world \<Rightarrow> 'c sink io_result \<times> world" where
  "open_source src w = (case src of
     Stdout \<Rightarrow> (Inr StdoutSink, w)
   | Stderr \<Rightarrow> (Inr StderrSink, w)
   | File p max_size max_backups interval \<Rightarrow>
       (case open_with_interval p max_size max_backups interval w of
          (Inl e, w) \<Rightarrow> (Inl e, w)
        | (Inr f, w) \<Rightarrow> (Inr (FileSink f), w))
   | Syslog s \<Rightarrow> (Inr (SyslogSink s), w)
   | RemoteSyslog r \<Rightarrow> (Inr (RemoteSyslogSink r), w)
   | Custom s \<Rightarrow> (Inr s, w))"

fun open_sinks :: "('c sink_source \<times> level) list \<Rightarrow> world \<Rightarrow> 'c sink_slot list io_result \<times> world" where
  "open_sinks [] w = (Inr [], w)"
| "open_sinks ((src, l) # rest) w =
     (case open_source src w of
        (Inl e, w) \<Rightarrow> (Inl e, w)
      | (Inr s, w) \<Rightarrow>
          (case open_sinks rest w of
             (Inl e, w) \<Rightarrow> (Inl e, w)
           | (Inr slots, w) \<Rightarrow> (Inr (slot_new s l # slots), w)))"

definition thread_spawn :: "world \<Rightarrow> unit io_result \<times> world" where
  "thread_spawn w = (case syscall w of (None, w) \<Rightarrow> (Inr (), w) | (Some _, w) \<Rightarrow> (Inl OtherError, w))"

definition choose_filter :: "(rstr \<Rightarrow> rstr option) \<Rightarrow> 'c builder \<Rightarrow> target_filter" where
  "choose_filter env b = (case b_filter b of
     Some f \<Rightarrow> f
   | None \<Rightarrow>
       if b_read_env b then (case from_env env of Some f \<Rightarrow> f | None \<Rightarrow> filter_default)
       else filter_default)"

definition build_inner :: "(rstr \<Rightarrow> rstr option) \<Rightarrow> 'c builder \<Rightarrow> inner" where
  "build_inner env b = \<lparr>tx_lock = None, in_level = b_level b, in_filter = choose_filter env b,
     time_offset_seconds = b_time_offset_seconds b, in_backpressure = b_backpressure b,
     join_lock = HandleThere, is_closed = False, dropped = 0, in_json = b_json b\<rparr>"

definition build ::
  "'c builder \<Rightarrow> (rstr \<Rightarrow> rstr option) \<Rightarrow> ctx_state \<Rightarrow> world \<Rightarrow> 'c process io_result \<times> world" where
  "build b env ctx w =
     (case open_sinks (if b_sinks b = [] then [(Stdout, Trace)] else b_sinks b) w of
        (Inl e, w) \<Rightarrow> (Inl e, w)
      | (Inr slots, w) \<Rightarrow>
          (case thread_spawn w of
             (Inl e, w) \<Rightarrow> (Inl e, w)
           | (Inr _, w) \<Rightarrow>
               (Inr (started (build_inner env b) (b_include_location b) (b_capacity b) slots ctx w), w)))"

subsection \<open>What a sequence of builder calls configures\<close>

text \<open>The calls of the builder as data; a program runs them until one fails.\<close>

datatype 'c build_call =
    BLevel level | BCapacity nat | BBackpressure backpressure | BLocation bool | BJson
  | BFilter target_filter | BEnvFilter | BIgnoreEnv | BOffset i32
  | BStdout | BStderr | BFile path u64 nat rotation_interval | BSink "'c sink" | BAddSink "'c sink" level
  | BSyslog facility | BRemote rstr "16 word" facility

definition build_call ::
  "process_env \<Rightarrow> resolver \<Rightarrow> 'c build_call \<Rightarrow> 'c builder \<Rightarrow> world \<Rightarrow> 'c builder io_result \<times> world" where
  "build_call pe resolve c b w = (case c of
     BLevel l \<Rightarrow> (Inr (set_level l b), w)
   | BCapacity n \<Rightarrow> (Inr (channel_capacity n b), w)
   | BBackpressure p \<Rightarrow> (Inr (set_backpressure p b), w)
   | BLocation x \<Rightarrow> (Inr (include_location x b), w)
   | BJson \<Rightarrow> (Inr (set_json b), w)
   | BFilter f \<Rightarrow> (Inr (set_filter f b), w)
   | BEnvFilter \<Rightarrow> (Inr (env_filter b), w)
   | BIgnoreEnv \<Rightarrow> (Inr (ignore_env_filter b), w)
   | BOffset x \<Rightarrow> (Inr (set_time_offset x b), w)
   | BStdout \<Rightarrow> (Inr (to_stdout b), w)
   | BStderr \<Rightarrow> (Inr (to_stderr b), w)
   | BFile p ms mb iv \<Rightarrow> to_file_with_interval p ms mb iv b w
   | BSink s \<Rightarrow> (Inr (builder_sink s b), w)
   | BAddSink s l \<Rightarrow> (Inr (add_sink s l b), w)
   | BSyslog f \<Rightarrow> (Inr (to_syslog pe f b), w)
   | BRemote host port f \<Rightarrow> to_remote_syslog pe resolve host port f b w)"

fun build_calls ::
  "process_env \<Rightarrow> resolver \<Rightarrow> 'c build_call list \<Rightarrow> 'c builder \<Rightarrow> world \<Rightarrow> 'c builder io_result \<times> world" where
  "build_calls pe resolve [] b w = (Inr b, w)"
| "build_calls pe resolve (c # cs) b w =
     (case build_call pe resolve c b w of
        (Inl e, w) \<Rightarrow> (Inl e, w)
      | (Inr b, w) \<Rightarrow> build_calls pe resolve cs b w)"

text \<open>The last value a sequence of calls gives to a setting, or the default.\<close>

definition last_setting :: "('x \<Rightarrow> 'v option) \<Rightarrow> 'v \<Rightarrow> 'x list \<Rightarrow> 'v" where
  "last_setting pick d cs = (case rev (List.map_filter pick cs) of [] \<Rightarrow> d | v # vs \<Rightarrow> v)"

lemma last_setting_simps [simp]:
  "last_setting pick d [] = d"
  "last_setting pick d (cs @ [c]) = (case pick c of Some v \<Rightarrow> v | None \<Rightarrow> last_setting pick d cs)"
  by (simp_all add: last_setting_def List.map_filter_def split: option.split)

fun pick_level where "pick_level (BLevel l) = Some l" | "pick_level _ = None"
fun pick_capacity where "pick_capacity (BCapacity n) = Some n" | "pick_capacity _ = None"
fun pick_backpressure where "pick_backpressure (BBackpressure p) = Some p" | "pick_backpressure _ = None"
fun pick_location where "pick_location (BLocation x) = Some x" | "pick_location _ = None"
fun pick_json where "pick_json BJson = Some True" | "pick_json _ = None"
fun pick_filter where "pick_filter (BFilter f) = Some (Some f)" | "pick_filter _ = None"
fun pick_env where "pick_env BEnvFilter = Some True" | "pick_env BIgnoreEnv = Some False" | "pick_env _ = None"
fun pick_offset where "pick_offset (BOffset x) = Some x" | "pick_offset _ = None"

text \<open>The calls whose sinks remain: the last one that replaces all, and the additions after it.\<close>

definition replaces :: "'c build_call \<Rightarrow> bool" where
  "replaces c = (case c of BStdout \<Rightarrow> True | BStderr \<Rightarrow> True | BFile p ms mb iv \<Rightarrow> True | BSink s \<Rightarrow> True
     | BSyslog f \<Rightarrow> True | BRemote h p f \<Rightarrow> True | _ \<Rightarrow> False)"

definition adds :: "'c build_call \<Rightarrow> bool" where
  "adds c = (case c of BAddSink s l \<Rightarrow> True | _ \<Rightarrow> False)"

definition sink_calls :: "'c build_call list \<Rightarrow> 'c build_call list" where
  "sink_calls cs = (case dropWhile (\<lambda>c. \<not> replaces c) (rev cs) of [] \<Rightarrow> [] | c # _ \<Rightarrow> [c]) @
     filter adds (rev (takeWhile (\<lambda>c. \<not> replaces c) (rev cs)))"

lemma sink_calls_snoc:
  "sink_calls [] = []"
  "sink_calls (cs @ [c]) = (if replaces c then [c] else sink_calls cs @ (if adds c then [c] else []))"
  by (simp_all add: sink_calls_def)

text \<open>The source a call leaves in the builder.\<close>

definition source_of :: "process_env \<Rightarrow> 'c build_call \<Rightarrow> 'c sink_source \<times> level \<Rightarrow> bool" where
  "source_of pe c src = (case c of
     BStdout \<Rightarrow> src = (Stdout, Trace)
   | BStderr \<Rightarrow> src = (Stderr, Trace)
   | BFile p ms mb iv \<Rightarrow> src = (File p ms mb iv, Trace)
   | BSink s \<Rightarrow> src = (Custom s, Trace)
   | BAddSink s l \<Rightarrow> src = (Custom s, l)
   | BSyslog f \<Rightarrow> src = (Syslog (syslog_local pe f (default_ident (pe_args pe))), Trace)
   | BRemote h p f \<Rightarrow> snd src = Trace \<and> (\<exists>r. fst src = RemoteSyslog r \<and> rs_facility r = f)
   | _ \<Rightarrow> False)"

definition configured :: "process_env \<Rightarrow> 'c build_call list \<Rightarrow> 'c builder \<Rightarrow> bool" where
  "configured pe cs b \<longleftrightarrow>
     b_level b = last_setting pick_level Info cs \<and>
     b_capacity b = last_setting pick_capacity DEFAULT_CHANNEL_CAPACITY cs \<and>
     b_backpressure b = last_setting pick_backpressure Block cs \<and>
     b_include_location b = last_setting pick_location True cs \<and>
     b_time_offset_seconds b = last_setting pick_offset 0 cs \<and>
     b_json b = last_setting pick_json False cs \<and>
     b_filter b = last_setting pick_filter None cs \<and>
     b_read_env b = last_setting pick_env True cs \<and>
     list_all2 (source_of pe) (sink_calls cs) (b_sinks b)"

lemmas builder_defs = set_level_def channel_capacity_def set_backpressure_def include_location_def set_json_def
  set_filter_def env_filter_def ignore_env_filter_def set_time_offset_def set_single_sink_def to_stdout_def
  to_stderr_def builder_sink_def add_sink_def to_syslog_def

lemma configured_new: "configured pe [] builder_new"
  by (simp add: configured_def builder_new_def builder_default_def sink_calls_snoc)

lemma remote_new_facility: "remote_new pe addr f ident w = (Inr r, w') \<Longrightarrow> rs_facility r = f"
  by (auto simp: remote_new_def split: prod.splits bool.splits)

lemma configured_call:
  assumes "configured pe cs b" "build_call pe resolve c b w = (Inr b', w')"
  shows "configured pe (cs @ [c]) b'"
proof (cases c)
  case (BFile p ms mb iv)
  then have "b' = set_single_sink (File p ms mb iv) b"
    using assms(2) by (auto simp: build_call_def to_file_with_interval_def split: prod.splits sum.splits)
  with BFile assms(1) show ?thesis
    by (simp add: configured_def set_single_sink_def sink_calls_snoc replaces_def source_of_def)
next
  case (BRemote h p f)
  then obtain r where "b' = set_single_sink (RemoteSyslog r) b" "rs_facility r = f"
    using assms(2) by (auto simp: build_call_def to_remote_syslog_def dest: remote_new_facility
        split: prod.splits sum.splits list.splits)
  with BRemote assms(1) show ?thesis
    by (simp add: configured_def set_single_sink_def sink_calls_snoc replaces_def source_of_def)
next
  case (BAddSink s l)
  then have "b' = add_sink s l b" using assms(2) by (simp add: build_call_def)
  with BAddSink assms(1) show ?thesis
    by (simp add: configured_def add_sink_def sink_calls_snoc replaces_def adds_def source_of_def list_all2_appendI)
qed ((insert assms, simp add: build_call_def, elim conjE, hypsubst,
    simp add: configured_def builder_defs sink_calls_snoc replaces_def adds_def source_of_def)+)

lemma configured_calls:
  "build_calls pe resolve cs' b w = (Inr b', w') \<Longrightarrow> configured pe cs b \<Longrightarrow> configured pe (cs @ cs') b'"
proof (induction cs' arbitrary: cs b w)
  case (Cons c cs')
  obtain b1 w1 where 1: "build_call pe resolve c b w = (Inr b1, w1)" "build_calls pe resolve cs' b1 w1 = (Inr b', w')"
    using Cons.prems(1) by (auto split: prod.splits sum.splits)
  from Cons.IH [OF 1(2) configured_call [OF Cons.prems(2) 1(1)]] show ?case by simp
qed simp

text \<open>The slot that serves a call, in the running logger.\<close>

definition serves :: "process_env \<Rightarrow> 'c build_call \<Rightarrow> 'c sink_slot \<Rightarrow> bool" where
  "serves pe c slot = (case c of
     BStdout \<Rightarrow> slot = slot_new StdoutSink Trace
   | BStderr \<Rightarrow> slot = slot_new StderrSink Trace
   | BFile p ms mb iv \<Rightarrow> (\<exists>f. slot = slot_new (FileSink f) Trace \<and> fs_path f = p \<and> fs_max_size f = ms \<and>
       fs_max_backups f = mb \<and> fs_interval f = iv)
   | BSink s \<Rightarrow> slot = slot_new s Trace
   | BAddSink s l \<Rightarrow> slot = slot_new s l
   | BSyslog f \<Rightarrow> slot = slot_new (SyslogSink (syslog_local pe f (default_ident (pe_args pe)))) Trace
   | BRemote h p f \<Rightarrow> (\<exists>r. slot = slot_new (RemoteSyslogSink r) Trace \<and> rs_facility r = f)
   | _ \<Rightarrow> False)"

lemma open_source_serves:
  assumes "source_of pe c (src, l)" "open_source src w = (Inr k, w')"
  shows "serves pe c (slot_new k l)"
proof (cases c)
  case (BFile p ms mb iv)
  with assms show ?thesis
    by (auto simp: source_of_def serves_def open_source_def open_with_interval_def
        split: prod.splits sum.splits dest: open_with_config)
qed (use assms in \<open>auto simp: source_of_def serves_def open_source_def\<close>)

lemma open_sinks_serve:
  "list_all2 (source_of pe) cs srcs \<Longrightarrow> open_sinks srcs w = (Inr slots, w') \<Longrightarrow> list_all2 (serves pe) cs slots"
proof (induction arbitrary: w slots rule: list_all2_induct)
  case (Cons c cs src srcs)
  obtain sl l where src: "src = (sl, l)" by (cases src)
  obtain k w1 slots1 where 1: "open_source sl w = (Inr k, w1)" "open_sinks srcs w1 = (Inr slots1, w')"
      "slots = slot_new k l # slots1"
    using Cons.prems by (auto simp: src split: prod.splits sum.splits)
  with Cons.IH [OF 1(2)] Cons.hyps(1) show ?case
    by (simp add: src open_source_serves)
qed simp

lemma build_cases:
  assumes "build b env ctx w = (Inr s, w')"
  obtains slots w1 where "open_sinks (if b_sinks b = [] then [(Stdout, Trace)] else b_sinks b) w = (Inr slots, w1)"
    "thread_spawn w1 = (Inr (), w')"
    "s = started (build_inner env b) (b_include_location b) (b_capacity b) slots ctx w'"
  using assms that by (auto simp: build_def split: prod.splits sum.splits)

text \<open>Claim C20: a logger built by any sequence of builder calls on a new builder has for every
  setting the last value given or the default; its filter is the explicit one if there is one, else that
  of the environment unless the last word on it was to ignore it; it feeds the sink of the last call that
  sets a single sink (which also drops the sinks added before it) and the sinks added after that, in
  order and each with its own level, or standard output when there is none.\<close>

theorem builder_calls_configure_logger:
  assumes "build_calls pe resolve cs builder_new w = (Inr b, w1)" "build b env ctx w1 = (Inr s, w2)"
  shows "\<exists>slots. s = started
      \<lparr>tx_lock = None, in_level = last_setting pick_level Info cs,
       in_filter = (case last_setting pick_filter None cs of
           Some f \<Rightarrow> f
         | None \<Rightarrow> if last_setting pick_env True cs then (case from_env env of Some f \<Rightarrow> f | None \<Rightarrow> filter_default)
                   else filter_default),
       time_offset_seconds = last_setting pick_offset 0 cs,
       in_backpressure = last_setting pick_backpressure Block cs,
       join_lock = HandleThere, is_closed = False, dropped = 0, in_json = last_setting pick_json False cs\<rparr>
      (last_setting pick_location True cs) (last_setting pick_capacity DEFAULT_CHANNEL_CAPACITY cs) slots ctx w2 \<and>
    (if sink_calls cs = [] then slots = [slot_new StdoutSink Trace] else list_all2 (serves pe) (sink_calls cs) slots)"
proof -
  have conf: "configured pe cs b" using configured_calls [OF assms(1) configured_new] by simp
  obtain slots w' where op: "open_sinks (if b_sinks b = [] then [(Stdout, Trace)] else b_sinks b) w1 = (Inr slots, w')"
    and s: "s = started (build_inner env b) (b_include_location b) (b_capacity b) slots ctx w2"
    by (rule build_cases [OF assms(2)])
  have srcs: "list_all2 (source_of pe) (sink_calls cs) (b_sinks b)" using conf by (simp add: configured_def)
  have "if sink_calls cs = [] then slots = [slot_new StdoutSink Trace] else list_all2 (serves pe) (sink_calls cs) slots"
  proof (cases "b_sinks b = []")
    case True
    with srcs op show ?thesis by (auto simp: open_source_def)
  next
    case False
    with srcs op open_sinks_serve [OF srcs, of w1 slots w'] show ?thesis by auto
  qed
  with conf s show ?thesis
    by (intro exI [of _ slots]) (simp add: configured_def build_inner_def choose_filter_def)
qed

definition example_calls :: "unit build_call list" where
  "example_calls = [BAddSink StdoutSink Warn, BLevel Warn, BStderr, BIgnoreEnv, BAddSink StdoutSink Error, BLevel Debug]"

definition example_env :: process_env where
  "example_env = \<lparr>pe_etc_hostname = None, pe_env_hostname = None, pe_args = [], pe_pid = 1\<rparr>"

theorem builder_calls_configure_logger_witness:
  "\<exists>b w1 s w2. build_calls example_env (\<lambda>_ _. Inr []) example_calls builder_new quiet_world = (Inr b, w1) \<and>
    build b Map.empty ctx_init w1 = (Inr s, w2) \<and> in_level (pr_inner s) = Debug \<and>
    in_filter (pr_inner s) = filter_default \<and>
    pr_slots s = [slot_new StderrSink Trace, slot_new StdoutSink Error]"
proof -
  obtain b w1 where b: "build_calls example_env (\<lambda>_ _. Inr []) example_calls builder_new quiet_world = (Inr b, w1)"
      "b_sinks b = [(Stderr, Trace), (Custom StdoutSink, Error)]" "w1 = quiet_world"
    by (simp add: example_calls_def build_call_def builder_defs builder_new_def builder_default_def)
  obtain s w2 where s: "build b Map.empty ctx_init w1 = (Inr s, w2)"
    by (simp add: build_def b(2,3) open_source_def thread_spawn_def syscall_def quiet_world_def)
  have calls: "sink_calls example_calls = [BStderr, BAddSink StdoutSink Error]"
    by (simp add: sink_calls_def example_calls_def replaces_def adds_def)
  have settings: "last_setting pick_level Info example_calls = Debug" "last_setting pick_filter None example_calls = None"
    "last_setting pick_env True example_calls = False"
    by (simp_all add: example_calls_def last_setting_def List.map_filter_simps)
  from builder_calls_configure_logger [OF b(1) s] obtain slots where
    "in_level (pr_inner s) = Debug" "in_filter (pr_inner s) = filter_default" "pr_slots s = slots"
    "list_all2 (serves example_env) [BStderr, BAddSink StdoutSink Error] slots"
    by (auto simp: calls settings started_def)
  then show ?thesis using b(1) s by (auto simp: serves_def list_all2_Cons1)
qed

subsection \<open>From the builder to the files\<close>

lemma thread_spawn_files: "same_files w (snd (thread_spawn w))" "w_clock (snd (thread_spawn w)) = w_clock w"
  by (simp_all add: thread_spawn_def syscall_def same_files_def split: option.split)

lemma file_logger_built:
  assumes "calm w" "\<forall>k \<le> mb. w_dir w (gen_path p k) = None"
    "to_file_with_interval p ms mb iv b w = (Inr b', w1)" "build b' env ctx w1 = (Inr s, w2)"
  obtains f where "file_history f w2 [[]]" "fs_max_size f = ms" "fs_max_backups f = mb" "w_clock w2 = w_clock w"
    "fs_interval f = iv" "fs_clock f = System"
    "s = started (build_inner env b) (b_include_location b) (b_capacity b) [slot_new (FileSink f) Trace] ctx w2"
proof -
  obtain f0 w0 where 0: "open_with p ms mb iv System w = (Inr f0, w0)" "gens_inv f0 w0 [[]]"
      "fs_path f0 = p" "fs_max_backups f0 = mb" "mtime_read (fs_file f0) w0"
    using open_with_fresh [OF assms(1,2)] by metis
  have b': "b' = set_single_sink (File p ms mb iv) b" "w1 = w0"
    using assms(3) by (simp_all add: to_file_with_interval_def open_with_interval_def 0(1))
  obtain f w' where 1: "open_with p ms mb iv System w1 = (Inr f, w')" "gens_inv f w' [[]]"
      "fs_max_size f = ms" "fs_max_backups f = mb" "fs_interval f = iv" "fs_clock f = System" "start_read f w'"
    using open_with_reopen [OF 0(2), of ms iv System] 0(3-5) b'(2) by metis
  obtain slots w3 where 2: "open_sinks (if b_sinks b' = [] then [(Stdout, Trace)] else b_sinks b') w1 = (Inr slots, w3)"
      "thread_spawn w3 = (Inr (), w2)"
      "s = started (build_inner env b') (b_include_location b') (b_capacity b') slots ctx w2"
    by (rule build_cases [OF assms(4)])
  have slots: "slots = [slot_new (FileSink f) Trace]" "w3 = w'"
    using 2(1) by (simp_all add: b' set_single_sink_def open_source_def open_with_interval_def 1(1) [unfolded b'])
  have clock: "w_clock w' = w_clock w"
    by (metis 0(1) 1(1) b'(2) open_with_clock snd_conv)
  have "same_files w3 w2" "w_clock w2 = w_clock w3" using thread_spawn_files [of w3] by (simp_all add: 2(2))
  then have "file_history f w2 [[]]" "w_clock w2 = w_clock w"
    using file_history_files [OF file_history_start [OF 1(2,7)]] slots(2) clock by simp_all
  moreover have "build_inner env b' = build_inner env b" "b_include_location b' = b_include_location b"
      "b_capacity b' = b_capacity b"
    by (simp_all add: b' set_single_sink_def build_inner_def choose_filter_def)
  ultimately show thesis using that 1(3-6) 2(3) slots(1) by simp
qed

text \<open>Without a level of its own a sink takes every record.\<close>

lemma file_records_all: "file_records il json Trace ms = map (format_entry il json) (records_of ms)"
proof -
  have "Trace \<le> l" for l by (cases l) (simp_all add: level_order_defs)
  then show ?thesis by (simp add: file_records_def)
qed

text \<open>Claim C10: a logger built with \<open>to_file\<close> on a new path, with any other settings, used by any number of
  threads, while no call fails. As soon as a flush or shutdown is acknowledged, the stream of all records sent before
  the request by any thread, formatted, whole, in the order sent, followed by some sent later, is cut into
  generations of which the active file and its backups are exactly the last \<open>max_backups + 1\<close>. Older generations
  are deleted by rotation, but never too early: each is within the size limit, or a single record, and the next
  one is begun only by a record that does not fit behind it, or after the clock was read in a later slot of the
  interval than it was begun in (never, without an interval).\<close>

theorem flushed_records_are_in_the_files:
  assumes "calm w" "\<forall>k \<le> mb. w_dir w (gen_path p k) = None"
    "to_file_with_interval p ms mb iv b w = (Inr b', w1)" "build b' env ctx w1 = (Inr s0, w2)"
    "lreach ops s0 s"
    "length (concat (map (format_entry (b_include_location b) (b_json b)) (records_of (pr_sent s)))) < 2 ^ 64"
    "a \<in> set (pr_acked s)" "pr_sent s = pre @ msg # post" "ack_of msg = Some a"
  shows "\<exists>fs gens later rest. pr_slots s = [slot_new (FileSink fs) Trace] \<and> post = later @ rest \<and>
    concat gens = map (format_entry (b_include_location b) (b_json b)) (records_of pre @ records_of later) \<and>
    holds_history fs (pr_world s) mb gens \<and> gens_bounded ms gens \<and>
    (\<exists>ks. gens_due iv ms (w_clock w) ks gens) \<and> (iv = Never \<longrightarrow> gens_tight ms gens)"
proof -
  obtain f where f: "file_history f w2 [[]]" "fs_max_size f = ms" "fs_max_backups f = mb"
    and conf: "w_clock w2 = w_clock w" "fs_interval f = iv" "fs_clock f = System"
    and s0: "s0 = started (build_inner env b) (b_include_location b) (b_capacity b) [slot_new (FileSink f) Trace] ctx w2"
    by (rule file_logger_built [OF assms(1-4)])
  have json: "in_json (build_inner env b) = b_json b" by (simp add: build_inner_def)
  show ?thesis
    using acknowledged_in_files [OF f assms(5) [unfolded s0] _ assms(7-9)] assms(6) gens_due_tight
    unfolding file_records_all json map_append conf clock_reading_System by blast
qed

theorem flushed_records_are_in_the_files_witness:
  "\<exists>b' w1 s0 w2 s fs gens. to_file_with_interval (lit ''app.log'') 0 3 Daily builder_new quiet_world = (Inr b', w1) \<and>
    build b' Map.empty ctx_init w1 = (Inr s0, w2) \<and> lreach quiet_ops s0 s \<and> pr_acked s = [0] \<and>
    pr_slots s = [slot_new (FileSink fs) Trace] \<and> concat gens = [example_line] \<and>
    holds_history fs (pr_world s) 3 gens \<and> gens_bounded 0 gens \<and>
    (\<exists>ks. gens_due Daily 0 (w_clock quiet_world) ks gens)"
proof -
  let ?p = "lit ''app.log''"
  have calm: "calm quiet_world" "\<forall>k \<le> 3. w_dir quiet_world (gen_path ?p k) = None"
    by (simp_all add: calm_def quiet_world_def)
  obtain f0 w0 where 0: "open_with ?p 0 3 Daily System quiet_world = (Inr f0, w0)" "gens_inv f0 w0 [[]]"
      "fs_path f0 = ?p" "fs_max_backups f0 = 3"
    using open_with_fresh [OF calm] by metis
  define b0 :: "unit builder" where "b0 = builder_new"
  define b' where "b' = set_single_sink (File ?p 0 3 Daily) b0"
  have to: "to_file_with_interval ?p 0 3 Daily b0 quiet_world = (Inr b', w0)"
    by (simp add: to_file_with_interval_def open_with_interval_def 0(1) b'_def del: lit_simps)
  obtain f w' where 1: "open_with ?p 0 3 Daily System w0 = (Inr f, w')" "gens_inv f w' [[]]"
    using open_with_reopen [OF 0(2), of 0 Daily System] 0(3,4) by metis
  have "fst (thread_spawn w') = Inr ()"
    using syscall_calm [of w'] 1(2) by (simp add: thread_spawn_def gens_inv_def)
  then obtain s0 w2 where bl: "build b' Map.empty ctx_init w0 = (Inr s0, w2)"
    by (cases "thread_spawn w'") (simp add: build_def b'_def set_single_sink_def open_source_def
        open_with_interval_def 1(1) del: lit_simps)
  obtain g where g: "file_history g w2 [[]]" "w_clock w2 = w_clock quiet_world"
    and s0: "s0 = started (build_inner Map.empty b0) (b_include_location b0)
        (b_capacity b0) [slot_new (FileSink g) Trace] ctx_init w2"
    by (rule file_logger_built [OF calm to bl])
  have "build_inner Map.empty b0 = quiet_inner" "b_include_location b0" "\<not> b_json b0"
      "b_capacity b0 = 8192"
    by (simp_all add: b0_def build_inner_def builder_new_def builder_default_def quiet_inner_def choose_filter_def
        from_env_def from_env_name_def DEFAULT_CHANNEL_CAPACITY_def)
  note conf = this
  obtain s where s: "lreach quiet_ops s0 s" "pr_acked s = [0]" "pr_sent s = [MLog example_record, MFlush 0]"
    using example_flush [OF g(1), of 8192 quiet_ops Trace] g(2) by (auto simp: s0 conf file_slot_def quiet_world_def)
  have "length (concat (map (format_entry (b_include_location b0) (b_json b0))
      (records_of (pr_sent s)))) < 2 ^ 64"
    using example_line_short by (simp add: s(3) conf format_example_record)
  from flushed_records_are_in_the_files [OF calm to bl s(1) this, of 0 "[MLog example_record]" "MFlush 0" "[]"]
  obtain fs gens where "pr_slots s = [slot_new (FileSink fs) Trace]" "concat gens = [example_line]"
      "holds_history fs (pr_world s) 3 gens" "gens_bounded 0 gens" "\<exists>ks. gens_due Daily 0 (w_clock quiet_world) ks gens"
    using s(2,3) by (auto simp: conf format_example_record)
  with to bl s(1,2) show ?thesis unfolding b0_def by blast
qed

end
