(* ===== verification/Xos_Validity.thy ===== *)
theory Xos_Validity
  imports Xos_Guarantees
begin

section \<open>Well-formed strings everywhere\<close>

text \<open>
  A Rust \<open>str\<close> holds Unicode scalar values only. The types of the crate guarantee it; in the model it is a
  typing of the state of the logger: when the strings that callers pass in are valid, those of every record
  in the logger are, wherever it is, and the bytes written for it are UTF-8.
\<close>

subsection \<open>The typing\<close>

definition field_valid :: "field \<Rightarrow> bool" where
  "field_valid f \<longleftrightarrow> valid_str (f_key f) \<and> value_valid (f_value f)"

definition ctx_valid :: "ctx_state \<Rightarrow> bool" where
  "ctx_valid st \<longleftrightarrow> (\<forall>t. \<forall>fr \<in> set (context_stack st t). list_all field_valid (fr_fields fr))"

definition message_valid :: "message \<Rightarrow> bool" where
  "message_valid msg \<longleftrightarrow> list_all entry_valid (records_of [msg])"

definition caller_valid :: "caller \<Rightarrow> bool" where
  "caller_valid c = (case c of Stamping e \<Rightarrow> entry_valid e | Locking msg \<Rightarrow> message_valid msg
     | Sending msg \<Rightarrow> message_valid msg | _ \<Rightarrow> True)"

text \<open>What callers pass in: the fields pushed on the contexts and the records handed to \<open>log\<close>.\<close>

definition inputs_valid :: "'c process \<Rightarrow> bool" where
  "inputs_valid s \<longleftrightarrow> ctx_valid (pr_ctx s) \<and> (\<forall>t e. pr_calls s t = Stamping e \<longrightarrow> entry_valid e)"

definition strings_valid :: "'c process \<Rightarrow> bool" where
  "strings_valid s \<longleftrightarrow> ctx_valid (pr_ctx s) \<and> (\<forall>t. caller_valid (pr_calls s t)) \<and>
     list_all entry_valid (records_of (pr_sent s)) \<and> list_all (entry_valid \<circ> snd) (pr_admitted s) \<and>
     list_all (\<lambda>x. entry_valid (fst (snd x))) (pr_fates s)"

lemma caller_valid_simps [simp]:
  "caller_valid Idle" "caller_valid (Stamping e) \<longleftrightarrow> entry_valid e" "caller_valid (Locking msg) \<longleftrightarrow> message_valid msg"
  "caller_valid (Sending msg) \<longleftrightarrow> message_valid msg" "caller_valid (Awaiting msg)" "caller_valid Joining" "caller_valid JoinWait"
  by (simp_all add: caller_valid_def)

lemma message_valid_simps [simp]:
  "message_valid (MLog e) \<longleftrightarrow> entry_valid e" "message_valid (MFlush a)" "message_valid (MShutdown a)"
  by (simp_all add: message_valid_def)

lemma entry_valid_fields:
  "entry_valid e \<longleftrightarrow> valid_str (le_message e) \<and> valid_str (le_target e) \<and> valid_str (le_file e) \<and>
     list_all field_valid (le_fields e)"
  by (simp add: entry_valid_def field_valid_def [abs_def])

subsection \<open>The context and the stamp keep it\<close>

lemma upsert_valid: "list_all field_valid m \<Longrightarrow> field_valid f \<Longrightarrow> list_all field_valid (upsert f_key f m)"
  by (induction m) auto

lemma merge_fields_valid: "list_all field_valid fs \<Longrightarrow> list_all field_valid m \<Longrightarrow> list_all field_valid (merge_fields fs m)"
  by (induction fs arbitrary: m) (auto simp: upsert_valid)

lemma merge_frames_valid:
  "\<forall>fr \<in> set frs. list_all field_valid (fr_fields fr) \<Longrightarrow> list_all field_valid m \<Longrightarrow> list_all field_valid (merge_frames frs m)"
  by (induction frs arbitrary: m) (auto simp: merge_fields_valid)

lemma current_context_valid: "ctx_valid st \<Longrightarrow> list_all field_valid (current_context t st)"
  by (simp add: current_context_def ctx_valid_def merge_frames_valid)

lemma merge_loop_valid:
  "list_all field_valid ctx \<Longrightarrow> list_all field_valid own \<Longrightarrow> list_all field_valid (merge_loop ctx own)"
  by (induction ctx arbitrary: own) auto

lemma stamped_valid: "entry_valid e \<Longrightarrow> ctx_valid (pr_ctx s) \<Longrightarrow> entry_valid (stamped t e s)"
  by (simp add: stamped_def merge_context_def entry_valid_fields merge_loop_valid current_context_valid)

subsection \<open>Every step keeps it\<close>

lemma strings_valid_frame:
  assumes "strings_valid s" "pr_ctx s' = pr_ctx s" "\<And>t. caller_valid (pr_calls s' t)" "pr_sent s' = pr_sent s"
    "pr_admitted s' = pr_admitted s" "pr_fates s' = pr_fates s"
  shows "strings_valid s'"
  using assms by (simp add: strings_valid_def)

lemma strings_valid_call:
  assumes "call_step t s = Some s'" "strings_valid s"
  shows "strings_valid s'"
proof -
  have calls: "caller_valid (pr_calls s u)" for u using assms(2) by (simp add: strings_valid_def)
  from assms(1) show ?thesis
  proof (cases rule: call_step_cases)
    case (stamp e)
    have "entry_valid (stamped t e s)"
      using calls [of t] stamp(1) assms(2) by (intro stamped_valid) (simp_all add: strings_valid_def)
    moreover have "pr_ctx (log_stamp t e s) = pr_ctx s"
      by (simp add: log_stamp_def call_defs Let_def split: prod.split)
    ultimately show ?thesis using assms(2) by (simp add: stamp strings_valid_def)
  next
    case (lock msg)
    then show ?thesis using calls [of t] calls by (intro strings_valid_frame [OF assms(2)]) (simp_all add: call_defs)
  next
    case (queued e c)
    then show ?thesis using calls [of t] assms(2) by (simp add: strings_valid_def call_defs)
  next
    case (dropped e)
    then show ?thesis using calls [of t] assms(2) by (simp add: strings_valid_def call_defs)
  next
    case (emergency e)
    then show ?thesis using calls [of t] assms(2) by (simp add: strings_valid_def call_defs)
  next
    case (sent msg c)
    then show ?thesis using assms(2) records_of_control [of msg] by (simp add: strings_valid_def call_defs)
  next
    case (acked msg c)
    then show ?thesis using calls by (intro strings_valid_frame [OF assms(2)]) (auto simp: call_defs)
  qed (use calls in \<open>intro strings_valid_frame [OF assms(2)]; simp add: call_defs\<close>)+
qed

lemma strings_valid_step:
  assumes "lstep ops s s'" "inputs_valid s'" "strings_valid s"
  shows "strings_valid s'"
  using assms
proof (induction rule: lstep.induct)
  case (log s t e)
  show ?case
  proof (cases "log_enter t e s = s")
    case True
    then show ?thesis using log by simp
  next
    case False
    then have new: "log_enter t e s = set_call t (Stamping e) s" using log_enter_cases [of t e s] by simp
    moreover have "pr_calls (log_enter t e s) t = Stamping e" unfolding new by (simp add: call_defs)
    ultimately have "entry_valid e" using log(3) unfolding inputs_valid_def by blast
    then show ?thesis
      using log(4) unfolding new by (intro strings_valid_frame [OF log(4)]) (simp_all add: call_defs strings_valid_def)
  qed
next
  case (call t s s')
  then show ?case by (blast intro: strings_valid_call)
next
  case (writer s s')
  have "pr_ctx s' = pr_ctx s" "pr_admitted s' = pr_admitted s" "pr_fates s' = pr_fates s"
    using writer(1) by (cases rule: writer_moves_cases;
        simp add: writer_wait_def writer_handle_def writer_exit_def split: prod.split)+
  then show ?case
    using writer_moves_frame [OF writer(1)] writer(3)
    by (intro strings_valid_frame [OF writer(3)]) (simp_all add: strings_valid_def)
qed (auto simp: strings_valid_def inputs_valid_def flush_enter_def shutdown_enter_def fresh_ack_def call_defs)

text \<open>Runs in which callers pass in valid strings.\<close>

abbreviation typed_reach :: "'c sink_ops \<Rightarrow> 'c process \<Rightarrow> 'c process \<Rightarrow> bool" where
  "typed_reach ops \<equiv> rtranclp (\<lambda>s s'. lstep ops s s' \<and> inputs_valid s')"

lemma strings_valid_started: "ctx_valid ctx \<Longrightarrow> strings_valid (started i il cap slots ctx w)"
  by (simp add: strings_valid_def started_def)

lemma strings_valid_reach: "typed_reach ops s s' \<Longrightarrow> strings_valid s \<Longrightarrow> strings_valid s'"
  by (induction rule: rtranclp_induct) (auto intro: strings_valid_step)

subsection \<open>The bytes written\<close>

lemma format_record_utf8:
  assumes "entry_valid e"
  shows "\<exists>line. valid_str line \<and> format_record e il [] = utf8 line @ [10]"
proof -
  have "valid_str (display_timestamp (le_timestamp e))" "valid_str (level_as_str (le_level e))"
    by (simp_all add: plain_valid)
  moreover have "valid_str (fmt_nat (unat (le_line e)))"
    by (simp add: plain_valid)
  moreover define line where "line = display_timestamp (le_timestamp e) @ lit '' ['' @ level_as_str (le_level e) @ lit ''] '' @
      le_message e @ (if il \<and> location e \<noteq> [] then lit '' ('' @ location e @ lit '')'' else [])"
  ultimately have "valid_str line"
    using assms by (simp add: entry_valid_def location_def scalar_ascii)
  moreover have "format_record e il [] = utf8 line @ [10]"
    by (simp add: format_record_def line_def Let_def del: utf8_simps lit_simps)
  ultimately show ?thesis by blast
qed

lemma format_entry_utf8:
  assumes "entry_valid e"
  shows "\<exists>line. valid_str line \<and> format_entry il json e = utf8 line @ [10]"
proof (cases json)
  case True
  have "utf8 [c_newline] = [10]" by (simp add: utf8_char_ascii)
  then have "write_record e il [] = utf8 (object_text (record_members e il)) @ [10]" by (simp add: write_record_text)
  then show ?thesis using True object_text_valid [OF assms] by (auto simp: format_entry_def)
next
  case False
  then show ?thesis using format_record_utf8 [OF assms] by (simp add: format_entry_def)
qed

subsection \<open>Properties\<close>

lemma typed_reach_lreach: "typed_reach ops s s' \<Longrightarrow> lreach ops s s'"
  by (rule rtranclp_mono [THEN predicate2D]) auto

text \<open>Claim C19: typing. If the strings callers pass in (records and context fields) are valid, then in
  every reachable state those of every record are: in calls, in the queue, in the hands of the writer
  and among the handled ones. Whatever is written for an admitted record, as text or as JSON, with its location
  or without, is the UTF-8 of a valid string and a newline.\<close>

theorem strings_stay_valid:
  assumes "ctx_valid ctx" "typed_reach ops (started i il cap slots ctx w) s"
  shows "(\<forall>t. caller_valid (pr_calls s t)) \<and>
    list_all entry_valid (records_of (pr_handled s @ busy (pr_writer s) @ ch_queue (pr_chan s) @ pr_discarded s)) \<and>
    list_all (\<lambda>(t, e). entry_valid e \<and> (\<forall>loc json. \<exists>line. valid_str line \<and>
      format_entry loc json e = utf8 line @ [10])) (pr_admitted s)"
proof -
  have valid: "strings_valid s" by (rule strings_valid_reach [OF assms(2) strings_valid_started [OF assms(1)]])
  have "pr_sent s = pr_handled s @ busy (pr_writer s) @ ch_queue (pr_chan s) @ pr_discarded s"
    using queue_inv_reach [OF typed_reach_lreach [OF assms(2)]]
    by (auto simp: queue_inv_def mpsc.accounts_def split: if_splits)
  then show ?thesis
    using valid format_entry_utf8 by (auto simp: strings_valid_def list_all_iff)
qed

theorem strings_stay_valid_witness:
  "\<exists>s e. typed_reach quiet_ops (started quiet_inner True 2 [] ctx_init quiet_world) s \<and> pr_admitted s = [(1, e)] \<and>
    le_message e = lit ''hi'' \<and> (\<exists>line. valid_str line \<and> format_entry True True e = utf8 line @ [10])"
proof -
  define s0 where "s0 = (started quiet_inner True 2 [] ctx_init quiet_world :: unit process)"
  define s1 where "s1 = set_call 1 (Stamping plain_example) s0"
  define s2 where "s2 = log_stamp 1 plain_example s1"
  have ex: "entry_valid plain_example" by (simp add: entry_valid_def plain_example_def scalar_def)
  have ctx: "ctx_valid ctx_init" by (simp add: ctx_valid_def ctx_init_def)
  have "log_enter 1 plain_example s0 = s1"
    using quiet_inner_enabled by (simp add: log_enter_def s0_def s1_def started_def quiet_inner_def)
  then have step1: "lstep quiet_ops s0 s1"
    using lstep.log [of s0 1 quiet_ops plain_example] by (simp add: s0_def started_def)
  have step2: "lstep quiet_ops s1 s2"
    by (rule lstep.call [of 1]) (simp add: call_step_def s1_def s2_def set_call_def)
  have "pr_ctx s1 = ctx_init" "pr_ctx s2 = ctx_init" "pr_calls s1 = (\<lambda>_. Idle)(1 := Stamping plain_example)"
    by (simp_all add: s1_def s2_def s0_def started_def set_call_def log_stamp_def Let_def system_now_def)
  then have "inputs_valid s1" "inputs_valid s2"
    using ex ctx by (auto simp: inputs_valid_def s2_def)
  then have reach: "typed_reach quiet_ops s0 s2"
    by (intro converse_rtranclp_into_rtranclp [of _ s0 s1] r_into_rtranclp conjI step1 step2)
  have adm: "pr_admitted s2 = [(1, stamped 1 plain_example s1)]"
    by (simp add: s2_def s1_def s0_def started_def set_call_def)
  have "le_message (stamped 1 plain_example s1) = lit ''hi''"
    by (simp add: stamped_def merge_context_def plain_example_def)
  moreover have "\<exists>line. valid_str line \<and> format_entry True True (stamped 1 plain_example s1) = utf8 line @ [10]"
    using strings_stay_valid [OF ctx reach [unfolded s0_def]] adm by simp
  ultimately show ?thesis using reach adm unfolding s0_def by blast
qed

end
