(* ===== verification/Xos_Pipeline.thy ===== *)
theory Xos_Pipeline
  imports Xos_Builder Xos_Validity
begin

section \<open>From a caller to a reader of the log\<close>

text \<open>
  The parts put together: builder, callers, queue, writer, JSON formatter, file sink and, at the other
  end, a program that reads the log files back.
\<close>

subsection \<open>Reading a file of JSON lines\<close>

definition read_log :: "bytes \<Rightarrow> (rstr \<times> json) list list option" where
  "read_log bs = read_stream (from_utf8_lossy bs)"

lemma concat_json_lines:
  "concat (map (format_entry il True) es) = foldl (\<lambda>out e. write_record e il out) [] es"
proof -
  have "foldl (\<lambda>out e. write_record e il out) out es = out @ concat (map (format_entry il True) es)" for out
  proof (induction es arbitrary: out)
    case (Cons e es)
    have "write_record e il out = out @ write_record e il []"
      using write_record_text [of e il out] write_record_text [of e il "[]"] by simp
    with Cons show ?case by (simp add: format_entry_def)
  qed simp
  from this [of "[]"] show ?thesis by simp
qed

lemma read_log_lines:
  assumes "list_all entry_valid es"
  shows "read_log (concat (map (format_entry il True) es)) = Some (map (\<lambda>e. record_members e il) es)"
  unfolding read_log_def concat_json_lines by (rule read_json_lines [OF assms])

text \<open>A partition of the formatted records is one of the records.\<close>

lemma concat_map_split:
  "concat gens = map f es \<Longrightarrow> \<exists>egens. gens = map (map f) egens \<and> concat egens = es"
proof (induction gens arbitrary: es)
  case (Cons g gens)
  have "g = map f (take (length g) es)" "concat gens = map f (drop (length g) es)"
    using Cons.prems append_eq_conv_conj [of g "concat gens" "map f es"] by (simp_all add: take_map drop_map)
  moreover from Cons.IH [OF this(2)] obtain egens where "gens = map (map f) egens" "concat egens = drop (length g) es"
    by blast
  ultimately have "g # gens = map (map f) (take (length g) es # egens)" "concat (take (length g) es # egens) = es"
    by simp_all
  then show ?case by (intro exI [of _ "take (length g) es # egens"] conjI)
qed simp

subsection \<open>Properties\<close>

text \<open>Claim C1: a logger in JSON mode over a rotating file on a new path, used by any number of threads, while
  no call fails. As soon as a flush or shutdown is acknowledged, take the stream of all records sent before the
  request, in the order sent, followed by some sent later. It is cut into generations, and a program that
  decodes and parses the files finds in them the objects of exactly the last \<open>max_backups + 1\<close> of these, the last
  in the active file and the \<open>k\<close>-th before it in backup \<open>k\<close>, each record with its time stamp, level, message,
  location and all its fields (its own and those of the context of its thread). Older generations are deleted, but
  never too early: each is within the size limit, or a single record, and the next one is begun only by a record
  that does not fit behind it, or after the clock was read in a later slot of the interval than it was begun in.\<close>

theorem flushed_json_log_reads_back:
  assumes "calm w" "\<forall>k \<le> mb. w_dir w (gen_path p k) = None"
    "to_file_with_interval p ms mb iv b w = (Inr b', w1)" "build b' env ctx w1 = (Inr s0, w2)" "b_json b"
    "lreach ops s0 s" "list_all entry_valid (records_of (pr_sent s))"
    "length (concat (map (format_entry (b_include_location b) True) (records_of (pr_sent s)))) < 2 ^ 64"
    "a \<in> set (pr_acked s)" "pr_sent s = pre @ msg # post" "ack_of msg = Some a"
  shows "\<exists>fs gens later rest. pr_slots s = [slot_new (FileSink fs) Trace] \<and> post = later @ rest \<and>
    concat gens = records_of pre @ records_of later \<and>
    (\<forall>k \<le> mb. map_option read_log (generation fs (pr_world s) k) =
      (if k < length gens
       then Some (Some (map (\<lambda>e. record_members e (b_include_location b)) (gens ! (length gens - Suc k)))) else None)) \<and>
    gens_bounded ms (map (map (format_entry (b_include_location b) True)) gens) \<and>
    (\<exists>ks. gens_due iv ms (w_clock w) ks (map (map (format_entry (b_include_location b) True)) gens)) \<and>
    (iv = Never \<longrightarrow> gens_tight ms (map (map (format_entry (b_include_location b) True)) gens))"
proof -
  let ?il = "b_include_location b"
  obtain f where f: "file_history f w2 [[]]" "fs_max_size f = ms" "fs_max_backups f = mb"
    and conf: "w_clock w2 = w_clock w" "fs_interval f = iv" "fs_clock f = System"
    and s0: "s0 = started (build_inner env b) (b_include_location b) (b_capacity b) [slot_new (FileSink f) Trace] ctx w2"
    by (rule file_logger_built [OF assms(1-4)])
  have json: "in_json (build_inner env b)" using assms(5) by (simp add: build_inner_def)
  have len: "length (concat (file_records ?il (in_json (build_inner env b)) Trace (pr_sent s))) < 2 ^ 64"
    using assms(8) json by (simp only: file_records_all)
  obtain fs gens later rest where 1: "pr_slots s = [slot_new (FileSink fs) Trace]" "post = later @ rest"
      "concat gens = map (format_entry ?il True) (records_of pre @ records_of later)"
      "holds_history fs (pr_world s) mb gens" "gens_bounded ms gens" "\<exists>ks. gens_due iv ms (w_clock w) ks gens"
    using acknowledged_in_files [OF f assms(6) [unfolded s0] len assms(9-11)]
    unfolding file_records_all conf clock_reading_System json [THEN eqTrueI] map_append by blast
  obtain egens where 2: "gens = map (map (format_entry ?il True)) egens" "concat egens = records_of pre @ records_of later"
    using concat_map_split [OF 1(3)] by blast
  have valid: "list_all entry_valid g" if "g \<in> set egens" for g
  proof -
    have "set g \<subseteq> set (records_of (pr_sent s))"
      using that arg_cong [OF 2(2), of set] assms(10) 1(2) by (cases msg) auto
    then show ?thesis using assms(7) by (auto simp: list_all_iff)
  qed
  have "map_option read_log (generation fs (pr_world s) k) =
      (if k < length egens then Some (Some (map (\<lambda>e. record_members e ?il) (egens ! (length egens - Suc k)))) else None)"
    if "k \<le> mb" for k
    using 1(4) that valid [of "egens ! (length egens - Suc k)"]
    by (simp add: holds_history_def 2(1) read_log_lines)
  with 1(1,2,5,6) 2 gens_due_tight show ?thesis by blast
qed

text \<open>The example run of the logger over a file, in JSON mode.\<close>

definition json_inner :: inner where
  "json_inner = quiet_inner\<lparr>in_json := True\<rparr>"

lemma example_object_short:
  "(\<forall>c \<in> set (object_text (record_members example_record True)). c < 128) \<and>
   length (object_text (record_members example_record True)) < 1000"
  by (simp add: record_members_def example_record_def plain_example_def display_epoch level_as_str_def object_text_def
      json_of_def string_text_plain plain_def more_text_def member_text_def json_text_def fmt_nat_small)

lemma example_json_short: "length (format_entry True True example_record) < 2 ^ 64"
proof -
  have "\<forall>c \<in> set (object_text (record_members example_record True) @ [c_newline]). c < 128"
    using example_object_short by auto
  from utf8_ascii [OF this] show ?thesis
    using example_object_short by (simp add: format_entry_def write_record_text del: utf8_simps)
qed

theorem flushed_json_log_reads_back_witness:
  "\<exists>b' w1 s0 w2 s fs gens.
    to_file_with_interval (lit ''app.log'') 0 3 Daily (set_json builder_new) quiet_world = (Inr b', w1) \<and>
    build b' Map.empty ctx_init w1 = (Inr s0, w2) \<and> lreach quiet_ops s0 s \<and> pr_acked s = [0] \<and>
    pr_slots s = [slot_new (FileSink fs) Trace] \<and> concat gens = [example_record] \<and>
    map_option read_log (generation fs (pr_world s) 0) =
      (if 0 < length gens then Some (Some (map (\<lambda>e. record_members e True) (gens ! (length gens - 1)))) else None)"
proof -
  let ?p = "lit ''app.log''"
  have calm: "calm quiet_world" "\<forall>k \<le> 3. w_dir quiet_world (gen_path ?p k) = None"
    by (simp_all add: calm_def quiet_world_def)
  obtain f0 w0 where 0: "open_with ?p 0 3 Daily System quiet_world = (Inr f0, w0)" "gens_inv f0 w0 [[]]"
      "fs_path f0 = ?p" "fs_max_backups f0 = 3"
    using open_with_fresh [OF calm] by metis
  define b0 :: "unit builder" where "b0 = set_json builder_new"
  define b' where "b' = set_single_sink (File ?p 0 3 Daily) b0"
  have to: "to_file_with_interval ?p 0 3 Daily b0 quiet_world = (Inr b', w0)"
    by (simp add: to_file_with_interval_def open_with_interval_def 0(1) b'_def del: lit_simps)
  obtain f w' where 1: "open_with ?p 0 3 Daily System w0 = (Inr f, w')" "gens_inv f w' [[]]"
    using open_with_reopen [OF 0(2), of 0 Daily System] 0(3,4) by metis
  have "fst (thread_spawn w') = Inr ()"
    using syscall_calm [of w'] 1(2) by (simp add: thread_spawn_def gens_inv_def)
  then obtain s0 w2 where bl: "build b' Map.empty ctx_init w0 = (Inr s0, w2)"
    by (cases "thread_spawn w'") (simp add: build_def b'_def set_single_sink_def open_source_def
        open_with_interval_def 1(1) del: lit_simps)
  obtain g where g: "file_history g w2 [[]]" "w_clock w2 = w_clock quiet_world"
    and s0: "s0 = started (build_inner Map.empty b0) (b_include_location b0)
        (b_capacity b0) [slot_new (FileSink g) Trace] ctx_init w2"
    by (rule file_logger_built [OF calm to bl])
  have conf: "build_inner Map.empty b0 = json_inner" "b_include_location b0" "b_json b0" "b_capacity b0 = 8192"
    by (simp_all add: b0_def set_json_def build_inner_def builder_new_def builder_default_def quiet_inner_def
        json_inner_def choose_filter_def from_env_def from_env_name_def DEFAULT_CHANNEL_CAPACITY_def)
  have rec: "first_record json_inner 1 plain_example ctx_init w2 = example_record"
    using first_example [of w2] g(2) by (simp add: first_record_def json_inner_def quiet_world_def)
  have fresh: "fresh_inner json_inner" "is_enabled_for json_inner (le_level plain_example) (le_target plain_example)"
    using quiet_inner_fresh quiet_inner_enabled by (simp_all add: json_inner_def fresh_inner_def is_enabled_for_def)
  have len: "length (concat (concat [[]])) + length (format_entry True (in_json json_inner)
      (first_record json_inner 1 plain_example ctx_init w2)) < 2 ^ 64"
    using example_json_short unfolding rec by (simp add: json_inner_def)
  obtain s where s: "lreach quiet_ops s0 s" "pr_acked s = [0]" "pr_sent s = [MLog example_record, MFlush 0]"
    by (rule flushing_acked [OF fresh(1) _ fresh(2) g(1) len, where cap = 8192 and ops = quiet_ops and l = Trace])
      (auto simp: s0 conf rec [simplified] file_slot_def)
  have valid: "list_all entry_valid (records_of (pr_sent s))"
    by (simp add: s(3) entry_valid_def example_record_def plain_example_def scalar_def)
  have "length (concat (map (format_entry (b_include_location b0) True) (records_of (pr_sent s)))) < 2 ^ 64"
    using example_json_short by (simp add: s(3) conf)
  from flushed_json_log_reads_back [OF calm to bl conf(3) s(1) valid this, of 0 "[MLog example_record]" "MFlush 0" "[]"]
  obtain fs gens where "pr_slots s = [slot_new (FileSink fs) Trace]" "concat gens = [example_record]"
    "map_option read_log (generation fs (pr_world s) 0) =
      (if 0 < length gens then Some (Some (map (\<lambda>e. record_members e True) (gens ! (length gens - 1)))) else None)"
    using s(2,3) by (auto simp: conf)
  with to bl s(1,2) show ?thesis unfolding b0_def by blast
qed

end
