(* ===== verification/Xos_Shutdown.thy ===== *)
theory Xos_Shutdown
  imports Xos_Guarantees
begin

section \<open>How the writer thread ends\<close>

text \<open>
  Two ends of the life of a logger: when the last clone is dropped the writer handles what is queued
  and stops after a bounded number of its own steps; and when the flush of a sink unwinds, a call of
  \<open>shutdown\<close> never returns.
\<close>

lemma call_step_others:
  assumes "call_step t s = Some s'"
  shows "u \<noteq> t \<Longrightarrow> pr_calls s' u = pr_calls s u" "pr_clones s' = pr_clones s" "pr_calls s t \<noteq> Idle"
    "pr_writer s' = pr_writer s" "pr_slots s' = pr_slots s" "pr_discarded s' = pr_discarded s"
  using assms by (cases rule: call_step_cases; simp add: call_defs)+

text \<open>A thread in a call holds a clone.\<close>

definition clone_inv :: "'c process \<Rightarrow> bool" where
  "clone_inv s \<longleftrightarrow> (\<forall>t. pr_calls s t \<noteq> Idle \<longrightarrow> pr_clones s)"

lemma writer_moves_clones:
  assumes "writer_moves ops s s'"
  shows "pr_clones s' = pr_clones s"
  using assms
  by (cases rule: writer_moves_cases)
    (simp_all add: writer_wait_def writer_handle_def writer_exit_def split: prod.split)

lemma clone_inv_step: "lstep ops s s' \<Longrightarrow> clone_inv s \<Longrightarrow> clone_inv s'"
proof (induction rule: lstep.induct)
  case (log s t e)
  then show ?case using log_enter_cases [of t e s] by (auto simp: clone_inv_def call_defs)
next
  case (call t s s')
  then show ?case using call_step_others [OF call(1)] by (auto simp: clone_inv_def)
next
  case (writer s s')
  then show ?case using writer_moves_clones [OF writer(1)] writer_moves_frame(1) [OF writer(1)] by (simp add: clone_inv_def)
qed (auto simp: clone_inv_def flush_enter_def shutdown_enter_def fresh_ack_def call_defs)

lemma clone_inv_started: "clone_inv (started i il cap slots ctx w)"
  by (simp add: clone_inv_def started_def)

lemma clone_inv_reach: "lreach ops (started i il cap slots ctx w) s \<Longrightarrow> clone_inv s"
  by (induction rule: rtranclp_induct) (auto intro: clone_inv_step clone_inv_started)

subsection \<open>The last clone is dropped\<close>

text \<open>Unless it has handled a request to shut down the writer ends only when there is nothing left.\<close>

definition drain_inv :: "'c process \<Rightarrow> bool" where
  "drain_inv s \<longleftrightarrow> (ends (pr_writer s) \<longrightarrow> (\<exists>a. MShutdown a \<in> set (pr_handled s)) \<or>
     \<not> pr_clones s \<and> ch_queue (pr_chan s) = [] \<and> pr_discarded s = [])"

lemma drain_inv_started: "drain_inv (started i il cap slots ctx w)"
  by (simp add: drain_inv_def started_def ends_def)

lemma drain_inv_writer:
  assumes "writer_moves ops s s'" "queue_inv s" "drain_inv s"
  shows "drain_inv s'"
  using assms(1)
proof (cases rule: writer_moves_cases)
  case (recv msg c)
  then show ?thesis by (simp add: drain_inv_def ends_def)
next
  case disconnect
  then have "pr_discarded s = []" using assms(2) by (simp add: queue_inv_def split: if_splits)
  with disconnect show ?thesis by (simp add: drain_inv_def)
next
  case (handle msg)
  obtain stop slots acks w where
    1: "writer_step ops (pr_location s) (pr_json s) msg (pr_slots s) (pr_world s) = (stop, slots, acks, w)" and
    2: "writer_handle ops msg s = s\<lparr>pr_slots := slots, pr_world := w, pr_acked := pr_acked s @ acks,
       pr_handled := pr_handled s @ [msg], pr_writer := (if stop then WStopping else WIdle)\<rparr>"
    by (rule writer_handle_cases)
  show ?thesis using assms(3) handle(1) writer_step_effect(1) [OF 1] by (auto simp: handle(2) 2 drain_inv_def ends_def)
next
  case exit
  show ?thesis
    by (rule writer_exit_cases [of ops s]) (use exit assms(3) in \<open>auto simp: drain_inv_def ends_def\<close>)
qed (use assms(3) in \<open>simp add: writer_wait_def drain_inv_def\<close>)

lemma drain_inv_send:
  "drain_inv s \<Longrightarrow> pr_clones s \<Longrightarrow> pr_clones s' \<Longrightarrow> pr_writer s' = pr_writer s \<Longrightarrow>
   pr_handled s' = pr_handled s \<Longrightarrow> drain_inv s'"
  by (auto simp: drain_inv_def)

lemma drain_inv_step: "lstep ops s s' \<Longrightarrow> clone_inv s \<Longrightarrow> queue_inv s \<Longrightarrow> drain_inv s \<Longrightarrow> drain_inv s'"
proof (induction rule: lstep.induct)
  case (call t s s')
  have "pr_handled s' = pr_handled s"
    using call(1) by (cases rule: call_step_cases) (auto simp: call_defs)
  moreover have "pr_clones s" using call_step_others(3) [OF call(1)] call(2) by (auto simp: clone_inv_def)
  ultimately show ?case using call_step_others(2,4) [OF call(1)] by (intro drain_inv_send [OF call(4)]) auto
next
  case (writer s s')
  then show ?case by (blast intro: drain_inv_writer)
qed (auto simp: drain_inv_def flush_enter_def shutdown_enter_def fresh_ack_def log_enter_def call_defs)

lemma drain_inv_reach: "lreach ops (started i il cap slots ctx w) s \<Longrightarrow> drain_inv s"
proof (induction rule: rtranclp_induct)
  case (step s s')
  then show ?case using drain_inv_step clone_inv_reach queue_inv_reach by blast
qed (rule drain_inv_started)

text \<open>The writer alone, a number of steps.\<close>

fun writer_run :: "'c sink_ops \<Rightarrow> nat \<Rightarrow> 'c process \<Rightarrow> 'c process option" where
  "writer_run ops 0 s = Some s"
| "writer_run ops (Suc n) s = (case writer_next ops s of None \<Rightarrow> None | Some s' \<Rightarrow> writer_run ops n s')"

lemma writer_run_wreach: "writer_run ops n s = Some s' \<Longrightarrow> wreach ops s s'"
proof (induction n arbitrary: s)
  case (Suc n)
  then show ?case by (auto split: option.splits intro: converse_rtranclp_into_rtranclp writer_moves.work)
qed simp

lemma writer_run_ends:
  "\<not> pr_clones s \<Longrightarrow> \<exists>n s'. n \<le> 2 * length (ch_queue (pr_chan s)) + length (busy (pr_writer s)) + 2 \<and>
     writer_run ops n s = Some s' \<and> pr_writer s' = WStopped"
proof (induction "2 * length (ch_queue (pr_chan s)) + length (busy (pr_writer s))" arbitrary: s rule: less_induct)
  case less
  have stop: "writer_run ops 1 s = Some (writer_exit ops s)" if "pr_writer s = WStopping" for s
    using that by (simp add: writer_next_def)
  have further: ?case if "writer_next ops s = Some s1" "\<not> pr_clones s1"
      "2 * length (ch_queue (pr_chan s1)) + length (busy (pr_writer s1)) <
       2 * length (ch_queue (pr_chan s)) + length (busy (pr_writer s))" for s1
  proof -
    note h = that
    obtain n s' where "n \<le> 2 * length (ch_queue (pr_chan s1)) + length (busy (pr_writer s1)) + 2"
        "writer_run ops n s1 = Some s'" "pr_writer s' = WStopped"
      using less.hyps [OF h(3,2)] by blast
    with h show ?thesis by (intro exI [of _ "Suc n"] exI [of _ s']) simp
  qed
  show ?case
  proof (cases "pr_writer s")
    case WIdle
    show ?thesis
    proof (cases "ch_queue (pr_chan s)")
      case Nil
      let ?s = "s\<lparr>pr_writer := WStopping\<rparr>"
      have "writer_next ops s = Some ?s"
        using WIdle Nil less.prems by (simp add: writer_next_def writer_recv_def chan_recv_def)
      then have "writer_run ops 2 s = Some (writer_exit ops ?s)"
        using stop [of ?s] by (simp add: numeral_2_eq_2)
      then show ?thesis using exit_stops [of ops ?s] by (intro exI [of _ 2] exI [of _ "writer_exit ops ?s"]) simp
    next
      case (Cons msg q)
      then show ?thesis
        using WIdle less.prems
        by (intro further [of "s\<lparr>pr_chan := (pr_chan s)\<lparr>ch_queue := q, ch_waiting := False\<rparr>, pr_writer := WBusy msg\<rparr>"])
          (auto simp: writer_next_def writer_recv_def chan_recv_def)
    qed
  next
    case (WBusy msg)
    let ?s = "writer_handle ops msg s"
    obtain st where "pr_chan ?s = pr_chan s" "pr_writer ?s = (if st then WStopping else WIdle)" "pr_clones ?s = pr_clones s"
      by (rule writer_handle_cases [of ops s msg]) simp
    then show ?thesis using WBusy less.prems by (intro further [of ?s]) (auto simp: writer_next_def)
  next
    case WStopping
    then show ?thesis
      using stop exit_stops [of ops s] by (intro exI [of _ 1] exI [of _ "writer_exit ops s"]) simp
  next
    case WStopped
    then show ?thesis by (intro exI [of _ 0] exI [of _ s]) simp
  qed
qed

text \<open>Claim C31: after the last clone of the logger is dropped (and no shutdown was requested) the
  writer thread ends: within two of its own steps per queued message and three more, whatever the
  sinks do, having handled every message that was ever sent and discarded none.\<close>

theorem dropping_last_clone_drains:
  assumes "lreach ops (started i il cap slots ctx w) s" "\<not> pr_clones s" "\<forall>a. MShutdown a \<notin> set (pr_sent s)"
  shows "\<exists>n s'. n \<le> 2 * length (ch_queue (pr_chan s)) + 3 \<and> writer_run ops n s = Some s' \<and>
    pr_writer s' = WStopped \<and> pr_handled s' = pr_sent s \<and> pr_discarded s' = []"
proof -
  obtain n s' where n: "n \<le> 2 * length (ch_queue (pr_chan s)) + length (busy (pr_writer s)) + 2"
      "writer_run ops n s = Some s'" "pr_writer s' = WStopped"
    using writer_run_ends [OF assms(2)] by blast
  have reach: "lreach ops (started i il cap slots ctx w) s'"
    using assms(1) wreach_lreach [OF writer_run_wreach [OF n(2)]] by (rule rtranclp_trans)
  have "pr_sent s' = pr_sent s" using wreach_frame [OF writer_run_wreach [OF n(2)]] by simp
  then have sent: "pr_sent s = pr_handled s' @ pr_discarded s'"
    using queue_inv_reach [OF reach] n(3) by (simp add: queue_inv_def split: if_splits)
  then have "\<forall>a. MShutdown a \<notin> set (pr_handled s')" using assms(3) by simp
  then have "pr_discarded s' = []" using drain_inv_reach [OF reach] n(3) by (simp add: drain_inv_def ends_def)
  with sent have "pr_handled s' = pr_sent s" "pr_discarded s' = []" by simp_all
  moreover have "length (busy (pr_writer s)) \<le> 1" by (cases "pr_writer s") simp_all
  ultimately show ?thesis using n by (intro exI [of _ n] exI [of _ s']) simp
qed

theorem dropping_last_clone_drains_witness:
  "\<exists>s n s' r. lreach quiet_ops (started quiet_inner True 2 [] ctx_init quiet_world) s \<and> ch_queue (pr_chan s) = [MLog r] \<and>
    n \<le> 5 \<and> writer_run quiet_ops n s = Some s' \<and> pr_writer s' = WStopped \<and> pr_handled s' = [MLog r]"
proof -
  let ?init = "started quiet_inner True 2 [] ctx_init quiet_world :: unit process"
  let ?r = "first_record quiet_inner 1 plain_example ctx_init quiet_world"
  obtain s where s: "acts_run quiet_ops [ALog 1 plain_example, ACall 1, ACall 1, ACall 1] ?init = Some s"
      "pr_calls s = (\<lambda>_. Idle)" "ch_queue (pr_chan s) = [MLog ?r]" "pr_sent s = [MLog ?r]"
    using quiet_inner_fresh quiet_inner_enabled by (simp add: act_defs Let_def fun_eq_iff)
  let ?s = "s\<lparr>pr_clones := False\<rparr>"
  have "lstep quiet_ops s ?s" using s(2) by (intro lstep.last_drop) simp
  then have reach: "lreach quiet_ops ?init ?s"
    using rtranclp.rtrancl_into_rtrancl [OF acts_run_lreach [OF s(1)]] by blast
  obtain n s' where "n \<le> 5" "writer_run quiet_ops n ?s = Some s'" "pr_writer s' = WStopped" "pr_handled s' = [MLog ?r]"
    using dropping_last_clone_drains [OF reach] s(3,4) by auto
  with reach s(3) show ?thesis by (intro exI [of _ ?s]) auto
qed

subsection \<open>A shutdown that never returns\<close>

text \<open>A caller's sink whose flush unwinds stays among the slots, and every flush of the slots unwinds.\<close>

definition unwinds :: "'c sink_ops \<Rightarrow> bool" where
  "unwinds ops \<longleftrightarrow> (\<forall>c w. fst (op_flush ops c w) = Panicked)"

definition is_custom :: "'c sink_slot \<Rightarrow> bool" where
  "is_custom slot \<longleftrightarrow> (\<exists>c. slot_sink slot = CustomSink c)"

lemma is_custom_degraded [simp]: "is_custom (degraded_update f slot) = is_custom slot"
  by (simp add: is_custom_def)

lemma sink_flush_custom:
  "sink_flush ops s w = (r, s', w') \<Longrightarrow> (\<exists>c. s' = CustomSink c) \<longleftrightarrow> (\<exists>c. s = CustomSink c)"
  by (cases s) (auto simp: sink_flush_def wrap_sink_def split: prod.splits)

lemma sink_write_custom:
  "sink_write_entry ops e bs s w = (r, s', w') \<Longrightarrow> (\<exists>c. s' = CustomSink c) \<longleftrightarrow> (\<exists>c. s = CustomSink c)"
  by (cases s) (auto simp: sink_write_entry_def wrap_sink_def split: prod.splits)

lemma slot_write_custom: "is_custom (fst (slot_write ops e buf slot w)) \<longleftrightarrow> is_custom slot"
  by (cases "sink_write_entry ops e buf (slot_sink slot) w")
    (auto simp: slot_write_def is_custom_def Let_def dest: sink_write_custom split: outcome.split sum.split)

lemma slots_write_custom: "map is_custom (fst (slots_write ops e buf slots w)) = map is_custom slots"
proof (induction slots arbitrary: w)
  case (Cons slot slots)
  obtain slot1 w1 where 1: "slot_write ops e buf slot w = (slot1, w1)" by (cases "slot_write ops e buf slot w")
  obtain slots2 w2 where 2: "slots_write ops e buf slots w1 = (slots2, w2)" by (cases "slots_write ops e buf slots w1")
  show ?case using slot_write_custom [of ops e buf slot w] Cons.IH [of w1] 1 2 by simp
qed simp

lemma slots_flush_custom: "slots_flush ops slots w = (r, slots', w') \<Longrightarrow> map is_custom slots' = map is_custom slots"
proof (induction slots arbitrary: w r slots' w')
  case (Cons slot slots)
  obtain r1 s1 w1 where 1: "sink_flush ops (slot_sink slot) w = (r1, s1, w1)"
    by (cases "sink_flush ops (slot_sink slot) w")
  have c: "is_custom (slot\<lparr>slot_sink := s1\<rparr>) = is_custom slot" using sink_flush_custom [OF 1] by (simp add: is_custom_def)
  obtain r2 slots2 w2 where 2: "slots_flush ops slots w1 = (r2, slots2, w2)" by (cases "slots_flush ops slots w1")
  show ?case using Cons.prems 1 2 c Cons.IH [OF 2] by (cases r1) auto
qed simp

lemma slots_flush_unwinds:
  assumes "unwinds ops"
  shows "\<exists>slot \<in> set slots. is_custom slot \<Longrightarrow> fst (slots_flush ops slots w) = Panicked"
proof (induction slots arbitrary: w)
  case (Cons slot slots)
  obtain r s w1 where 1: "sink_flush ops (slot_sink slot) w = (r, s, w1)" by (cases "sink_flush ops (slot_sink slot) w")
  show ?case
  proof (cases r)
    case Panicked
    with 1 show ?thesis by simp
  next
    case (Done x)
    have "\<not> is_custom slot"
    proof
      assume "is_custom slot"
      then obtain c where "slot_sink slot = CustomSink c" by (auto simp: is_custom_def)
      then have "r = fst (op_flush ops c w)" using arg_cong [OF 1, of fst] by (simp add: sink_flush_def)
      with Done assms show False by (simp add: unwinds_def)
    qed
    with Cons have "fst (slots_flush ops slots w1) = Panicked" by auto
    with 1 Done show ?thesis by (cases "slots_flush ops slots w1") simp
  qed
qed simp

lemma customs_iff: "(\<exists>slot \<in> set slots. is_custom slot) \<longleftrightarrow> True \<in> set (map is_custom slots)"
  by auto

lemma writer_step_unwinds:
  assumes "unwinds ops" "\<exists>slot \<in> set slots. is_custom slot"
    "writer_step ops il json msg slots w = (stop, slots', acks, w')"
  shows "\<not> stop" "\<exists>slot \<in> set slots'. is_custom slot"
proof -
  obtain r slots1 w1 where fl: "slots_flush ops slots w = (r, slots1, w1)" by (cases "slots_flush ops slots w")
  then have r: "r = Panicked" using slots_flush_unwinds [OF assms(1,2), of w] by simp
  have "\<not> stop \<and> map is_custom slots' = map is_custom slots"
  proof (cases msg)
    case (MLog e)
    let ?buf = "format_entry il json e"
    obtain slots2 w2 where "slots_write ops e ?buf slots w = (slots2, w2)" by (cases "slots_write ops e ?buf slots w")
    with MLog assms(3) slots_write_custom [of ops e ?buf slots w] show ?thesis by (simp add: writer_step_log)
  qed (use assms(3) fl r slots_flush_custom [OF fl] in \<open>auto simp: writer_step_def handle_message_def comp_def\<close>)
  then show "\<not> stop" "\<exists>slot \<in> set slots'. is_custom slot"
    using assms(2) unfolding customs_iff by simp_all
qed

definition hang_inv :: "'c process \<Rightarrow> bool" where
  "hang_inv s \<longleftrightarrow> (\<exists>slot \<in> set (pr_slots s). is_custom slot) \<and> (pr_clones s \<longrightarrow> \<not> ends (pr_writer s))"

lemma hang_inv_writer:
  assumes "writer_moves ops s s'" "unwinds ops" "hang_inv s"
  shows "hang_inv s'"
  using assms(1)
proof (cases rule: writer_moves_cases)
  case (handle msg)
  obtain stop slots acks w where
    1: "writer_step ops (pr_location s) (pr_json s) msg (pr_slots s) (pr_world s) = (stop, slots, acks, w)" and
    2: "writer_handle ops msg s = s\<lparr>pr_slots := slots, pr_world := w, pr_acked := pr_acked s @ acks,
       pr_handled := pr_handled s @ [msg], pr_writer := (if stop then WStopping else WIdle)\<rparr>"
    by (rule writer_handle_cases)
  have "\<exists>slot \<in> set (pr_slots s). is_custom slot" using assms(3) by (simp add: hang_inv_def)
  from writer_step_unwinds [OF assms(2) this 1] show ?thesis by (simp add: handle 2 hang_inv_def ends_def)
next
  case exit
  obtain r slots w where 1: "slots_flush ops (pr_slots s) (pr_world s) = (r, slots, w)" and
    2: "writer_exit ops s = s\<lparr>pr_slots := slots, pr_world := w, pr_discarded := ch_queue (pr_chan s),
       pr_chan := chan_close (pr_chan s), pr_writer := WStopped\<rparr>"
    by (rule writer_exit_cases)
  have "(\<exists>slot \<in> set slots. is_custom slot)" "\<not> pr_clones s"
    using assms(3) slots_flush_custom [OF 1] exit(1) unfolding hang_inv_def customs_iff by (auto simp: ends_def)
  then show ?thesis by (simp add: exit 2 hang_inv_def)
qed (use assms(3) in \<open>simp_all add: writer_wait_def hang_inv_def ends_def\<close>)

lemma hang_inv_step: "lstep ops s s' \<Longrightarrow> unwinds ops \<Longrightarrow> hang_inv s \<Longrightarrow> hang_inv s'"
proof (induction rule: lstep.induct)
  case (call t s s')
  then show ?case using call_step_others(2,4,5) [OF call(1)] by (simp add: hang_inv_def)
next
  case (writer s s')
  then show ?case by (blast intro: hang_inv_writer)
qed (auto simp: hang_inv_def flush_enter_def shutdown_enter_def fresh_ack_def log_enter_def call_defs)

lemma hang_inv_reach:
  "lreach ops (started i il cap slots ctx w) s \<Longrightarrow> unwinds ops \<Longrightarrow> \<exists>slot \<in> set slots. is_custom slot \<Longrightarrow> hang_inv s"
proof (induction rule: rtranclp_induct)
  case base
  then show ?case by (simp add: hang_inv_def started_def ends_def)
next
  case (step s s')
  then show ?case by (blast intro: hang_inv_step)
qed

text \<open>A thread that waits in the join goes on waiting.\<close>

lemma join_wait_step:
  assumes "lstep ops s s'" "pr_calls s t = JoinWait" "hang_inv s" "clone_inv s"
  shows "pr_calls s' t = JoinWait"
  using assms
proof (induction rule: lstep.induct)
  case (call u s s')
  have "\<not> ends (pr_writer s)" using call.prems by (auto simp: hang_inv_def clone_inv_def)
  then have "call_step t s = None" using call.prems(1) by (simp add: call_step_def join_return_def ends_def)
  with call.hyps call_step_others(1) [OF call.hyps, of t] call.prems(1) show ?case by force
next
  case (writer s s')
  then show ?case using writer_moves_frame(1) [OF writer.hyps] by simp
qed (auto simp: flush_enter_def shutdown_enter_def fresh_ack_def log_enter_def call_defs)

text \<open>Claim C30: if the flush of a caller's sink unwinds, \<open>shutdown\<close> never returns: the writer, which
  catches the unwinding, does not stop on the request, and a thread that has come to wait for the end of
  the writer waits in every state that can follow, whatever the other threads do.\<close>

theorem unwinding_flush_hangs_shutdown:
  assumes "unwinds ops" "slot \<in> set slots" "is_custom slot" "lreach ops (started i il cap slots ctx w) s"
    "pr_calls s t = JoinWait" "lreach ops s s'"
  shows "pr_calls s' t = JoinWait \<and> pr_writer s' \<noteq> WStopped"
proof -
  have inv: "hang_inv u \<and> clone_inv u" if "lreach ops s u" for u
    using hang_inv_reach [OF rtranclp_trans [OF assms(4) that] assms(1)] assms(2,3)
      clone_inv_reach [OF rtranclp_trans [OF assms(4) that]] by blast
  have "pr_calls s' t = JoinWait"
    using assms(6) by (induction rule: rtranclp_induct) (use assms(5) inv join_wait_step in blast)+
  with inv [OF assms(6)] show ?thesis by (auto simp: hang_inv_def clone_inv_def ends_def)
qed

lemma panicking_ops_unwind: "unwinds panicking_ops"
  by (simp add: unwinds_def panicking_ops_def)

theorem unwinding_flush_hangs_shutdown_witness:
  "\<exists>s. lreach panicking_ops (started quiet_inner True 2 [slot_new (CustomSink ()) Trace] ctx_init quiet_world) s \<and>
    pr_calls s 2 = JoinWait \<and> pr_handled s = [MShutdown 0] \<and>
    (\<forall>s'. lreach panicking_ops s s' \<longrightarrow> pr_calls s' 2 = JoinWait)"
proof -
  let ?init = "started quiet_inner True 2 [slot_new (CustomSink ()) Trace] ctx_init quiet_world"
  obtain s where s: "acts_run panicking_ops [AShutdown 2, ACall 2, ACall 2, AWriter, AWriter, ACall 2, ACall 2] ?init = Some s"
      "pr_calls s 2 = JoinWait" "pr_handled s = [MShutdown 0]"
    using quiet_inner_fresh
    by (simp add: act_defs Let_def fun_eq_iff writer_handle_def writer_step_def handle_message_def sink_flush_def
        slot_new_def panicking_ops_def wrap_sink_def ack_recv_def ack_arrived_def ack_sender_alive_def join_enter_def)
  have "is_custom (slot_new (CustomSink ()) Trace)" by (simp add: is_custom_def slot_new_def)
  then show ?thesis
    using unwinding_flush_hangs_shutdown [OF panicking_ops_unwind _ _ acts_run_lreach [OF s(1)] s(2)]
      acts_run_lreach [OF s(1)] s(2,3) by (metis list.set_intros(1))
qed

end
