(* ===== verification/Xos_Aftermath.thy ===== *)
theory Xos_Aftermath
  imports Xos_Shutdown
begin

section \<open>After the end of the writer thread (\<open>src/logger.rs\<close>)\<close>

text \<open>
  When a call of \<open>shutdown\<close> returns, and what happens later.
  A thread that passed the check of the closed flag may find the receiver gone when it sends. It then
  writes its record to standard error itself (\<open>emergency_write\<close>); this is the only effect the logger still
  has.
\<close>

subsection \<open>The end of a shutdown\<close>

definition in_shutdown :: "caller \<Rightarrow> bool" where
  "in_shutdown c \<longleftrightarrow> (case c of Locking msg \<Rightarrow> (\<exists>a. msg = MShutdown a) | Sending msg \<Rightarrow> (\<exists>a. msg = MShutdown a)
     | Awaiting msg \<Rightarrow> (\<exists>a. msg = MShutdown a) | Joining \<Rightarrow> True | JoinWait \<Rightarrow> True | _ \<Rightarrow> False)"

lemma in_shutdown_simps [simp]:
  "\<not> in_shutdown Idle" "\<not> in_shutdown (Stamping e)" "in_shutdown (Locking msg) \<longleftrightarrow> (\<exists>a. msg = MShutdown a)"
  "in_shutdown (Sending msg) \<longleftrightarrow> (\<exists>a. msg = MShutdown a)" "in_shutdown (Awaiting msg) \<longleftrightarrow> (\<exists>a. msg = MShutdown a)"
  "in_shutdown Joining" "in_shutdown JoinWait"
  by (simp_all add: in_shutdown_def)

text \<open>The handle is gone only after the thread has ended, and the thread ends only on a request to shut down
  or when there are no clones.\<close>

definition end_inv :: "'c process \<Rightarrow> bool" where
  "end_inv s \<longleftrightarrow> (join_lock (pr_inner s) = HandleGone \<longrightarrow> pr_writer s = WStopped) \<and>
     (ends (pr_writer s) \<longrightarrow> \<not> pr_clones s \<or> (\<exists>pre a. pr_handled s = pre @ [MShutdown a]))"

lemma end_inv_started: "fresh_inner i \<Longrightarrow> end_inv (started i il cap slots ctx w)"
  by (simp add: end_inv_def started_def fresh_inner_def ends_def)

lemma end_inv_call:
  assumes "call_step t s = Some s'" "end_inv s"
  shows "end_inv s'"
  using assms(1) by (cases rule: call_step_cases) (use assms(2) in \<open>auto simp: end_inv_def call_defs\<close>)

lemma end_inv_writer:
  assumes "writer_moves ops s s'" "end_inv s"
  shows "end_inv s'"
  using assms(1)
proof (cases rule: writer_moves_cases)
  case (handle msg)
  obtain stop slots acks w where
    1: "writer_step ops (pr_location s) (pr_json s) msg (pr_slots s) (pr_world s) = (stop, slots, acks, w)" and
    2: "writer_handle ops msg s = s\<lparr>pr_slots := slots, pr_world := w, pr_acked := pr_acked s @ acks,
       pr_handled := pr_handled s @ [msg], pr_writer := (if stop then WStopping else WIdle)\<rparr>"
    by (rule writer_handle_cases)
  show ?thesis
    using assms(2) writer_step_effect(1) [OF 1] handle(1) by (auto simp: handle(2) 2 end_inv_def ends_def)
next
  case exit
  show ?thesis
    by (rule writer_exit_cases [of ops s]) (use exit assms(2) in \<open>auto simp: end_inv_def ends_def\<close>)
qed (use assms(2) in \<open>auto simp: writer_wait_def end_inv_def ends_def\<close>)

lemma end_inv_step: "lstep ops s s' \<Longrightarrow> end_inv s \<Longrightarrow> end_inv s'"
proof (induction rule: lstep.induct)
  case (log s t e)
  then show ?case using log_enter_cases [of t e s] by (auto simp: end_inv_def call_defs)
next
  case (call t s s')
  then show ?case by (blast intro: end_inv_call)
next
  case (writer s s')
  then show ?case by (blast intro: end_inv_writer)
qed (auto simp: end_inv_def flush_enter_def shutdown_enter_def fresh_ack_def call_defs)

lemma end_inv_reach: "lreach ops (started i il cap slots ctx w) s \<Longrightarrow> fresh_inner i \<Longrightarrow> end_inv s"
  by (induction rule: rtranclp_induct) (auto intro: end_inv_started end_inv_step)

text \<open>Which request ends the writer: the requests it went past were not acknowledged, because a flush
  unwound in them; the one it stopped at was.\<close>

definition passed :: "'c process \<Rightarrow> message list" where
  "passed s = (if ends (pr_writer s) then butlast (pr_handled s) else pr_handled s)"

definition request_inv :: "'c sink_ops \<Rightarrow> 'c process \<Rightarrow> bool" where
  "request_inv ops s \<longleftrightarrow>
     (\<forall>a. MShutdown a \<in> set (passed s) \<longrightarrow> a \<notin> set (pr_acked s) \<and> \<not> flush_returns ops) \<and>
     (ends (pr_writer s) \<longrightarrow> \<not> pr_clones s \<or> (\<exists>pre a. pr_handled s = pre @ [MShutdown a] \<and> a \<in> set (pr_acked s)))"

lemma request_inv_started: "request_inv ops (started i il cap slots ctx w)"
  by (simp add: request_inv_def started_def passed_def ends_def)

lemma request_inv_frame:
  "request_inv ops s \<Longrightarrow> pr_writer s' = pr_writer s \<Longrightarrow> pr_handled s' = pr_handled s \<Longrightarrow> pr_acked s' = pr_acked s \<Longrightarrow>
     (pr_clones s' \<longrightarrow> pr_clones s) \<Longrightarrow> request_inv ops s'"
  by (auto simp: request_inv_def passed_def)

lemma writer_step_shutdown:
  "writer_step ops il json (MShutdown a) slots w = (stop, slots', acks, w') \<Longrightarrow> acks = (if stop then [a] else [])"
  by (auto simp: writer_step_def handle_message_def split: prod.splits outcome.splits)

lemma handled_acks_fresh:
  assumes "queue_inv s" "ack_inv s" "pr_writer s = WBusy msg" "ack_of msg = Some b"
  shows "b \<notin> set (acks_of (pr_handled s))"
proof -
  obtain rest where "pr_sent s = pr_handled s @ [msg] @ rest"
    using assms(1,3) by (auto simp: queue_inv_def mpsc.accounts_def split: if_splits)
  then have "distinct (acks_of (pr_handled s) @ acks_of [msg] @ acks_of rest)"
    using assms(2) by (simp add: ack_inv_def acks_of_Cons [of msg rest])
  then show ?thesis using assms(4) by (auto simp: acks_of_one)
qed

lemma request_inv_writer:
  assumes "writer_moves ops s s'" "queue_inv s" "ack_inv s" "request_inv ops s"
  shows "request_inv ops s'"
  using assms(1)
proof (cases rule: writer_moves_cases)
  case (handle msg)
  obtain stop slots acks w where
    1: "writer_step ops (pr_location s) (pr_json s) msg (pr_slots s) (pr_world s) = (stop, slots, acks, w)" and
    2: "writer_handle ops msg s = s\<lparr>pr_slots := slots, pr_world := w, pr_acked := pr_acked s @ acks,
       pr_handled := pr_handled s @ [msg], pr_writer := (if stop then WStopping else WIdle)\<rparr>"
    by (rule writer_handle_cases)
  have old: "a \<notin> set (pr_acked s) \<and> \<not> flush_returns ops" if "MShutdown a \<in> set (pr_handled s)" for a
    using assms(4) that handle(1) by (simp add: request_inv_def passed_def ends_def)
  have new: "a \<notin> set acks" if "MShutdown a \<in> set (pr_handled s)" for a
  proof
    assume "a \<in> set acks"
    then have "ack_of msg = Some a"
      using writer_step_effect(2) [OF 1] by (auto simp: acks_of_one split: option.splits)
    then show False
      using handled_acks_fresh [OF assms(2,3) handle(1)] that in_acks_of [of a "pr_handled s"] by force
  qed
  have this_one: "a \<notin> set (pr_acked s)" if "msg = MShutdown a" for a
    using handled_acks_fresh [OF assms(2,3) handle(1), of a] assms(3) that by (auto simp: ack_inv_def)
  show ?thesis
  proof (cases stop)
    case True
    then obtain a where "msg = MShutdown a" using writer_step_effect(1) [OF 1] by blast
    then show ?thesis
      unfolding handle(2) 2
      using old new True writer_step_shutdown [OF 1 [unfolded \<open>msg = MShutdown a\<close>]]
      by (auto simp: request_inv_def passed_def ends_def)
  next
    case False
    have "acks = [] \<and> \<not> flush_returns ops" if "msg = MShutdown a" for a
      using writer_step_shutdown [OF 1 [unfolded that]] shutdown_stops [OF _ 1 [unfolded that]] False by auto
    then show ?thesis
      unfolding handle(2) 2
      using old new this_one False by (auto simp: request_inv_def passed_def ends_def)
  qed
next
  case disconnect
  then show ?thesis
    using assms(4) by (auto simp: request_inv_def passed_def ends_def dest: in_set_butlastD)
next
  case exit
  show ?thesis
    by (rule writer_exit_cases [of ops s])
      (use exit assms(4) in \<open>simp add: request_inv_def passed_def ends_def\<close>)
qed (use assms(4) in \<open>auto simp: writer_wait_def request_inv_def passed_def ends_def\<close>)

lemma request_inv_step:
  "lstep ops s s' \<Longrightarrow> queue_inv s \<Longrightarrow> ack_inv s \<Longrightarrow> request_inv ops s \<Longrightarrow> request_inv ops s'"
proof (induction rule: lstep.induct)
  case (log s t e)
  then show ?case using log_enter_cases [of t e s] by (auto simp: call_defs intro: request_inv_frame)
next
  case (call t s s')
  show ?case
    using call(1) by (cases rule: call_step_cases) (rule request_inv_frame [OF call(4)]; simp add: call_defs)+
next
  case (writer s s')
  then show ?case by (blast intro: request_inv_writer)
qed (auto simp: flush_enter_def shutdown_enter_def fresh_ack_def call_defs intro: request_inv_frame)

lemma request_inv_reach: "lreach ops (started i il cap slots ctx w) s \<Longrightarrow> request_inv ops s"
proof (induction rule: rtranclp_induct)
  case (step s s')
  then show ?case using request_inv_step queue_inv_reach ack_inv_reach by blast
qed (rule request_inv_started)

text \<open>The step with which the call returns.\<close>

lemma shutdown_return_call:
  assumes "call_step t s = Some s'" "in_shutdown (pr_calls s t)" "pr_calls s' t = Idle" "queue_inv s" "end_inv s"
  shows "pr_writer s = WStopped"
  using assms(1)
proof (cases rule: call_step_cases)
  case (acked msg c)
  then obtain a where "msg = MShutdown a" using assms(2) by auto
  then have "pr_calls s' t = Joining"
    using assms(1) acked(1,2) by (auto simp: call_step_def ack_recv_def set_call_def)
  then show ?thesis using assms(3) by simp
next
  case (unsent msg)
  then show ?thesis using assms(4) by (auto simp: queue_inv_def)
next
  case gone
  then show ?thesis using assms(5) by (simp add: end_inv_def)
qed (use assms(2,3) in \<open>auto simp: call_defs\<close>)

lemma shutdown_return:
  assumes "lstep ops s s'" "in_shutdown (pr_calls s t)" "pr_calls s' t = Idle" "queue_inv s" "end_inv s"
  shows "pr_writer s = WStopped"
  using assms
proof (induction rule: lstep.induct)
  case (log s u e)
  then show ?case using log_enter_cases [of u e s] by (auto simp: call_defs split: if_splits)
next
  case (call u s s')
  show ?case
  proof (cases "u = t")
    case True
    then show ?thesis using shutdown_return_call call by blast
  next
    case False
    then show ?thesis using call_step_others(1) [OF call(1), of t] call(2,3) by auto
  qed
next
  case (writer s s')
  then show ?case using writer_moves_frame(1) [OF writer(1)] by auto
qed (auto simp: flush_enter_def shutdown_enter_def fresh_ack_def call_defs split: if_splits)

subsection \<open>The synchronous write\<close>

definition emergency_text :: "bool \<Rightarrow> log_entry \<Rightarrow> bytes" where
  "emergency_text json e =
     utf8 (lit ''[xoslog] writer thread unavailable, logging synchronously'') @ [10] @ format_entry False json e"

text \<open>Files, standard output and sockets as before, and no call fails.\<close>

definition only_stderr :: "world \<Rightarrow> world \<Rightarrow> bool" where
  "only_stderr w w' \<longleftrightarrow> same_files w w' \<and> w_stdout w' = w_stdout w \<and> w_sent w' = w_sent w"

lemma only_stderr_refl [simp]: "only_stderr w w"
  by (simp add: only_stderr_def)

lemma only_stderr_trans: "only_stderr w w' \<Longrightarrow> only_stderr w' w'' \<Longrightarrow> only_stderr w w''"
  by (simp add: only_stderr_def same_files_def)

lemma only_stderr_calm: "only_stderr w w' \<Longrightarrow> calm w' \<longleftrightarrow> calm w"
  by (simp add: only_stderr_def same_files_calm)

lemma system_now_stderr: "only_stderr w (snd (system_now w))" "w_stderr (snd (system_now w)) = w_stderr w"
  by (simp_all add: only_stderr_def system_now_def same_files_def)

definition note_stderr :: "bytes \<Rightarrow> world \<Rightarrow> world" where
  "note_stderr bs w = w\<lparr>w_calls := Suc (w_calls w), w_stderr := w_stderr w @ bs\<rparr>"

lemma stderr_write_all_calm: "calm w \<Longrightarrow> stderr_write_all bs w = (Inr (), note_stderr bs w)"
  by (simp add: stderr_write_all_def syscall_calm note_stderr_def)

lemma std_flush_calm: "calm w \<Longrightarrow> std_flush w = (Inr (), w\<lparr>w_calls := Suc (w_calls w)\<rparr>)"
  by (simp add: std_flush_def syscall_calm)

lemma emergency_write_calm:
  assumes "calm w"
  shows "only_stderr w (snd (emergency_write e json w))"
    "w_stderr (snd (emergency_write e json w)) = w_stderr w @ emergency_text json e"
proof -
  define n where "n = utf8 (lit ''[xoslog] writer thread unavailable, logging synchronously'') @ [10]"
  define b where "b = format_entry False json e"
  have run: "emergency_write e json w = (case stderr_write_all n w of
        (Inl err, w) \<Rightarrow> (Inl err, w)
      | (Inr _, w) \<Rightarrow> (case stderr_write_all b w of
             (Inl err, w) \<Rightarrow> (Inl err, w)
           | (Inr _, w) \<Rightarrow> std_flush w))"
    unfolding emergency_write_def Let_def n_def b_def format_entry_def ..
  let ?w = "(note_stderr b (note_stderr n w))\<lparr>w_calls := Suc (w_calls (note_stderr b (note_stderr n w)))\<rparr>"
  have "calm (note_stderr n w)" "calm (note_stderr b (note_stderr n w))"
    using assms by (simp_all add: note_stderr_def)
  then have "emergency_write e json w = (Inr (), ?w)"
    unfolding run by (simp add: stderr_write_all_calm [OF assms] stderr_write_all_calm std_flush_calm)
  then show "only_stderr w (snd (emergency_write e json w))"
    "w_stderr (snd (emergency_write e json w)) = w_stderr w @ emergency_text json e"
    by (simp_all add: note_stderr_def only_stderr_def same_files_def emergency_text_def n_def b_def)
qed

subsection \<open>The steps that remain\<close>

text \<open>From one state after the end to a later one.\<close>

definition aftermath :: "'c process \<Rightarrow> 'c process \<Rightarrow> bool" where
  "aftermath s s' \<longleftrightarrow> pr_writer s' = WStopped \<and> \<not> ch_alive (pr_chan s') \<and> pr_handled s' = pr_handled s \<and>
     pr_discarded s' = pr_discarded s \<and> in_json (pr_inner s') = in_json (pr_inner s) \<and>
     only_stderr (pr_world s) (pr_world s') \<and>
     (\<exists>new. pr_fates s' = pr_fates s @ map (\<lambda>(t, e). (t, e, Emergency)) new \<and>
        w_stderr (pr_world s') = w_stderr (pr_world s) @ concat (map (emergency_text (in_json (pr_inner s)) \<circ> snd) new))"

lemma aftermath_refl: "pr_writer s = WStopped \<Longrightarrow> \<not> ch_alive (pr_chan s) \<Longrightarrow> aftermath s s"
  by (auto simp: aftermath_def intro: exI [of _ "[]"])

lemma aftermath_trans:
  assumes "aftermath s s'" "aftermath s' s''"
  shows "aftermath s s''"
proof -
  obtain new where new: "pr_fates s' = pr_fates s @ map (\<lambda>(t, e). (t, e, Emergency)) new"
      "w_stderr (pr_world s') = w_stderr (pr_world s) @ concat (map (emergency_text (in_json (pr_inner s)) \<circ> snd) new)"
    using assms(1) unfolding aftermath_def by blast
  obtain new' where new': "pr_fates s'' = pr_fates s' @ map (\<lambda>(t, e). (t, e, Emergency)) new'"
      "w_stderr (pr_world s'') = w_stderr (pr_world s') @ concat (map (emergency_text (in_json (pr_inner s')) \<circ> snd) new')"
    using assms(2) unfolding aftermath_def by blast
  have json: "in_json (pr_inner s') = in_json (pr_inner s)" using assms(1) by (simp add: aftermath_def)
  have "pr_fates s'' = pr_fates s @ map (\<lambda>(t, e). (t, e, Emergency)) (new @ new') \<and>
      w_stderr (pr_world s'') = w_stderr (pr_world s) @ concat (map (emergency_text (in_json (pr_inner s)) \<circ> snd) (new @ new'))"
    using new new' json by simp
  moreover have "only_stderr (pr_world s) (pr_world s'')"
    using assms only_stderr_trans unfolding aftermath_def by blast
  ultimately show ?thesis
    using assms unfolding aftermath_def by (intro conjI exI [of _ "new @ new'"]) simp_all
qed

text \<open>A step that settles no record.\<close>

lemma aftermath_quiet:
  assumes "pr_writer s = WStopped" "\<not> ch_alive (pr_chan s)" "pr_writer s' = pr_writer s" "pr_chan s' = pr_chan s"
    "pr_handled s' = pr_handled s" "pr_discarded s' = pr_discarded s" "in_json (pr_inner s') = in_json (pr_inner s)"
    "only_stderr (pr_world s) (pr_world s')" "w_stderr (pr_world s') = w_stderr (pr_world s)" "pr_fates s' = pr_fates s"
  shows "aftermath s s'"
  using assms by (auto simp: aftermath_def intro: exI [of _ "[]"])

lemma aftermath_call:
  assumes "call_step t s = Some s'" "pr_writer s = WStopped" "\<not> ch_alive (pr_chan s)" "calm (pr_world s)"
  shows "aftermath s s'"
  using assms(1)
proof (cases rule: call_step_cases)
  case (emergency e)
  let ?w = "snd (emergency_write e (in_json (pr_inner s)) (pr_world s))"
  have "pr_fates s' = pr_fates s @ map (\<lambda>(t, e). (t, e, Emergency)) [(t, e)]" "pr_world s' = ?w"
      "pr_writer s' = WStopped" "pr_chan s' = pr_chan s" "pr_handled s' = pr_handled s"
      "pr_discarded s' = pr_discarded s" "in_json (pr_inner s') = in_json (pr_inner s)"
    using assms(2) by (simp_all add: emergency call_defs)
  moreover have "w_stderr ?w = w_stderr (pr_world s) @
      concat (map (emergency_text (in_json (pr_inner s)) \<circ> snd) [(t, e)])"
    using emergency_write_calm(2) [OF assms(4)] by simp
  ultimately show ?thesis
    using assms(3) emergency_write_calm(1) [OF assms(4)] unfolding aftermath_def by metis
next
  case (queued e c)
  then show ?thesis using assms(3) by (auto dest: chan_send_alive)
next
  case (sent msg c)
  then show ?thesis using assms(3) by (auto dest: chan_send_alive)
next
  case (dropped e)
  then show ?thesis using assms(3) by (simp add: chan_full_def)
next
  case (stamp e)
  then show ?thesis by (intro aftermath_quiet assms(2,3)) (simp_all add: system_now_stderr)
qed (intro aftermath_quiet assms(2,3); simp add: call_defs)+

lemma aftermath_step:
  "lstep ops s s' \<Longrightarrow> pr_writer s = WStopped \<Longrightarrow> \<not> ch_alive (pr_chan s) \<Longrightarrow> calm (pr_world s) \<Longrightarrow> aftermath s s'"
proof (induction rule: lstep.induct)
  case (log s t e)
  then show ?case
    using log_enter_cases [of t e s] by (intro aftermath_quiet) (auto simp: call_defs)
next
  case (call t s s')
  then show ?case by (rule aftermath_call)
next
  case (writer s s')
  from writer(1) have False by (cases rule: writer_moves_cases) (use writer(2) in auto)
  then show ?case ..
qed (intro aftermath_quiet; simp add: flush_enter_def shutdown_enter_def fresh_ack_def call_defs)+

lemma stopped_step:
  assumes "lstep ops s s'" "pr_writer s = WStopped" "\<not> ch_alive (pr_chan s)"
  shows "pr_writer s' = WStopped" "pr_handled s' = pr_handled s" "pr_acked s' = pr_acked s"
proof -
  have "pr_writer s' = WStopped \<and> pr_handled s' = pr_handled s \<and> pr_acked s' = pr_acked s"
    using assms
  proof (induction rule: lstep.induct)
    case (log s t e)
    then show ?case using log_enter_cases [of t e s] by (auto simp: call_defs)
  next
    case (call t s s')
    show ?case using call(1) by (cases rule: call_step_cases) (use call(2) in \<open>simp_all add: call_defs\<close>)
  next
    case (writer s s')
    from writer(1) have False by (cases rule: writer_moves_cases) (use writer(2) in auto)
    then show ?case ..
  qed (simp_all add: flush_enter_def shutdown_enter_def fresh_ack_def call_defs)
  then show "pr_writer s' = WStopped" "pr_handled s' = pr_handled s" "pr_acked s' = pr_acked s" by simp_all
qed

lemma aftermath_reach:
  "lreach ops s s' \<Longrightarrow> pr_writer s = WStopped \<Longrightarrow> \<not> ch_alive (pr_chan s) \<Longrightarrow> calm (pr_world s) \<Longrightarrow> aftermath s s'"
proof (induction rule: rtranclp_induct)
  case (step s' s'')
  then have "aftermath s s'" by blast
  moreover from this have "calm (pr_world s')" "pr_writer s' = WStopped" "\<not> ch_alive (pr_chan s')"
    using step.prems(3) only_stderr_calm by (auto simp: aftermath_def)
  with aftermath_step [OF step.hyps(2)] have "aftermath s' s''" by blast
  ultimately show ?case by (rule aftermath_trans)
qed (rule aftermath_refl)

subsection \<open>Properties\<close>

text \<open>Claim C9: \<open>shutdown\<close> is a deterministic end. On whichever thread and in whatever race with other
  calls of it, when it returns the writer thread has ended and the queue is closed; the writer has handled,
  in order, everything sent up to one request to shut down, that request last and acknowledged, and what it
  discarded was all sent later. That request is the first one, unless the flush of a caller's sink unwinds:
  a request in whose flush that happens does not stop the writer, and it is never acknowledged.\<close>

theorem shutdown_returns_after_the_end:
  assumes "fresh_inner i" "lreach ops (started i il cap slots ctx w) s" "in_shutdown (pr_calls s t)"
    "lstep ops s s'" "pr_calls s' t = Idle"
  shows "pr_writer s' = WStopped \<and> \<not> ch_alive (pr_chan s') \<and>
    (\<exists>pre a. pr_handled s' = pre @ [MShutdown a] \<and> pr_sent s' = pre @ MShutdown a # pr_discarded s' \<and>
      a \<in> set (pr_acked s') \<and>
      (\<forall>b. MShutdown b \<in> set pre \<longrightarrow> \<not> flush_returns ops \<and> b \<notin> set (pr_acked s')))"
proof -
  have reach: "lreach ops (started i il cap slots ctx w) s'" using assms(2,4) by (rule rtranclp.rtrancl_into_rtrancl)
  note inv = queue_inv_reach [OF assms(2)] end_inv_reach [OF assms(2,1)]
  have stopped: "pr_writer s = WStopped" by (rule shutdown_return [OF assms(4,3,5) inv])
  then have closed: "\<not> ch_alive (pr_chan s)" using inv(1) by (auto simp: queue_inv_def)
  have clones: "pr_clones s" using clone_inv_reach [OF assms(2)] assms(3) by (auto simp: clone_inv_def)
  have same: "pr_writer s' = WStopped" "pr_handled s' = pr_handled s" "pr_acked s' = pr_acked s"
    using stopped_step [OF assms(4) stopped closed] by simp_all
  obtain pre a where h: "pr_handled s = pre @ [MShutdown a]" "a \<in> set (pr_acked s)"
    and early: "\<forall>b. MShutdown b \<in> set pre \<longrightarrow> b \<notin> set (pr_acked s) \<and> \<not> flush_returns ops"
    using request_inv_reach [OF assms(2)] stopped clones by (auto simp: request_inv_def passed_def ends_def)
  have "\<not> ch_alive (pr_chan s')" "pr_sent s' = pr_handled s' @ pr_discarded s'"
    using queue_inv_reach [OF reach] same(1) by (auto simp: queue_inv_def split: if_splits)
  with same h early show ?thesis by simp
qed

text \<open>A record is sent, the logger shut down, and the call returns.\<close>

definition teardown_acts :: "log_entry \<Rightarrow> act list" where
  "teardown_acts e = [ALog 1 e, ACall 1, ACall 1, ACall 1, AShutdown 2, ACall 2, ACall 2,
     AWriter, AWriter, AWriter, AWriter, AWriter, ACall 2, ACall 2]"

theorem shutdown_returns_after_the_end_witness:
  "\<exists>s s' e a. acts_run quiet_ops (teardown_acts plain_example) (started quiet_inner True 2 [] ctx_init quiet_world) = Some s \<and>
    lstep quiet_ops s s' \<and> pr_calls s' 2 = Idle \<and> pr_writer s' = WStopped \<and> le_message e = lit ''hi'' \<and>
    pr_handled s' = [MLog e, MShutdown a] \<and> pr_discarded s' = []"
proof -
  let ?e = "first_record quiet_inner 1 plain_example ctx_init quiet_world"
  note run_defs = act_defs teardown_acts_def writer_handle_def writer_step_def handle_message_def writer_exit_def
    chan_close_def ack_recv_def ack_arrived_def ack_of_def join_enter_def join_return_def
  obtain s where s: "acts_run quiet_ops (teardown_acts plain_example)
        (started quiet_inner True 2 [] ctx_init quiet_world) = Some s"
      "pr_calls s 2 = JoinWait" "pr_writer s = WStopped" "pr_sent s = [MLog ?e, MShutdown 0]"
    using quiet_inner_enabled by (simp add: run_defs Let_def quiet_inner_def)
  let ?s = "set_call 2 Idle (s\<lparr>pr_inner := (pr_inner s)\<lparr>join_lock := HandleGone\<rparr>\<rparr>)"
  have step: "lstep quiet_ops s ?s"
    by (rule lstep.call [of 2]) (simp add: call_step_def join_return_def s(2,3))
  have "pr_writer ?s = WStopped \<and> \<not> ch_alive (pr_chan ?s) \<and>
    (\<exists>pre a. pr_handled ?s = pre @ [MShutdown a] \<and> pr_sent ?s = pre @ MShutdown a # pr_discarded ?s \<and>
      a \<in> set (pr_acked ?s) \<and>
      (\<forall>b. MShutdown b \<in> set pre \<longrightarrow> \<not> flush_returns quiet_ops \<and> b \<notin> set (pr_acked ?s)))"
    by (rule shutdown_returns_after_the_end [OF quiet_inner_fresh acts_run_lreach [OF s(1)] _ step, of 2])
      (simp_all add: s(2) set_call_def)
  moreover have "pr_sent ?s = [MLog ?e, MShutdown 0]" using s(4) by (simp add: set_call_def)
  ultimately have "pr_handled ?s = [MLog ?e, MShutdown 0]" "pr_discarded ?s = []" "pr_writer ?s = WStopped"
    by (auto simp: Cons_eq_append_conv)
  moreover have "le_message ?e = lit ''hi''" by (simp add: plain_example_def)
  moreover have "pr_calls ?s 2 = Idle" by (simp add: set_call_def)
  ultimately show ?thesis using s(1) step by blast
qed

text \<open>Claim C25: once the writer thread has ended (and no call fails), every record that a thread
  still sends, having passed the closed flag before, is written whole to standard error by that thread, with
  the notice and in the order of the sends, and counted neither as queued nor as dropped; the logger has no
  other effect on files, standard output or sockets, and handles nothing more, for ever.\<close>

theorem records_after_the_end_reach_stderr:
  assumes "lreach ops (started i il cap slots ctx w) s" "pr_writer s = WStopped" "calm (pr_world s)"
    "lreach ops s s'"
  shows "\<exists>new. pr_fates s' = pr_fates s @ map (\<lambda>(t, e). (t, e, Emergency)) new \<and>
    w_stderr (pr_world s') = w_stderr (pr_world s) @ concat (map (emergency_text (in_json i) \<circ> snd) new) \<and>
    same_files (pr_world s) (pr_world s') \<and> w_stdout (pr_world s') = w_stdout (pr_world s) \<and>
    w_sent (pr_world s') = w_sent (pr_world s) \<and> pr_handled s' = pr_handled s \<and> pr_writer s' = WStopped"
proof -
  have "\<not> ch_alive (pr_chan s)"
    using queue_inv_reach [OF assms(1)] assms(2) by (auto simp: queue_inv_def split: if_splits)
  then have "aftermath s s'" using aftermath_reach [OF assms(4)] assms(2,3) by blast
  moreover have "in_json (pr_inner s) = in_json i"
    using same_config_reach [OF assms(1)] by (simp add: same_config_def started_def)
  ultimately show ?thesis unfolding aftermath_def only_stderr_def by auto
qed

text \<open>A thread checks the closed flag, another shuts the logger down, and the first one then sends.\<close>

definition late_acts :: "log_entry \<Rightarrow> act list" where
  "late_acts e = [ALog 1 e, AShutdown 2, ACall 2, ACall 2, AWriter, AWriter, AWriter]"

theorem records_after_the_end_reach_stderr_witness:
  "\<exists>s s' e. lreach quiet_ops (started quiet_inner True 2 [] ctx_init quiet_world) s \<and> pr_writer s = WStopped \<and>
    lreach quiet_ops s s' \<and> pr_fates s' = [(1, e, Emergency)] \<and> le_message e = lit ''hi'' \<and>
    w_stderr (pr_world s') = emergency_text False e"
proof -
  let ?s0 = "started quiet_inner True 2 [] ctx_init quiet_world"
  have "is_enabled_for quiet_inner (le_level plain_example) (le_target plain_example)" by (rule quiet_inner_enabled)
  note run_defs = act_defs late_acts_def writer_handle_def writer_step_def handle_message_def writer_exit_def chan_close_def
  obtain s where s: "acts_run quiet_ops (late_acts plain_example) ?s0 = Some s" "pr_writer s = WStopped"
      "pr_calls s = (\<lambda>_. Idle)(1 := Stamping plain_example, 2 := Awaiting (MShutdown 0))" "pr_fates s = []"
      "pr_world s = quiet_world" "pr_ctx s = ctx_init" "pr_inner s = quiet_inner\<lparr>is_closed := True\<rparr>"
      "\<not> ch_alive (pr_chan s)"
    using quiet_inner_enabled by (simp add: run_defs Let_def quiet_inner_def)
  let ?e = "first_record quiet_inner 1 plain_example ctx_init quiet_world"
  obtain s' where s': "acts_run quiet_ops [ACall 1, ACall 1, ACall 1] s = Some s'"
      "pr_fates s' = [(1, ?e, Emergency)]"
    using s(3-8) by (simp add: act_defs Let_def quiet_inner_def)
  have calm: "calm (pr_world s)" by (simp add: s(5) calm_def quiet_world_def)
  from records_after_the_end_reach_stderr [OF acts_run_lreach [OF s(1)] s(2) calm acts_run_lreach [OF s'(1)]]
  obtain new where new: "pr_fates s' = map (\<lambda>(t, e). (t, e, Emergency)) new"
      "w_stderr (pr_world s') = concat (map (emergency_text False \<circ> snd) new)"
    by (auto simp: s(4,5) quiet_inner_def quiet_world_def)
  then have "new = [(1, ?e)]" using s'(2) by (auto simp: map_eq_Cons_conv)
  with new(2) have "w_stderr (pr_world s') = emergency_text False ?e" by simp
  moreover have "le_message ?e = lit ''hi''" by (simp add: plain_example_def)
  ultimately show ?thesis
    using acts_run_lreach [OF s(1)] s(2) acts_run_lreach [OF s'(1)] s'(2) by blast
qed

end
