(* ===== verification/Xos_Sequential.thy ===== *)
theory Xos_Sequential
  imports Xos_Aftermath
begin

section \<open>The concurrent logger refines the sequential loop (\<open>src/logger.rs\<close>)\<close>

text \<open>
  However the callers and the writer thread interleave, what the logger has done when the writer ends is
  what \<open>writer_loop\<close>, run alone, does on the sequence of the messages sent. The other threads can only
  read the clock in between, which they do when they stamp a record.
\<close>

subsection \<open>The loop among readers of the clock\<close>

text \<open>Readings of the clock by other threads.\<close>

definition clock_reads :: "nat \<Rightarrow> world \<Rightarrow> world" where
  "clock_reads n w = w\<lparr>w_ticks := w_ticks w + n\<rparr>"

lemma clock_reads_simps [simp]: "clock_reads 0 w = w" "clock_reads m (clock_reads n w) = clock_reads (n + m) w"
  by (simp_all add: clock_reads_def)

lemma system_now_reads: "snd (system_now (clock_reads n w)) = clock_reads (Suc n) w"
  by (simp add: system_now_def clock_reads_def)

text \<open>\<open>writer_loop\<close> with a number of such readings before every message, and \<open>n\<close> before the last flush.\<close>

fun writer_loop_among ::
  "'c sink_ops \<Rightarrow> bool \<Rightarrow> bool \<Rightarrow> (nat \<times> message) list \<Rightarrow> nat \<Rightarrow> 'c sink_slot list \<Rightarrow> world \<Rightarrow>
     unit outcome \<times> 'c sink_slot list \<times> nat list \<times> world" where
  "writer_loop_among ops il json [] n slots w =
     (case slots_flush ops slots (clock_reads n w) of (r, slots, w) \<Rightarrow> (r, slots, [], w))"
| "writer_loop_among ops il json ((k, msg) # msgs) n slots w =
     (case writer_step ops il json msg slots (clock_reads k w) of (stop, slots, acks, w) \<Rightarrow>
        if stop then (case slots_flush ops slots (clock_reads n w) of (r, slots, w) \<Rightarrow> (r, slots, acks, w))
        else (case writer_loop_among ops il json msgs n slots w of
                (r, slots, acks', w) \<Rightarrow> (r, slots, acks @ acks', w)))"

text \<open>Alone, it is \<open>writer_loop\<close>.\<close>

lemma writer_loop_alone: "writer_loop_among ops il json (map (Pair 0) msgs) 0 slots w = writer_loop ops il json msgs slots w"
  by (induction msgs arbitrary: slots w) (auto split: prod.split)

text \<open>The turns of the loop so far: whether it was told to stop, the slots, the acknowledgements, the world.\<close>

fun turns ::
  "'c sink_ops \<Rightarrow> bool \<Rightarrow> bool \<Rightarrow> (nat \<times> message) list \<Rightarrow> 'c sink_slot list \<Rightarrow> world \<Rightarrow>
     bool \<times> 'c sink_slot list \<times> nat list \<times> world" where
  "turns ops il json [] slots w = (False, slots, [], w)"
| "turns ops il json ((k, msg) # msgs) slots w =
     (case writer_step ops il json msg slots (clock_reads k w) of (stop, slots, acks, w) \<Rightarrow>
        if stop then (True, slots, acks, w)
        else (case turns ops il json msgs slots w of (stop, slots, acks', w) \<Rightarrow> (stop, slots, acks @ acks', w)))"

lemma turns_snoc:
  "turns ops il json ms slots w = (False, slots1, acks1, w1) \<Longrightarrow>
   writer_step ops il json msg slots1 (clock_reads k w1) = (stop, slots2, acks2, w2) \<Longrightarrow>
   turns ops il json (ms @ [(k, msg)]) slots w = (stop, slots2, acks1 @ acks2, w2)"
proof (induction ms arbitrary: slots acks1 w)
  case (Cons m ms)
  obtain j m' where m: "m = (j, m')" by (cases m)
  obtain stop' s' a' w' where st: "writer_step ops il json m' slots (clock_reads j w) = (stop', s', a', w')"
    using prod_cases4 by blast
  obtain stop'' s'' a'' w'' where tu: "turns ops il json ms s' w' = (stop'', s'', a'', w'')"
    using prod_cases4 by blast
  have "\<not> stop'" "s'' = slots1" "w'' = w1" "stop'' = False" "acks1 = a' @ a''"
    using Cons.prems(1) by (auto simp: m st tu split: if_splits)
  then show ?case using Cons.IH [of s' w' a''] Cons.prems(2) by (simp add: m st tu)
qed auto

text \<open>Stopped, the loop ignores what follows; not stopped, nothing may follow.\<close>

lemma turns_loop:
  "turns ops il json ms slots w = (stop, slots1, acks, w1) \<Longrightarrow> stop \<or> rest = [] \<Longrightarrow>
   slots_flush ops slots1 (clock_reads n w1) = (r, slots2, w2) \<Longrightarrow>
   writer_loop_among ops il json (ms @ rest) n slots w = (r, slots2, acks, w2)"
proof (induction ms arbitrary: slots acks w)
  case (Cons m ms)
  obtain j m' where m: "m = (j, m')" by (cases m)
  obtain stop' s' a' w' where st: "writer_step ops il json m' slots (clock_reads j w) = (stop', s', a', w')"
    using prod_cases4 by blast
  obtain stop'' s'' a'' w'' where tu: "turns ops il json ms s' w' = (stop'', s'', a'', w'')"
    using prod_cases4 by blast
  show ?case
  proof (cases stop')
    case True
    then show ?thesis using Cons.prems by (simp add: m st)
  next
    case False
    then have "stop'' = stop" "s'' = slots1" "w'' = w1" "acks = a' @ a''"
      using Cons.prems(1) by (simp_all add: m st tu)
    then show ?thesis using Cons.IH [of s' w' a''] Cons.prems(2,3) tu False by (simp add: m st)
  qed
qed auto

subsection \<open>What the other threads do to the world\<close>

lemma std_calls_stderr: "only_stderr w (snd (stderr_write_all bs w))" "only_stderr w (snd (std_flush w))"
  by (auto simp: only_stderr_def same_files_def stderr_write_all_def std_flush_def syscall_def split: option.split)

lemma emergency_write_stderr: "only_stderr w (snd (emergency_write e json w))"
proof -
  obtain n b where run: "emergency_write e json w = (case stderr_write_all n w of
        (Inl err, w) \<Rightarrow> (Inl err, w)
      | (Inr _, w) \<Rightarrow> (case stderr_write_all b w of
             (Inl err, w) \<Rightarrow> (Inl err, w)
           | (Inr _, w) \<Rightarrow> std_flush w))"
    unfolding emergency_write_def Let_def by blast
  show ?thesis
    unfolding run using std_calls_stderr only_stderr_trans by (auto split: prod.split sum.split) (metis snd_conv)+
qed

lemma call_step_world:
  assumes "call_step t s = Some s'" "queue_inv s"
  shows "if pr_writer s = WStopped then only_stderr (pr_world s) (pr_world s')
    else (\<exists>n. pr_world s' = clock_reads n (pr_world s))"
  using assms(1)
proof (cases rule: call_step_cases)
  case (stamp e)
  have "pr_world s' = clock_reads 1 (pr_world s)"
    by (simp add: stamp(2) system_now_def clock_reads_def)
  moreover have "only_stderr v (clock_reads 1 v)" for v
    by (simp add: only_stderr_def same_files_def clock_reads_def)
  ultimately show ?thesis by metis
next
  case (emergency e)
  then have "pr_writer s = WStopped" using assms(2) by (simp add: queue_inv_def)
  then show ?thesis using emergency_write_stderr by (simp add: emergency call_defs)
qed (auto simp: call_defs intro: exI [of _ 0])

subsection \<open>The simulation\<close>

definition loop_inv :: "'c sink_ops \<Rightarrow> 'c sink_slot list \<Rightarrow> world \<Rightarrow> 'c process \<Rightarrow> bool" where
  "loop_inv ops slots w s \<longleftrightarrow> (\<exists>ks stop slots1 w1 n. length ks = length (pr_handled s) \<and>
     turns ops (pr_location s) (pr_json s) (zip ks (pr_handled s)) slots w = (stop, slots1, pr_acked s, w1) \<and>
     (if pr_writer s = WStopped
      then (stop \<or> pr_discarded s = []) \<and>
        (\<exists>r w2. slots_flush ops slots1 (clock_reads n w1) = (r, pr_slots s, w2) \<and> only_stderr w2 (pr_world s))
      else slots1 = pr_slots s \<and> pr_world s = clock_reads n w1 \<and>
        (if pr_writer s = WStopping then stop \<or> \<not> pr_clones s \<and> ch_queue (pr_chan s) = [] else \<not> stop)))"

lemma loop_inv_frame:
  assumes "loop_inv ops slots w s" "pr_handled s' = pr_handled s" "pr_location s' = pr_location s" "pr_json s' = pr_json s"
    "pr_acked s' = pr_acked s" "pr_slots s' = pr_slots s" "pr_writer s' = pr_writer s" "pr_discarded s' = pr_discarded s"
    "if pr_writer s = WStopped then only_stderr (pr_world s) (pr_world s')
     else (\<exists>n. pr_world s' = clock_reads n (pr_world s))"
    "pr_clones s \<or> \<not> pr_clones s' \<and> ch_queue (pr_chan s') = ch_queue (pr_chan s)"
  shows "loop_inv ops slots w s'"
proof -
  obtain ks stop slots1 w1 n where 1: "length ks = length (pr_handled s)"
    "turns ops (pr_location s) (pr_json s) (zip ks (pr_handled s)) slots w = (stop, slots1, pr_acked s, w1)"
    "if pr_writer s = WStopped
      then (stop \<or> pr_discarded s = []) \<and>
        (\<exists>r w2. slots_flush ops slots1 (clock_reads n w1) = (r, pr_slots s, w2) \<and> only_stderr w2 (pr_world s))
      else slots1 = pr_slots s \<and> pr_world s = clock_reads n w1 \<and>
        (if pr_writer s = WStopping then stop \<or> \<not> pr_clones s \<and> ch_queue (pr_chan s) = [] else \<not> stop)"
    using assms(1) unfolding loop_inv_def by blast
  show ?thesis
  proof (cases "pr_writer s = WStopped")
    case True
    then obtain r w2 where "slots_flush ops slots1 (clock_reads n w1) = (r, pr_slots s, w2)" "only_stderr w2 (pr_world s')"
        "stop \<or> pr_discarded s = []"
      using 1(3) assms(9) only_stderr_trans by auto
    then show ?thesis
      unfolding loop_inv_def assms(2-8) using 1(1,2) True
      by (intro exI [of _ ks] exI [of _ stop] exI [of _ slots1] exI [of _ w1] exI [of _ n]) auto
  next
    case False
    then obtain k where k: "pr_world s' = clock_reads (n + k) w1" using 1(3) assms(9) by auto
    show ?thesis
      unfolding loop_inv_def assms(2-8) using 1 k False assms(10)
      by (intro exI [of _ ks] exI [of _ stop] exI [of _ slots1] exI [of _ w1] exI [of _ "n + k"]) (auto split: if_splits)
  qed
qed

lemma loop_inv_writer:
  assumes "writer_moves ops s s'" "loop_inv ops slots w s"
  shows "loop_inv ops slots w s'"
proof -
  obtain ks stop slots1 w1 n where 1: "length ks = length (pr_handled s)"
    "turns ops (pr_location s) (pr_json s) (zip ks (pr_handled s)) slots w = (stop, slots1, pr_acked s, w1)"
    "if pr_writer s = WStopped
      then (stop \<or> pr_discarded s = []) \<and>
        (\<exists>r w2. slots_flush ops slots1 (clock_reads n w1) = (r, pr_slots s, w2) \<and> only_stderr w2 (pr_world s))
      else slots1 = pr_slots s \<and> pr_world s = clock_reads n w1 \<and>
        (if pr_writer s = WStopping then stop \<or> \<not> pr_clones s \<and> ch_queue (pr_chan s) = [] else \<not> stop)"
    using assms(2) unfolding loop_inv_def by blast
  note intro_same = exI [of _ ks] exI [of _ stop] exI [of _ slots1] exI [of _ w1] exI [of _ n]
  from assms(1) show ?thesis
  proof (cases rule: writer_moves_cases)
    case wait
    then show ?thesis using 1 unfolding loop_inv_def by (intro intro_same) (simp add: writer_wait_def)
  next
    case (recv msg c)
    then show ?thesis using 1 unfolding loop_inv_def by (intro intro_same) simp
  next
    case disconnect
    then show ?thesis using 1 unfolding loop_inv_def by (intro intro_same) simp
  next
    case (handle msg)
    obtain stop' slots' acks w' where
      st: "writer_step ops (pr_location s) (pr_json s) msg (pr_slots s) (pr_world s) = (stop', slots', acks, w')" and
      s': "writer_handle ops msg s = s\<lparr>pr_slots := slots', pr_world := w', pr_acked := pr_acked s @ acks,
         pr_handled := pr_handled s @ [msg], pr_writer := (if stop' then WStopping else WIdle)\<rparr>"
      by (rule writer_handle_cases)
    have now: "slots1 = pr_slots s" "pr_world s = clock_reads n w1" "stop = False" using 1(3) handle(1) by simp_all
    have "turns ops (pr_location s) (pr_json s) (zip ks (pr_handled s) @ [(n, msg)]) slots w =
        (stop', slots', pr_acked s @ acks, w')"
      using turns_snoc 1(2) st unfolding now by blast
    then show ?thesis
      unfolding loop_inv_def handle(2) s' using 1(1)
      by (intro exI [of _ "ks @ [n]"] exI [of _ stop'] exI [of _ slots'] exI [of _ w'] exI [of _ 0]) simp
  next
    case exit
    obtain r slots' w' where fl: "slots_flush ops (pr_slots s) (pr_world s) = (r, slots', w')"
      and s': "writer_exit ops s = s\<lparr>pr_slots := slots', pr_world := w', pr_discarded := ch_queue (pr_chan s),
         pr_chan := chan_close (pr_chan s), pr_writer := WStopped\<rparr>"
      by (rule writer_exit_cases)
    then show ?thesis
      using 1 exit unfolding loop_inv_def by (intro intro_same) auto
  qed
qed

lemma loop_inv_step:
  "lstep ops s s' \<Longrightarrow> queue_inv s \<Longrightarrow> clone_inv s \<Longrightarrow> loop_inv ops slots w s \<Longrightarrow> loop_inv ops slots w s'"
proof (induction rule: lstep.induct)
  case (log s t e)
  show ?case
    by (rule loop_inv_frame [OF log(5)])
      (use log(2) log_enter_cases [of t e s] in \<open>auto simp: call_defs intro: exI [of _ 0]\<close>)
next
  case (call t s s')
  have "pr_clones s" using call_step_others(3) [OF call(1)] call(3) by (auto simp: clone_inv_def)
  moreover have "pr_acked s' = pr_acked s" "pr_location s' = pr_location s" "pr_json s' = pr_json s" "pr_handled s' = pr_handled s"
    using call(1) by (cases rule: call_step_cases; simp add: call_defs)+
  ultimately show ?case
    using call_step_others [OF call(1)] call_step_world [OF call(1,2)] by (intro loop_inv_frame [OF call(4)]) simp_all
next
  case (writer s s')
  show ?case by (rule loop_inv_writer [OF writer(1,4)])
next
  case (last_drop s)
  show ?case
    by (rule loop_inv_frame [OF last_drop(4)]) (auto intro: exI [of _ 0])
next
  case (push s t fs)
  show ?case by (rule loop_inv_frame [OF push(4)]) (auto intro: exI [of _ 0])
next
  case (drop_guard s t g)
  show ?case by (rule loop_inv_frame [OF drop_guard(4)]) (auto intro: exI [of _ 0])
next
  case (flush s t)
  show ?case
    by (rule loop_inv_frame [OF flush(5)])
      (use flush(2) in \<open>auto simp: flush_enter_def fresh_ack_def call_defs intro: exI [of _ 0]\<close>)
next
  case (shutdown s t)
  show ?case
    by (rule loop_inv_frame [OF shutdown(5)])
      (use shutdown(2) in \<open>auto simp: shutdown_enter_def fresh_ack_def call_defs intro: exI [of _ 0]\<close>)
qed

lemma loop_inv_reach:
  "lreach ops (started i il cap slots ctx w) s \<Longrightarrow> loop_inv ops slots w s"
proof (induction rule: rtranclp_induct)
  case base
  show ?case
    unfolding loop_inv_def
    by (rule exI [of _ "[]"], rule exI [of _ False], rule exI [of _ slots], rule exI [of _ w], rule exI [of _ 0])
      (simp add: started_def)
next
  case (step s s')
  then show ?case using queue_inv_reach clone_inv_reach by (blast intro: loop_inv_step)
qed

subsection \<open>Property\<close>

text \<open>Claim C5: the concurrent logger refines the sequential loop. Take any run of any number of callers
  in which the writer thread has ended, whatever calls failed and whatever sinks did. The slots with their
  sinks, and the requests acknowledged, in order, are those that \<open>writer_loop\<close> leaves when it is run on the
  sequence of all messages sent, in a world in which other threads have read the clock some number of
  times before each turn (when they never do, that is \<open>writer_loop\<close> itself); files, sockets and standard
  output are as it left them. The loop processes the messages the writer handled and ignores those it
  discarded.\<close>

theorem logger_refines_writer_loop:
  assumes "lreach ops (started i il cap slots ctx w) s" "pr_writer s = WStopped"
  shows "(\<exists>ks n r w'. length ks = length (pr_sent s) \<and> only_stderr w' (pr_world s) \<and>
      writer_loop_among ops il (in_json i) (zip ks (pr_sent s)) n slots w = (r, pr_slots s, pr_acked s, w')) \<and>
    writer_loop_among ops il (in_json i) (map (Pair 0) msgs) 0 slots w = writer_loop ops il (in_json i) msgs slots w"
proof -
  have cfg: "pr_location s = il" "pr_json s = in_json i"
    using same_config_reach [OF assms(1)] by (simp_all add: same_config_def started_def)
  have sent: "pr_sent s = pr_handled s @ pr_discarded s"
    using queue_inv_reach [OF assms(1)] assms(2) by (simp add: queue_inv_def split: if_splits)
  obtain ks stop slots1 w1 n r w2 where 1: "length ks = length (pr_handled s)"
      "turns ops il (in_json i) (zip ks (pr_handled s)) slots w = (stop, slots1, pr_acked s, w1)"
      "stop \<or> pr_discarded s = []" "slots_flush ops slots1 (clock_reads n w1) = (r, pr_slots s, w2)"
      "only_stderr w2 (pr_world s)"
    using loop_inv_reach [OF assms(1)] assms(2) unfolding loop_inv_def cfg by auto
  let ?rest = "replicate (length (pr_discarded s)) (0 :: nat)"
  have "zip (ks @ ?rest) (pr_sent s) = zip ks (pr_handled s) @ zip ?rest (pr_discarded s)"
    using 1(1) by (simp add: sent)
  moreover have "stop \<or> zip ?rest (pr_discarded s) = []" using 1(3) by auto
  ultimately have "writer_loop_among ops il (in_json i) (zip (ks @ ?rest) (pr_sent s)) n slots w =
      (r, pr_slots s, pr_acked s, w2)"
    using turns_loop [OF 1(2) _ 1(4)] by simp
  then have "\<exists>ks n r w'. length ks = length (pr_sent s) \<and> only_stderr w' (pr_world s) \<and>
      writer_loop_among ops il (in_json i) (zip ks (pr_sent s)) n slots w = (r, pr_slots s, pr_acked s, w')"
    using 1(1,5) sent by (intro exI [of _ "ks @ ?rest"] exI) auto
  then show ?thesis using writer_loop_alone by blast
qed

theorem logger_refines_writer_loop_witness:
  "\<exists>s ks n r w'. acts_run quiet_ops (teardown_acts plain_example)
       (started quiet_inner True 2 [] ctx_init quiet_world) = Some s \<and>
    length ks = 2 \<and> length (pr_sent s) = 2 \<and> pr_acked s = [0] \<and>
    writer_loop_among quiet_ops True False (zip ks (pr_sent s)) n [] quiet_world = (r, [], [0], w')"
proof -
  let ?e = "first_record quiet_inner 1 plain_example ctx_init quiet_world"
  note run_defs = act_defs teardown_acts_def writer_handle_def writer_step_def handle_message_def writer_exit_def
    chan_close_def ack_recv_def ack_arrived_def ack_of_def join_enter_def join_return_def
  obtain s where s: "acts_run quiet_ops (teardown_acts plain_example)
        (started quiet_inner True 2 [] ctx_init quiet_world) = Some s"
      "pr_writer s = WStopped" "pr_sent s = [MLog ?e, MShutdown 0]" "pr_acked s = [0]" "pr_slots s = []"
    using quiet_inner_enabled by (simp add: run_defs Let_def quiet_inner_def)
  have json: "in_json quiet_inner = False" by (simp add: quiet_inner_def)
  obtain ks n r w' where run: "length ks = length (pr_sent s)"
      "writer_loop_among quiet_ops True False (zip ks (pr_sent s)) n [] quiet_world = (r, pr_slots s, pr_acked s, w')"
    using logger_refines_writer_loop [OF acts_run_lreach [OF s(1)] s(2)] unfolding json by blast
  have two: "length (pr_sent s) = 2" by (simp add: s(3))
  show ?thesis
    by (rule exI [of _ s], rule exI [of _ ks], rule exI [of _ n], rule exI [of _ r], rule exI [of _ w'],
      intro conjI s(1,4) two run(1) [unfolded two] run(2) [unfolded s(4,5)])
qed

end
