(* ===== verification/Xos_Fairness.thy ===== *)
theory Xos_Fairness
  imports Xos_Aftermath
begin

section \<open>Every call returns when the scheduler is fair (\<open>src/logger.rs\<close>)\<close>

text \<open>
  Infinite runs of the logger. The scheduler is fair when the writer thread is not passed over for ever
  while it can go on, and a thread in a call is not passed over for ever while it can go on again and again:
  the latter is what waiting for a mutex that others keep taking needs.
\<close>

subsection \<open>Fair runs\<close>

text \<open>A run makes a step or, when nothing happens, stays.\<close>

definition is_run :: "'c sink_ops \<Rightarrow> (nat \<Rightarrow> 'c process) \<Rightarrow> bool" where
  "is_run ops \<sigma> \<longleftrightarrow> (\<forall>n. lstep ops (\<sigma> n) (\<sigma> (Suc n)) \<or> \<sigma> (Suc n) = \<sigma> n)"

definition writer_fair :: "'c sink_ops \<Rightarrow> (nat \<Rightarrow> 'c process) \<Rightarrow> bool" where
  "writer_fair ops \<sigma> \<longleftrightarrow>
     (\<forall>n. (\<forall>m \<ge> n. writer_next ops (\<sigma> m) \<noteq> None) \<longrightarrow> (\<exists>m \<ge> n. writer_next ops (\<sigma> m) = Some (\<sigma> (Suc m)))) \<and>
     (\<forall>n. (\<forall>m \<ge> n. pr_writer (\<sigma> m) = WIdle) \<longrightarrow> (\<exists>m \<ge> n. \<sigma> (Suc m) = writer_wait (\<sigma> m)))"

definition thread_fair :: "tid \<Rightarrow> (nat \<Rightarrow> 'c process) \<Rightarrow> bool" where
  "thread_fair t \<sigma> \<longleftrightarrow>
     (\<forall>n. (\<forall>m \<ge> n. \<exists>k \<ge> m. call_step t (\<sigma> k) \<noteq> None) \<longrightarrow> (\<exists>m \<ge> n. call_step t (\<sigma> m) = Some (\<sigma> (Suc m))))"

definition fair_run :: "'c sink_ops \<Rightarrow> (nat \<Rightarrow> 'c process) \<Rightarrow> bool" where
  "fair_run ops \<sigma> \<longleftrightarrow> is_run ops \<sigma> \<and> writer_fair ops \<sigma> \<and> (\<forall>t. thread_fair t \<sigma>)"

text \<open>The invariants that hold whatever the sinks do.\<close>

definition steady :: "'c process \<Rightarrow> bool" where
  "steady s \<longleftrightarrow> queue_inv s \<and> ack_inv s \<and> lock_inv s \<and> clone_inv s"

lemma steady_started: "fresh_inner i \<Longrightarrow> steady (started i il cap slots ctx w)"
  by (simp add: steady_def queue_inv_started ack_inv_started lock_inv_started clone_inv_started)

lemma steady_step: "lstep ops s s' \<Longrightarrow> steady s \<Longrightarrow> steady s'"
  using queue_inv_step ack_inv_step lock_inv_step clone_inv_step unfolding steady_def by blast

definition live_run :: "'c sink_ops \<Rightarrow> (nat \<Rightarrow> 'c process) \<Rightarrow> bool" where
  "live_run ops \<sigma> \<longleftrightarrow> fair_run ops \<sigma> \<and> (\<forall>n. steady (\<sigma> n))"

lemma run_kept:
  assumes "is_run ops \<sigma>" "I (\<sigma> n)" "\<And>s s'. lstep ops s s' \<Longrightarrow> I s \<Longrightarrow> I s'" "n \<le> m"
  shows "I (\<sigma> m)"
  using assms(4)
proof (induction m rule: dec_induct)
  case (step m)
  then show ?case using assms(1,3) unfolding is_run_def by metis
qed (rule assms(2))

lemma run_reach: "is_run ops \<sigma> \<Longrightarrow> n \<le> m \<Longrightarrow> lreach ops (\<sigma> n) (\<sigma> m)"
  by (rule run_kept [where I = "lreach ops (\<sigma> n)" and n = n]) auto

lemma fair_run_live:
  assumes "fair_run ops \<sigma>" "\<sigma> 0 = started i il cap slots ctx w" "fresh_inner i"
  shows "live_run ops \<sigma>"
proof -
  have "steady (\<sigma> n)" for n
    by (rule run_kept [where I = steady and n = 0 and ops = ops])
      (use assms steady_started steady_step in \<open>auto simp: fair_run_def\<close>)
  with assms(1) show ?thesis by (simp add: live_run_def)
qed

text \<open>The first moment at which a condition is lost.\<close>

lemma first_loss:
  assumes "P (n :: nat)" "n \<le> k" "\<not> P k"
  obtains m where "n \<le> m" "P m" "\<not> P (Suc m)"
proof -
  have "\<exists>m \<ge> n. P m \<and> \<not> P (Suc m)"
  proof (rule ccontr)
    assume no: "\<not> (\<exists>m \<ge> n. P m \<and> \<not> P (Suc m))"
    have "P k" using assms(2) by (induction rule: dec_induct) (use assms(1) no in auto)
    with assms(3) show False ..
  qed
  then show thesis using that by blast
qed

subsection \<open>A thread that can go on again and again does\<close>

lemma call_kept:
  assumes "lstep ops s s'" "pr_calls s t \<noteq> Idle" "call_step t s \<noteq> Some s'"
  shows "pr_calls s' t = pr_calls s t"
  using assms
proof (induction rule: lstep.induct)
  case (log s u e)
  then show ?case using log_enter_cases [of u e s] by (auto simp: call_defs)
next
  case (call u s s')
  then show ?case using call_step_others(1) [OF call(1), of t] by auto
next
  case (writer s s')
  then show ?case by (simp add: writer_moves_frame)
qed (auto simp: flush_enter_def shutdown_enter_def fresh_ack_def call_defs)

lemma call_taken:
  assumes run: "live_run ops \<sigma>" and c: "pr_calls (\<sigma> n) t = c" "c \<noteq> Idle"
    and enabled: "\<And>m. n \<le> m \<Longrightarrow> (\<And>j. m \<le> j \<Longrightarrow> pr_calls (\<sigma> j) t = c) \<Longrightarrow> \<exists>k \<ge> m. call_step t (\<sigma> k) \<noteq> None"
  obtains m where "n \<le> m" "pr_calls (\<sigma> m) t = c" "call_step t (\<sigma> m) = Some (\<sigma> (Suc m))"
proof (cases "\<forall>k \<ge> n. pr_calls (\<sigma> k) t = c")
  case True
  then have "\<forall>m \<ge> n. \<exists>k \<ge> m. call_step t (\<sigma> k) \<noteq> None" using enabled by (metis order_trans)
  then show thesis using run that True unfolding live_run_def fair_run_def thread_fair_def by blast
next
  case False
  then obtain k where "n \<le> k" "pr_calls (\<sigma> k) t \<noteq> c" by blast
  then obtain m where m: "n \<le> m" "pr_calls (\<sigma> m) t = c" "pr_calls (\<sigma> (Suc m)) t \<noteq> c"
    using first_loss [of "\<lambda>m. pr_calls (\<sigma> m) t = c" n k] c(1) by blast
  then have "lstep ops (\<sigma> m) (\<sigma> (Suc m))"
    using run unfolding live_run_def fair_run_def is_run_def by metis
  then show thesis using that m call_kept c(2) by metis
qed

subsection \<open>The writer goes on\<close>

text \<open>Other threads neither undo what the writer has done nor disable its next step.\<close>

definition writer_ready :: "'c process \<Rightarrow> bool" where
  "writer_ready s \<longleftrightarrow>
     pr_writer s \<noteq> WStopped \<and> (pr_writer s = WIdle \<longrightarrow> ch_queue (pr_chan s) \<noteq> [] \<or> \<not> pr_clones s)"

definition writer_at :: "'c process \<Rightarrow> 'c process \<Rightarrow> bool" where
  "writer_at s s' \<longleftrightarrow> pr_writer s' = pr_writer s \<and> pr_handled s' = pr_handled s \<and> writer_ready s'"

lemma writer_next_ready: "writer_next ops s \<noteq> None \<longleftrightarrow> writer_ready s"
  by (auto simp: writer_ready_def writer_next_def writer_recv_def chan_recv_laws(3) split: writer.splits option.splits)
    (auto simp: chan_recv_def split: list.splits)

lemma writer_kept:
  assumes "lstep ops s s'" "steady s" "writer_ready s" "writer_next ops s \<noteq> Some s'"
  shows "writer_at s s'"
  using assms
proof (induction rule: lstep.induct)
  case (log s t e)
  then show ?case
    using log_enter_cases [of t e s] by (auto simp: writer_at_def writer_ready_def call_defs)
next
  case (call t s s')
  have "pr_clones s" using call_step_others(3) [OF call(1)] call(2) by (auto simp: steady_def clone_inv_def)
  moreover have "pr_handled s' = pr_handled s \<and> (ch_queue (pr_chan s) \<noteq> [] \<longrightarrow> ch_queue (pr_chan s') \<noteq> [])"
    using call(1) by (cases rule: call_step_cases) (auto simp: call_defs dest: chan_send_laws(1))
  ultimately show ?case
    using call(3) call_step_others [OF call(1)] by (auto simp: writer_at_def writer_ready_def)
next
  case (writer s s')
  from writer(1) show ?case
  proof cases
    case wait
    then show ?thesis
      using writer(3) by (auto simp: writer_at_def writer_ready_def writer_wait_def)
  qed (use writer(4) in simp)
qed (auto simp: writer_at_def writer_ready_def flush_enter_def shutdown_enter_def fresh_ack_def call_defs)

lemma writer_taken:
  assumes run: "live_run ops \<sigma>" and ready: "writer_ready (\<sigma> n)"
  obtains m where "n \<le> m" "pr_writer (\<sigma> m) = pr_writer (\<sigma> n)" "pr_handled (\<sigma> m) = pr_handled (\<sigma> n)"
    "writer_next ops (\<sigma> m) = Some (\<sigma> (Suc m))"
proof (cases "\<forall>k \<ge> n. writer_at (\<sigma> n) (\<sigma> k)")
  case True
  then show thesis
    using run that unfolding live_run_def fair_run_def writer_fair_def writer_at_def writer_next_ready by blast
next
  case False
  have "writer_at (\<sigma> n) (\<sigma> n)" using ready by (simp add: writer_at_def)
  then obtain m where m: "n \<le> m" "writer_at (\<sigma> n) (\<sigma> m)" "\<not> writer_at (\<sigma> n) (\<sigma> (Suc m))"
    using first_loss [of "\<lambda>k. writer_at (\<sigma> n) (\<sigma> k)"] False by blast
  then have "\<not> writer_at (\<sigma> m) (\<sigma> (Suc m))" by (auto simp: writer_at_def)
  moreover have "\<sigma> (Suc m) \<noteq> \<sigma> m" using m(2,3) by auto
  then have "lstep ops (\<sigma> m) (\<sigma> (Suc m))" using run unfolding live_run_def fair_run_def is_run_def by metis
  ultimately have "writer_next ops (\<sigma> m) = Some (\<sigma> (Suc m))"
    using writer_kept [of ops "\<sigma> m" "\<sigma> (Suc m)"] m(2) run by (auto simp: writer_at_def live_run_def)
  then show thesis using that m(1,2) by (auto simp: writer_at_def)
qed

text \<open>What was handled and sent stays so, and the end is final.\<close>

lemma sent_grows: "lstep ops s s' \<Longrightarrow> \<exists>ms. pr_sent s' = pr_sent s @ ms"
proof (induction rule: lstep.induct)
  case (log s t e)
  then show ?case using log_enter_cases [of t e s] by (auto simp: call_defs)
next
  case (call t s s')
  from call(1) show ?case by (cases rule: call_step_cases) (auto simp: call_defs)
next
  case (writer s s')
  then show ?case by (simp add: writer_moves_frame)
qed (auto simp: flush_enter_def shutdown_enter_def fresh_ack_def call_defs)

lemma history_grows:
  assumes "live_run ops \<sigma>" "n \<le> m"
  shows "\<exists>ms. pr_handled (\<sigma> m) = pr_handled (\<sigma> n) @ ms" "\<exists>ms. pr_sent (\<sigma> m) = pr_sent (\<sigma> n) @ ms"
proof -
  have run: "is_run ops \<sigma>" using assms(1) by (simp add: live_run_def fair_run_def)
  show "\<exists>ms. pr_handled (\<sigma> m) = pr_handled (\<sigma> n) @ ms"
    by (rule run_kept [OF run _ _ assms(2)]) (auto dest: handled_grows)
  show "\<exists>ms. pr_sent (\<sigma> m) = pr_sent (\<sigma> n) @ ms"
    by (rule run_kept [OF run _ _ assms(2)]) (auto dest: sent_grows)
qed

lemma stopped_forever:
  assumes run: "live_run ops \<sigma>" and "n \<le> m" "pr_writer (\<sigma> n) = WStopped"
  shows "pr_writer (\<sigma> m) = WStopped" "\<not> ch_alive (pr_chan (\<sigma> m))"
proof -
  show stop: "pr_writer (\<sigma> m) = WStopped"
    using assms(2)
  proof (induction rule: dec_induct)
    case (step m)
    have "steady (\<sigma> m)" using run by (simp add: live_run_def)
    then have "\<not> ch_alive (pr_chan (\<sigma> m))" using step.IH by (auto simp: steady_def queue_inv_def split: if_splits)
    then show ?case
      using run step.IH stopped_step(1) unfolding live_run_def fair_run_def is_run_def by metis
  qed (rule assms(3))
  have "steady (\<sigma> m)" using run by (simp add: live_run_def)
  then show "\<not> ch_alive (pr_chan (\<sigma> m))" using stop by (auto simp: steady_def queue_inv_def split: if_splits)
qed

lemma stopping_stops:
  assumes run: "live_run ops \<sigma>" and "pr_writer (\<sigma> n) = WStopping"
  obtains m where "n \<le> m" "pr_writer (\<sigma> m) = WStopped"
proof -
  have "writer_ready (\<sigma> n)" using assms(2) by (simp add: writer_ready_def)
  then obtain m where m: "n \<le> m" "pr_writer (\<sigma> m) = WStopping" "writer_next ops (\<sigma> m) = Some (\<sigma> (Suc m))"
    using writer_taken [OF run] assms(2) by metis
  then have "pr_writer (\<sigma> (Suc m)) = WStopped" using exit_stops [of ops "\<sigma> m"] by (simp add: writer_next_def)
  then show thesis using that [of "Suc m"] m(1) by simp
qed

subsection \<open>Every message sent is handled, or the thread ends\<close>

definition settled :: "nat \<Rightarrow> 'c process \<Rightarrow> bool" where
  "settled k s \<longleftrightarrow> k < length (pr_handled s) \<or> pr_writer s = WStopped"

lemma next_handles:
  assumes "pr_writer s = WBusy msg" "writer_next ops s = Some s'"
  shows "pr_handled s' = pr_handled s @ [msg]"
proof -
  have "s' = writer_handle ops msg s" using assms by (simp add: writer_next_def)
  then show ?thesis by (simp add: writer_handle_def split: prod.split)
qed

lemma next_receives:
  assumes "pr_writer s = WIdle" "ch_queue (pr_chan s) \<noteq> []" "writer_next ops s = Some s'"
  shows "\<exists>msg. pr_writer s' = WBusy msg \<and> pr_handled s' = pr_handled s"
  using assms by (auto simp: writer_next_def writer_recv_def chan_recv_def neq_Nil_conv)

lemma busy_handles:
  assumes run: "live_run ops \<sigma>" and "pr_writer (\<sigma> n) = WBusy msg"
  obtains m where "n \<le> m" "length (pr_handled (\<sigma> m)) = Suc (length (pr_handled (\<sigma> n)))"
proof -
  have "writer_ready (\<sigma> n)" using assms(2) by (simp add: writer_ready_def)
  then obtain m where m: "n \<le> m" "pr_writer (\<sigma> m) = WBusy msg" "pr_handled (\<sigma> m) = pr_handled (\<sigma> n)"
      "writer_next ops (\<sigma> m) = Some (\<sigma> (Suc m))"
    using writer_taken [OF run] assms(2) by metis
  have "pr_handled (\<sigma> (Suc m)) = pr_handled (\<sigma> m) @ [msg]" by (rule next_handles [OF m(2,4)])
  then show thesis using that [of "Suc m"] m(1,3) by simp
qed

lemma writer_advances:
  assumes run: "live_run ops \<sigma>" and more: "length (pr_handled (\<sigma> n)) < length (pr_sent (\<sigma> n))"
  obtains m where "n \<le> m" "settled (length (pr_handled (\<sigma> n))) (\<sigma> m)"
proof (cases "pr_writer (\<sigma> n)")
  case (WBusy msg)
  then show thesis using busy_handles [OF run] that by (metis lessI settled_def)
next
  case WStopping
  then show thesis using stopping_stops [OF run] that by (metis settled_def)
next
  case WStopped
  then show thesis using that [of n] by (simp add: settled_def)
next
  case WIdle
  have queue: "ch_queue (pr_chan (\<sigma> m)) \<noteq> []"
    if "n \<le> m" "pr_writer (\<sigma> m) = WIdle" "pr_handled (\<sigma> m) = pr_handled (\<sigma> n)" for m
  proof -
    have "steady (\<sigma> m)" using run by (simp add: live_run_def)
    then have "pr_sent (\<sigma> m) = pr_handled (\<sigma> n) @ ch_queue (pr_chan (\<sigma> m))"
      using that(2,3) by (auto simp: steady_def queue_inv_def mpsc.accounts_def split: if_splits)
    then show ?thesis using more history_grows(2) [OF run that(1)] by auto
  qed
  then have "writer_ready (\<sigma> n)" using WIdle by (simp add: writer_ready_def)
  then obtain m where m: "n \<le> m" "pr_writer (\<sigma> m) = WIdle" "pr_handled (\<sigma> m) = pr_handled (\<sigma> n)"
      "writer_next ops (\<sigma> m) = Some (\<sigma> (Suc m))"
    using writer_taken [OF run] WIdle by metis
  then obtain msg where "pr_writer (\<sigma> (Suc m)) = WBusy msg" "pr_handled (\<sigma> (Suc m)) = pr_handled (\<sigma> n)"
    using next_receives [OF m(2) queue [OF m(1-3)] m(4)] m(3) by auto
  then obtain k where "Suc m \<le> k" "length (pr_handled (\<sigma> k)) = Suc (length (pr_handled (\<sigma> n)))"
    using busy_handles [OF run, of "Suc m"] by metis
  then show thesis using that [of k] m(1) by (simp add: settled_def)
qed

lemma settled_forever: "live_run ops \<sigma> \<Longrightarrow> n \<le> m \<Longrightarrow> settled k (\<sigma> n) \<Longrightarrow> settled k (\<sigma> m)"
  using stopped_forever(1) history_grows(1) [of ops \<sigma> n m] unfolding settled_def by fastforce

lemma sent_settled:
  assumes run: "live_run ops \<sigma>" and "k < length (pr_sent (\<sigma> n))"
  obtains m where "n \<le> m" "settled k (\<sigma> m)"
proof -
  have "\<exists>m \<ge> n. settled k (\<sigma> m)"
    using assms(2)
  proof (induction "Suc k - length (pr_handled (\<sigma> n))" arbitrary: n rule: less_induct)
    case less
    show ?case
    proof (cases "k < length (pr_handled (\<sigma> n))")
      case True
      then show ?thesis by (auto simp: settled_def)
    next
      case False
      then have "length (pr_handled (\<sigma> n)) < length (pr_sent (\<sigma> n))" using less.prems by simp
      then obtain m where m: "n \<le> m" "settled (length (pr_handled (\<sigma> n))) (\<sigma> m)"
        by (rule writer_advances [OF run])
      show ?thesis
      proof (cases "pr_writer (\<sigma> m) = WStopped")
        case True
        then show ?thesis using m(1) by (auto simp: settled_def)
      next
        case False
        then have "length (pr_handled (\<sigma> n)) < length (pr_handled (\<sigma> m))" using m(2) by (simp add: settled_def)
        moreover have "k < length (pr_sent (\<sigma> m))" using less.prems history_grows(2) [OF run m(1)] by auto
        ultimately obtain j where "m \<le> j" "settled k (\<sigma> j)"
          using less.hyps [of m] \<open>\<not> k < length (pr_handled (\<sigma> n))\<close> by (metis diff_less_mono2 le_imp_less_Suc not_less)
        then show ?thesis using m(1) by (meson order_trans)
      qed
    qed
  qed
  then show thesis using that by blast
qed

subsection \<open>The stages of a call\<close>

lemma live_steady: "live_run ops \<sigma> \<Longrightarrow> steady (\<sigma> n)"
  by (simp add: live_run_def)

lemma live_step: "live_run ops \<sigma> \<Longrightarrow> lstep ops (\<sigma> n) (\<sigma> (Suc n)) \<or> \<sigma> (Suc n) = \<sigma> n"
  by (simp add: live_run_def fair_run_def is_run_def)

text \<open>While a thread holds the lock of the sender nothing else is sent.\<close>

lemma holder_blocks_sends:
  assumes "lstep ops s s'" "lock_inv s" "pr_calls s t = Sending msg" "pr_calls s' t = Sending msg"
  shows "pr_sent s' = pr_sent s"
  using assms
proof (induction rule: lstep.induct)
  case (log s u e)
  then show ?case using log_enter_cases [of u e s] by (auto simp: call_defs)
next
  case (call u s s')
  have holder: "tx_lock (pr_inner s) = Some t" using call(2,3) unfolding lock_inv_def by (metis is_sending_simps(4))
  have mine: "u = t" if "pr_calls s u = Sending m" for m
    using holder call(2) that unfolding lock_inv_def by (metis is_sending_simps(4) option.inject)
  from call(1) show ?case
  proof (cases rule: call_step_cases)
    case (queued e c)
    then show ?thesis using mine call(4) by (auto simp: call_defs)
  next
    case (sent m c)
    then show ?thesis using mine call(4) by (auto simp: call_defs)
  qed (simp_all add: call_defs)
next
  case (writer s s')
  then show ?case by (simp add: writer_moves_frame)
qed (auto simp: flush_enter_def shutdown_enter_def fresh_ack_def call_defs)

lemma idle_kept:
  assumes "lstep ops s s'" "pr_writer s = WIdle" "ch_queue (pr_chan s) = []" "pr_clones s"
  shows "pr_writer s' = WIdle"
  using assms
proof (induction rule: lstep.induct)
  case (log s t e)
  then show ?case using log_enter_cases [of t e s] by (auto simp: call_defs)
next
  case (call t s s')
  then show ?case by (simp add: call_step_others)
next
  case (writer s s')
  from writer(1) show ?case
    by (cases rule: writer_moves_cases) (use writer(2-4) in \<open>auto simp: writer_wait_def chan_recv_def\<close>)
qed (auto simp: flush_enter_def shutdown_enter_def fresh_ack_def call_defs)

lemma all_handled:
  assumes "live_run ops \<sigma>"
  obtains m where "n \<le> m" "pr_writer (\<sigma> m) = WStopped \<or> length (pr_sent (\<sigma> n)) \<le> length (pr_handled (\<sigma> m))"
proof (cases "pr_sent (\<sigma> n)")
  case Nil
  then show thesis using that [of n] by simp
next
  case Cons
  then obtain m where "n \<le> m" "settled (length (pr_sent (\<sigma> n)) - 1) (\<sigma> m)"
    using sent_settled [OF assms, of "length (pr_sent (\<sigma> n)) - 1" n] by auto
  then show thesis using that [of m] Cons by (auto simp: settled_def)
qed

text \<open>Whatever was sent before any request to shut down is handled: when the writer has ended it has handled
  such a request, or everything.\<close>

lemma handled_before_shutdown:
  assumes run: "live_run ops \<sigma>" and drain: "\<And>m. drain_inv (\<sigma> m)"
    and sent: "pr_sent (\<sigma> n) = pre @ post" and none: "\<And>a. MShutdown a \<notin> set pre"
  obtains m more rest where "n \<le> m" "pr_handled (\<sigma> m) = pre @ more" "pr_sent (\<sigma> m) = pre @ more @ rest"
proof -
  obtain m where m: "n \<le> m" "pr_writer (\<sigma> m) = WStopped \<or> length (pr_sent (\<sigma> n)) \<le> length (pr_handled (\<sigma> m))"
    by (rule all_handled [OF run])
  obtain ms where ms: "pr_sent (\<sigma> m) = pre @ post @ ms" using history_grows(2) [OF run m(1)] sent by auto
  obtain rest where rest: "pr_sent (\<sigma> m) = pr_handled (\<sigma> m) @ rest"
    using live_steady [OF run, of m] by (auto simp: steady_def queue_inv_def mpsc.accounts_def split: if_splits)
  have "length pre \<le> length (pr_handled (\<sigma> m))"
  proof (rule ccontr)
    assume short: "\<not> length pre \<le> length (pr_handled (\<sigma> m))"
    then have "pr_handled (\<sigma> m) = take (length (pr_handled (\<sigma> m))) pre"
      using ms rest by (metis append_eq_append_conv_if linear)
    then have "\<And>a. MShutdown a \<notin> set (pr_handled (\<sigma> m))" using none by (metis in_set_takeD)
    moreover have stopped: "pr_writer (\<sigma> m) = WStopped" using m(2) short sent by auto
    ultimately have "pr_discarded (\<sigma> m) = []" using drain [of m] by (simp add: drain_inv_def ends_def)
    then have "pr_sent (\<sigma> m) = pr_handled (\<sigma> m)"
      using live_steady [OF run, of m] stopped by (auto simp: steady_def queue_inv_def split: if_splits)
    then show False using short arg_cong [OF ms, of length] by simp
  qed
  then have "pr_handled (\<sigma> m) = pre @ drop (length pre) (pr_handled (\<sigma> m))"
    using ms rest by (metis append_eq_append_conv_if append_eq_conv_conj append_take_drop_id)
  then show thesis using that [of m "drop (length pre) (pr_handled (\<sigma> m))" rest] m(1) rest by (metis append.assoc)
qed

lemma room_comes:
  assumes run: "live_run ops \<sigma>" and hold: "\<And>j. n \<le> j \<Longrightarrow> pr_calls (\<sigma> j) t = Sending msg"
  obtains k where "n \<le> k" "\<not> chan_full (pr_chan (\<sigma> k))"
proof -
  have sent: "pr_sent (\<sigma> j) = pr_sent (\<sigma> n)" if "n \<le> j" for j
    using that
  proof (induction rule: dec_induct)
    case (step j)
    then show ?case
      using live_step [OF run, of j] holder_blocks_sends [of ops "\<sigma> j" "\<sigma> (Suc j)" t msg] hold [of j] hold [of "Suc j"]
        live_steady [OF run, of j] by (auto simp: steady_def)
  qed simp
  have clones: "pr_clones (\<sigma> j)" if "n \<le> j" for j
    using live_steady [OF run, of j] hold [OF that] by (auto simp: steady_def clone_inv_def)
  have over: thesis if "n \<le> j" "pr_writer (\<sigma> j) = WStopped" for j
    using that \<open>\<And>k. n \<le> k \<Longrightarrow> \<not> chan_full (pr_chan (\<sigma> k)) \<Longrightarrow> thesis\<close>
      stopped_forever(2) [OF run order_refl that(2)] by (auto simp: chan_full_def)
  obtain m where m: "n \<le> m" "pr_writer (\<sigma> m) = WStopped \<or> length (pr_sent (\<sigma> n)) \<le> length (pr_handled (\<sigma> m))"
    by (rule all_handled [OF run])
  show thesis
  proof (cases "pr_writer (\<sigma> m) = WStopped")
    case True
    then show thesis using over m(1) by blast
  next
    case False
    then have long: "length (pr_sent (\<sigma> n)) \<le> length (pr_handled (\<sigma> m))" using m(2) by simp
    have empty: "ch_queue (pr_chan (\<sigma> j)) = [] \<and> busy (pr_writer (\<sigma> j)) = []" if "m \<le> j" for j
      using live_steady [OF run, of j] sent [of j] m(1) that long history_grows(1) [OF run that]
      by (auto simp: steady_def queue_inv_def mpsc.accounts_def split: if_splits)
    show thesis
    proof (cases "pr_writer (\<sigma> m)")
      case WIdle
      have idle: "pr_writer (\<sigma> j) = WIdle" if "m \<le> j" for j
        using that
      proof (induction rule: dec_induct)
        case (step j)
        then show ?case
          using live_step [OF run, of j] idle_kept [of ops "\<sigma> j" "\<sigma> (Suc j)"] empty [of j] clones [of j] m(1) by auto
      qed (rule WIdle)
      then obtain j where j: "m \<le> j" "\<sigma> (Suc j) = writer_wait (\<sigma> j)"
        using run unfolding live_run_def fair_run_def writer_fair_def by blast
      have "\<not> chan_full (pr_chan (\<sigma> (Suc j)))"
        using empty [of j] j by (auto simp: writer_wait_def chan_full_def chan_room_def)
      then show thesis using that [of "Suc j"] m(1) j(1) by simp
    next
      case WStopping
      then obtain j where "m \<le> j" "pr_writer (\<sigma> j) = WStopped" by (rule stopping_stops [OF run])
      then show thesis using over m(1) by (meson order_trans)
    qed (use False empty [of m] in auto)
  qed
qed

lemma sending_taken:
  assumes run: "live_run ops \<sigma>" and c: "pr_calls (\<sigma> n) t = Sending msg"
  obtains m where "n \<le> m" "pr_calls (\<sigma> m) t = Sending msg" "call_step t (\<sigma> m) = Some (\<sigma> (Suc m))"
proof (rule call_taken [OF run c])
  fix m assume "n \<le> m" and hold: "\<And>j. m \<le> j \<Longrightarrow> pr_calls (\<sigma> j) t = Sending msg"
  obtain k where "m \<le> k" "\<not> chan_full (pr_chan (\<sigma> k))" using room_comes [OF run hold] by blast
  then show "\<exists>k \<ge> m. call_step t (\<sigma> k) \<noteq> None" using call_sending hold by (metis option.distinct(1))
qed (use that in auto)

text \<open>What the step leaves: the lock is free.\<close>

lemma sending_releases:
  assumes "call_step t s = Some s'" "pr_calls s t = Sending msg"
  shows "tx_lock (pr_inner s') = None" "pr_calls s' t = Idle \<or> pr_calls s' t = Awaiting msg"
  using assms(1) by (cases rule: call_step_cases; use assms(2) in \<open>auto simp: call_defs\<close>)+

lemma locking_locks:
  "call_step t s = Some s' \<Longrightarrow> pr_calls s t = Locking msg \<Longrightarrow> pr_calls s' t = Sending msg"
  by (auto simp: call_step_def tx_guard_def set_call_def split: option.splits)

lemma locking_taken:
  assumes run: "live_run ops \<sigma>" and c: "pr_calls (\<sigma> n) t = Locking msg"
  obtains m where "n \<le> m" "pr_calls (\<sigma> m) t = Sending msg"
proof -
  obtain m where "n \<le> m" "pr_calls (\<sigma> m) t = Locking msg" "call_step t (\<sigma> m) = Some (\<sigma> (Suc m))"
  proof (rule call_taken [OF run c])
    fix m assume "n \<le> m" and wait: "\<And>j. m \<le> j \<Longrightarrow> pr_calls (\<sigma> j) t = Locking msg"
    have "\<exists>k \<ge> m. tx_lock (pr_inner (\<sigma> k)) = None"
    proof (cases "tx_lock (pr_inner (\<sigma> m))")
      case (Some u)
      then have "is_sending (pr_calls (\<sigma> m) u)" using live_steady [OF run, of m] by (simp add: steady_def lock_inv_def)
      then obtain msg' where "pr_calls (\<sigma> m) u = Sending msg'" by (auto simp: is_sending_def split: caller.splits)
      then obtain k where "m \<le> k" "pr_calls (\<sigma> k) u = Sending msg'" "call_step u (\<sigma> k) = Some (\<sigma> (Suc k))"
        by (rule sending_taken [OF run])
      then show ?thesis using sending_releases(1) by (intro exI [of _ "Suc k"]) simp
    qed auto
    then obtain k where "m \<le> k" "tx_lock (pr_inner (\<sigma> k)) = None" by blast
    then show "\<exists>k \<ge> m. call_step t (\<sigma> k) \<noteq> None"
      using wait by (intro exI [of _ k]) (simp add: call_step_def tx_guard_def)
  qed (use that in auto)
  then show thesis using that [of "Suc m"] locking_locks by (metis le_SucI)
qed

text \<open>A request that was handled has no acknowledgement to wait for.\<close>

lemma handled_not_waiting:
  assumes inv: "steady s" and k: "k < length (pr_handled s)" "pr_sent s ! k = msg" and a: "ack_of msg \<noteq> None"
  shows "\<not> ack_sender_alive msg s"
proof
  assume alive: "ack_sender_alive msg s"
  let ?rest = "busy (pr_writer s) @ ch_queue (pr_chan s)"
  have "msg \<in> set ?rest" using alive by (auto simp: ack_sender_alive_def)
  moreover from this have sent: "pr_sent s = pr_handled s @ ?rest"
    using inv by (auto simp: steady_def queue_inv_def mpsc.accounts_def split: if_splits)
  moreover obtain xs ys where "?rest = xs @ msg # ys" using split_list calculation(1) by metis
  ultimately have late: "pr_sent s = (pr_handled s @ xs) @ msg # ys" by simp
  have early: "pr_sent s = take k (pr_sent s) @ msg # drop (Suc k) (pr_sent s)"
    using k sent by (metis id_take_nth_drop length_append trans_less_add1)
  have "distinct (acks_of (pr_sent s))" using inv by (simp add: steady_def ack_inv_def)
  then have "take k (pr_sent s) = pr_handled s @ xs"
    using ack_unique [of "take k (pr_sent s)" msg "drop (Suc k) (pr_sent s)" "pr_handled s @ xs" msg ys] early late a
    by (metis option.exhaust)
  then have "length (pr_handled s @ xs) \<le> k" by (metis length_take min.cobounded2)
  then show False using k(1) by simp
qed

lemma stopped_not_waiting: "steady s \<Longrightarrow> pr_writer s = WStopped \<Longrightarrow> \<not> ack_sender_alive msg s"
  by (auto simp: steady_def queue_inv_def ack_sender_alive_def split: if_splits)

lemma awaiting_taken:
  assumes run: "live_run ops \<sigma>" and c: "pr_calls (\<sigma> n) t = Awaiting msg"
  obtains m where "n \<le> m" "pr_calls (\<sigma> m) t = Idle \<or> pr_calls (\<sigma> m) t = Joining \<and> (\<exists>a. msg = MShutdown a)"
proof -
  obtain k where k: "k < length (pr_sent (\<sigma> n))" "pr_sent (\<sigma> n) ! k = msg" and a: "ack_of msg \<noteq> None"
    using live_steady [OF run, of n] c by (metis ack_inv_def in_set_conv_nth steady_def)
  obtain m where m: "n \<le> m" "settled k (\<sigma> m)" by (rule sent_settled [OF run k(1)])
  have over: "\<not> ack_sender_alive msg (\<sigma> j)" if "m \<le> j" for j
  proof (cases "pr_writer (\<sigma> j) = WStopped")
    case True
    then show ?thesis by (rule stopped_not_waiting [OF live_steady [OF run]])
  next
    case False
    then have "k < length (pr_handled (\<sigma> j))" using settled_forever [OF run that m(2)] by (simp add: settled_def)
    moreover have "pr_sent (\<sigma> j) ! k = msg"
      using history_grows(2) [OF run, of n j] m(1) that k by (auto simp: nth_append)
    ultimately show ?thesis using handled_not_waiting [OF live_steady [OF run] _ _ a] by blast
  qed
  obtain j where j: "n \<le> j" "pr_calls (\<sigma> j) t = Awaiting msg" "call_step t (\<sigma> j) = Some (\<sigma> (Suc j))"
  proof (rule call_taken [OF run c])
    fix i assume "n \<le> i" and wait: "\<And>j. i \<le> j \<Longrightarrow> pr_calls (\<sigma> j) t = Awaiting msg"
    have "call_step t (\<sigma> (max i m)) \<noteq> None"
      using over [of "max i m"] wait [of "max i m"] by (simp add: call_step_def ack_recv_def)
    then show "\<exists>k \<ge> i. call_step t (\<sigma> k) \<noteq> None" by (intro exI [of _ "max i m"]) simp
  qed (use that in auto)
  from j(3) have "pr_calls (\<sigma> (Suc j)) t = Idle \<or> pr_calls (\<sigma> (Suc j)) t = Joining \<and> (\<exists>a. msg = MShutdown a)"
    by (cases rule: call_step_cases) (use j(2) in \<open>auto simp: call_defs\<close>)
  then show thesis using that [of "Suc j"] j(1) by simp
qed

text \<open>The end of a shutdown, when no flush has unwound.\<close>

lemma join_wait_taken:
  assumes run: "live_run ops \<sigma>" and stop: "\<And>n. stop_inv (\<sigma> n)" and c: "pr_calls (\<sigma> n) t = JoinWait"
  obtains m where "n \<le> m" "pr_calls (\<sigma> m) t = Idle" "join_lock (pr_inner (\<sigma> m)) = HandleGone"
proof -
  have "ends (pr_writer (\<sigma> n))" using stop [of n] c by (auto simp: stop_inv_def)
  then obtain m where m: "n \<le> m" "pr_writer (\<sigma> m) = WStopped"
    using stopping_stops [OF run, of n] that unfolding ends_def by blast
  obtain j where j: "n \<le> j" "pr_calls (\<sigma> j) t = JoinWait" "call_step t (\<sigma> j) = Some (\<sigma> (Suc j))"
  proof (rule call_taken [OF run c])
    fix i assume "n \<le> i" and wait: "\<And>j. i \<le> j \<Longrightarrow> pr_calls (\<sigma> j) t = JoinWait"
    have "pr_writer (\<sigma> (max i m)) = WStopped" by (rule stopped_forever(1) [OF run _ m(2)]) simp
    then show "\<exists>k \<ge> i. call_step t (\<sigma> k) \<noteq> None"
      using wait [of "max i m"] by (intro exI [of _ "max i m"]) (simp add: call_step_def join_return_def)
  qed (use that in auto)
  from j(3) have "pr_calls (\<sigma> (Suc j)) t = Idle \<and> join_lock (pr_inner (\<sigma> (Suc j))) = HandleGone"
    by (cases rule: call_step_cases) (use j(2) in \<open>auto simp: call_defs\<close>)
  then show thesis using that [of "Suc j"] j(1) by simp
qed

lemma joining_taken:
  assumes run: "live_run ops \<sigma>" and stop: "\<And>n. stop_inv (\<sigma> n)" and c: "pr_calls (\<sigma> n) t = Joining"
  obtains m where "n \<le> m" "pr_calls (\<sigma> m) t = Idle \<or> pr_calls (\<sigma> m) t = JoinWait"
proof -
  obtain j where j: "n \<le> j" "pr_calls (\<sigma> j) t = Joining" "call_step t (\<sigma> j) = Some (\<sigma> (Suc j))"
  proof (rule call_taken [OF run c])
    fix i assume "n \<le> i" and wait: "\<And>j. i \<le> j \<Longrightarrow> pr_calls (\<sigma> j) t = Joining"
    have "\<exists>k \<ge> i. \<forall>u. join_lock (pr_inner (\<sigma> k)) \<noteq> HandleTaken u"
    proof (cases "\<exists>u. join_lock (pr_inner (\<sigma> i)) = HandleTaken u")
      case True
      then obtain u where "pr_calls (\<sigma> i) u = JoinWait" using stop [of i] by (auto simp: stop_inv_def)
      then obtain k where "i \<le> k" "join_lock (pr_inner (\<sigma> k)) = HandleGone"
        by (rule join_wait_taken [OF run stop])
      then show ?thesis by auto
    qed auto
    then obtain k where "i \<le> k" "\<And>u. join_lock (pr_inner (\<sigma> k)) \<noteq> HandleTaken u" by blast
    then show "\<exists>k \<ge> i. call_step t (\<sigma> k) \<noteq> None"
      using wait [of k] by (intro exI [of _ k]) (simp add: call_step_def join_enter_def split: join_handle.split)
  qed (use that in auto)
  from j(3) have "pr_calls (\<sigma> (Suc j)) t = Idle \<or> pr_calls (\<sigma> (Suc j)) t = JoinWait"
    by (cases rule: call_step_cases) (use j(2) in \<open>auto simp: call_defs\<close>)
  then show thesis using that [of "Suc j"] j(1) by simp
qed

text \<open>The stages in sequence.\<close>

lemma shutdown_end_returns:
  assumes "live_run ops \<sigma>" "\<And>n. stop_inv (\<sigma> n)" "pr_calls (\<sigma> n) t = Joining \<or> pr_calls (\<sigma> n) t = JoinWait"
  shows "\<exists>m \<ge> n. pr_calls (\<sigma> m) t = Idle"
  using assms(3) joining_taken [OF assms(1,2)] join_wait_taken [OF assms(1,2)] by (metis order_trans)

lemma request_returns:
  assumes run: "live_run ops \<sigma>" and stop: "(\<exists>a. msg = MShutdown a) \<Longrightarrow> \<forall>n. stop_inv (\<sigma> n)"
    and c: "pr_calls (\<sigma> n) t = Locking msg \<or> pr_calls (\<sigma> n) t = Sending msg \<or> pr_calls (\<sigma> n) t = Awaiting msg"
  shows "\<exists>m \<ge> n. pr_calls (\<sigma> m) t = Idle"
proof -
  have wait: "\<exists>m \<ge> n. pr_calls (\<sigma> m) t = Idle" if "pr_calls (\<sigma> n) t = Awaiting msg" for n
  proof -
    obtain m where m: "n \<le> m" "pr_calls (\<sigma> m) t = Idle \<or> pr_calls (\<sigma> m) t = Joining \<and> (\<exists>a. msg = MShutdown a)"
      by (rule awaiting_taken [OF run \<open>pr_calls (\<sigma> n) t = Awaiting msg\<close>])
    then show ?thesis using shutdown_end_returns [OF run, of m t] stop by (blast intro: order_trans)
  qed
  have send: "\<exists>m \<ge> n. pr_calls (\<sigma> m) t = Idle" if "pr_calls (\<sigma> n) t = Sending msg" for n
  proof -
    obtain m where "n \<le> m" "pr_calls (\<sigma> m) t = Sending msg" "call_step t (\<sigma> m) = Some (\<sigma> (Suc m))"
      by (rule sending_taken [OF run \<open>pr_calls (\<sigma> n) t = Sending msg\<close>])
    then have m: "n \<le> Suc m" "pr_calls (\<sigma> (Suc m)) t = Idle \<or> pr_calls (\<sigma> (Suc m)) t = Awaiting msg"
      using sending_releases(2) by auto
    then show ?thesis using wait [of "Suc m"] by (blast intro: order_trans)
  qed
  show ?thesis
    using c
  proof (elim disjE)
    assume "pr_calls (\<sigma> n) t = Locking msg"
    then obtain m where "n \<le> m" "pr_calls (\<sigma> m) t = Sending msg" by (rule locking_taken [OF run])
    then show ?thesis using send [of m] by (blast intro: order_trans)
  qed (rule send wait, assumption)+
qed

lemma stamping_returns:
  assumes run: "live_run ops \<sigma>" and c: "pr_calls (\<sigma> n) t = Stamping e"
  shows "\<exists>m \<ge> n. pr_calls (\<sigma> m) t = Idle"
proof -
  obtain m where m: "n \<le> m" "pr_calls (\<sigma> m) t = Stamping e" "call_step t (\<sigma> m) = Some (\<sigma> (Suc m))"
  proof (rule call_taken [OF run c])
    fix m assume "\<And>j. m \<le> j \<Longrightarrow> pr_calls (\<sigma> j) t = Stamping e"
    then show "\<exists>k \<ge> m. call_step t (\<sigma> k) \<noteq> None" by (intro exI [of _ m]) (simp add: call_step_def)
  qed (use that in auto)
  then have "\<sigma> (Suc m) = log_stamp t e (\<sigma> m)" by (simp add: call_step_def)
  then have "pr_calls (\<sigma> (Suc m)) t = Locking (MLog (stamped t e (\<sigma> m)))" by simp
  then obtain j where "Suc m \<le> j" "pr_calls (\<sigma> j) t = Idle"
    using request_returns [OF run, of "MLog (stamped t e (\<sigma> m))"] by blast
  then show ?thesis using m(1) by (metis Suc_leD order_trans)
qed

lemma call_returns:
  assumes run: "live_run ops \<sigma>" and stop: "in_shutdown (pr_calls (\<sigma> n) t) \<Longrightarrow> \<forall>n. stop_inv (\<sigma> n)"
  shows "\<exists>m \<ge> n. pr_calls (\<sigma> m) t = Idle"
proof (cases "pr_calls (\<sigma> n) t")
  case (Stamping e)
  then show ?thesis by (rule stamping_returns [OF run])
qed (use stop request_returns [OF run, of _ n t] shutdown_end_returns [OF run, of n t] in auto)

text \<open>A finite schedule that ends at rest is a fair run.\<close>

lemma schedule_fair_run:
  assumes run: "acts_run ops as s0 = Some s" and rest: "\<And>t. pr_calls s t = Idle" "\<not> writer_ready s" "writer_wait s = s"
  obtains \<sigma> where "fair_run ops \<sigma>" "\<sigma> 0 = s0" "\<And>k. acts_run ops (take k as) s0 = Some (\<sigma> k)"
proof -
  have parts: "\<exists>s'. acts_run ops (take k as) s0 = Some s'" for k
    using run
  proof (induction as arbitrary: s0 k)
    case (Cons a as)
    then show ?case by (cases k) (auto split: option.splits)
  qed simp
  define \<sigma> where "\<sigma> k = the (acts_run ops (take k as) s0)" for k
  have \<sigma>: "acts_run ops (take k as) s0 = Some (\<sigma> k)" for k using parts [of k] by (auto simp: \<sigma>_def)
  have last: "\<sigma> k = s" if "length as \<le> k" for k using \<sigma> [of k] run that by simp
  have append: "acts_run ops (xs @ [a]) s1 = (case acts_run ops xs s1 of None \<Rightarrow> None | Some s2 \<Rightarrow> act_step ops a s2)"
    for xs a s1 by (induction xs arbitrary: s1) (auto split: option.split)
  have step: "lstep ops (\<sigma> k) (\<sigma> (Suc k)) \<or> \<sigma> (Suc k) = \<sigma> k" for k
  proof (cases "k < length as")
    case True
    then have "act_step ops (as ! k) (\<sigma> k) = Some (\<sigma> (Suc k))"
      using \<sigma> [of "Suc k"] \<sigma> [of k] append [of "take k as" "as ! k" s0] by (simp add: take_Suc_conv_app_nth)
    then show ?thesis using act_step_lstep by blast
  qed (simp add: last)
  have "writer_next ops s = None" using rest(2) writer_next_ready by blast
  then have "writer_fair ops \<sigma>"
    using last rest(3) unfolding writer_fair_def by (metis le_SucI linear)
  moreover have "thread_fair t \<sigma>" for t
  proof -
    have "call_step t s = None" using rest(1) by (simp add: call_step_def)
    then show ?thesis using last unfolding thread_fair_def by (metis linear order_trans)
  qed
  ultimately show thesis using that [of \<sigma>] \<sigma> [of 0] \<sigma> step by (auto simp: fair_run_def is_run_def)
qed

subsection \<open>Property\<close>

text \<open>Claim C4: every call returns. In every infinite run of a logger under a fair scheduler, with any
  number of threads, any sinks, either backpressure and any queue bound (also a rendezvous), a
  thread that is in a call of \<open>log\<close> or \<open>flush\<close> is out of it again later, however many records the other
  threads keep sending; and so is a thread in \<open>shutdown\<close>, unless the flush of a caller's sink unwinds.\<close>

theorem every_call_returns:
  assumes "fair_run ops \<sigma>" "\<sigma> 0 = started i il cap slots ctx w" "fresh_inner i"
    "flush_returns ops \<or> \<not> in_shutdown (pr_calls (\<sigma> n) t)"
  shows "\<exists>m. n \<le> m \<and> pr_calls (\<sigma> m) t = Idle"
proof -
  have run: "live_run ops \<sigma>" by (rule fair_run_live [OF assms(1-3)])
  have "stop_inv (\<sigma> k)" if "flush_returns ops" for k
    using stop_inv_reach [of ops i il cap slots ctx w "\<sigma> k"] run_reach [of ops \<sigma> 0 k] assms(1-3) that
    by (simp add: fair_run_def)
  then show ?thesis using call_returns [OF run] assms(4) by blast
qed

text \<open>A flush, and the writer waiting again after it.\<close>

definition single_flush :: "act list" where
  "single_flush = [AFlush 2, ACall 2, ACall 2, AWriter, AWriter, ACall 2, AWait]"

theorem every_call_returns_witness:
  "\<exists>\<sigma>. fair_run quiet_ops \<sigma> \<and> \<sigma> 0 = started quiet_inner True 2 [] ctx_init quiet_world \<and>
     pr_calls (\<sigma> 3) 2 = Awaiting (MFlush 0) \<and> (\<exists>m. 3 \<le> m \<and> pr_calls (\<sigma> m) 2 = Idle)"
proof -
  let ?s0 = "started quiet_inner True 2 [] ctx_init quiet_world"
  note run_defs = act_defs single_flush_def writer_handle_def writer_step_def handle_message_def writer_exit_def
    chan_wait_def writer_wait_def ack_recv_def ack_arrived_def ack_of_def
  obtain s where s: "acts_run quiet_ops single_flush ?s0 = Some s" "\<And>t. pr_calls s t = Idle" "\<not> writer_ready s"
      "writer_wait s = s"
    by (simp add: run_defs quiet_inner_def writer_ready_def)
  obtain s3 where s3: "acts_run quiet_ops (take 3 single_flush) ?s0 = Some s3" "pr_calls s3 2 = Awaiting (MFlush 0)"
    by (simp add: run_defs quiet_inner_def)
  obtain \<sigma> where \<sigma>: "fair_run quiet_ops \<sigma>" "\<sigma> 0 = ?s0" "\<And>k. acts_run quiet_ops (take k single_flush) ?s0 = Some (\<sigma> k)"
    by (rule schedule_fair_run [OF s]) (rule that)
  have "\<sigma> 3 = s3" using \<sigma>(3) [of 3] s3(1) by simp
  then show ?thesis using every_call_returns [OF \<sigma>(1,2) quiet_inner_fresh, of 3 2] quiet_ops_returns \<sigma>(1,2) s3(2) by metis
qed

end
