(* ===== verification/Xos_Outputs.thy ===== *)
theory Xos_Outputs
  imports Xos_Pipeline Xos_Sequential Xos_Fairness
begin

section \<open>From a caller to standard output and to a syslog server\<close>

text \<open>
  What is on standard output, or has been sent to a syslog server, once a flush is acknowledged. The sinks
  for these have one contract: while no call fails, each record adds its own item to an output, and nothing
  else does. The lemmas about a logger over such a sink are proved once, in a locale, which is interpreted
  on \<open>StdoutSink\<close>, \<open>SyslogSink\<close> and \<open>RemoteSyslogSink\<close>.
\<close>

subsection \<open>Sinks that lose nothing\<close>

text \<open>What records at or above a level add to an output, one item per record.\<close>

definition output_of ::
  "(log_entry \<Rightarrow> bytes \<Rightarrow> 'x list) \<Rightarrow> bool \<Rightarrow> bool \<Rightarrow> level \<Rightarrow> message list \<Rightarrow> 'x list" where
  "output_of item il json l ms =
     concat (map (\<lambda>e. item e (format_entry il json e)) (filter (\<lambda>e. l \<le> le_level e) (records_of ms)))"

lemma output_of_simps [simp]:
  "output_of item il json l [] = []"
  "output_of item il json l (MLog e # ms) =
     (if l \<le> le_level e then item e (format_entry il json e) else []) @ output_of item il json l ms"
  "output_of item il json l (MFlush a # ms) = output_of item il json l ms"
  "output_of item il json l (MShutdown a # ms) = output_of item il json l ms"
  "output_of item il json l (ms @ ms') = output_of item il json l ms @ output_of item il json l ms'"
  by (simp_all add: output_of_def records_of_def)

lemma output_of_all:
  "output_of item il json Trace ms = concat (map (\<lambda>e. item e (format_entry il json e)) (records_of ms))"
proof -
  have "Trace \<le> l" for l by (cases l) (simp_all add: level_order_defs)
  then show ?thesis by (simp add: output_of_def)
qed

text \<open>The operations of a sink, a view of the world, and what a record adds to it.\<close>

locale lossless_sink =
  fixes entry :: "log_entry \<Rightarrow> bytes \<Rightarrow> 's \<Rightarrow> world \<Rightarrow> 's sink_result"
    and flush :: "'s \<Rightarrow> world \<Rightarrow> 's sink_result"
    and view :: "world \<Rightarrow> 'x list"
    and item :: "'s \<Rightarrow> log_entry \<Rightarrow> bytes \<Rightarrow> 'x list"
    and good :: "'s \<Rightarrow> bool"
  assumes entry_adds: "good x \<Longrightarrow> calm w \<Longrightarrow> \<exists>x' w'. entry e bs x w = (Done (Inr ()), x', w') \<and> good x' \<and>
      item x' = item x \<and> calm w' \<and> view w' = view w @ item x e bs"
    and flush_keeps: "good x \<Longrightarrow> calm w \<Longrightarrow> \<exists>w'. flush x w = (Done (Inr ()), x, w') \<and> calm w' \<and> view w' = view w"
    and stderr_apart: "only_stderr w w' \<Longrightarrow> view w' = view w"

text \<open>Such a sink among the sinks of the crate, behind the writer.\<close>

locale lossless_logger = lossless_sink entry flush view item good
  for entry :: "log_entry \<Rightarrow> bytes \<Rightarrow> 's \<Rightarrow> world \<Rightarrow> 's sink_result" and flush :: "'s \<Rightarrow> world \<Rightarrow> 's sink_result"
    and view :: "world \<Rightarrow> 'x list" and item :: "'s \<Rightarrow> log_entry \<Rightarrow> bytes \<Rightarrow> 'x list" and good :: "'s \<Rightarrow> bool" +
  fixes ops :: "'c sink_ops" and boxed :: "'s \<Rightarrow> 'c sink"
  assumes entry_dispatch: "sink_write_entry ops e bs (boxed x) w = wrap_sink boxed (entry e bs x w)"
    and flush_dispatch: "sink_flush ops (boxed x) w = wrap_sink boxed (flush x w)"
begin

definition carries :: "'s \<Rightarrow> level \<Rightarrow> 'x list \<Rightarrow> 'c process \<Rightarrow> bool" where
  "carries x0 l out s \<longleftrightarrow> (\<exists>x. pr_slots s = [slot_new (boxed x) l] \<and> good x \<and> item x = item x0 \<and> calm (pr_world s) \<and>
     view (pr_world s) = out @ output_of (item x0) (pr_location s) (pr_json s) l (pr_handled s))"

lemma carries_frame:
  assumes "carries x0 l out s" "pr_slots s' = pr_slots s" "only_stderr (pr_world s) (pr_world s')"
    "pr_location s' = pr_location s" "pr_json s' = pr_json s" "pr_handled s' = pr_handled s"
  shows "carries x0 l out s'"
  using assms only_stderr_calm stderr_apart by (auto simp: carries_def)

lemma slots_write_adds:
  assumes "good x" "calm w"
  shows "\<exists>x' w'. slots_write ops e (format_entry il json e) [slot_new (boxed x) l] w = ([slot_new (boxed x') l], w') \<and>
    good x' \<and> item x' = item x \<and> calm w' \<and> view w' = view w @ output_of (item x) il json l [MLog e]"
proof (cases "le_level e < l")
  case True
  then have "slots_write ops e (format_entry il json e) [slot_new (boxed x) l] w = ([slot_new (boxed x) l], w)"
    "\<not> l \<le> le_level e"
    by (simp_all add: slot_write_def slot_new_def)
  with assms show ?thesis by (intro exI [of _ x] exI [of _ w]) simp
next
  case False
  obtain x' w' where 1: "entry e (format_entry il json e) x w = (Done (Inr ()), x', w')" "good x'" "item x' = item x"
      "calm w'" "view w' = view w @ item x e (format_entry il json e)"
    using entry_adds [OF assms] by metis
  have "slots_write ops e (format_entry il json e) [slot_new (boxed x) l] w = ([slot_new (boxed x') l], w')"
    using False by (simp add: slot_write_def slot_new_def entry_dispatch 1(1) wrap_sink_def Let_def)
  moreover have "l \<le> le_level e" using False by simp
  ultimately show ?thesis using 1 by (intro exI [of _ x'] exI [of _ w']) simp
qed

lemma slots_flush_keeps:
  assumes "good x" "calm w"
  shows "\<exists>w'. slots_flush ops [slot_new (boxed x) l] w = (Done (), [slot_new (boxed x) l], w') \<and>
    calm w' \<and> view w' = view w"
proof -
  obtain w' where 1: "flush x w = (Done (Inr ()), x, w')" "calm w'" "view w' = view w"
    using flush_keeps [OF assms] by blast
  then show ?thesis by (simp add: flush_dispatch slot_new_def wrap_sink_def)
qed

lemma writer_step_adds:
  assumes "good x" "calm w"
  shows "\<exists>x' w'. writer_step ops il json msg [slot_new (boxed x) l] w =
      (\<exists>a. msg = MShutdown a, [slot_new (boxed x') l], acks_of [msg], w') \<and>
    good x' \<and> item x' = item x \<and> calm w' \<and> view w' = view w @ output_of (item x) il json l [msg]"
proof (cases msg)
  case (MLog e)
  obtain x' w' where 1: "slots_write ops e (format_entry il json e) [slot_new (boxed x) l] w =
      ([slot_new (boxed x') l], w')" "good x'" "item x' = item x" "calm w'"
      "view w' = view w @ output_of (item x) il json l [MLog e]"
    using slots_write_adds [OF assms] by metis
  then show ?thesis
    by (intro exI [of _ x'] exI [of _ w']) (simp add: MLog writer_step_log del: slots_write.simps output_of_simps)
next
  case (MFlush a)
  obtain w' where "slots_flush ops [slot_new (boxed x) l] w = (Done (), [slot_new (boxed x) l], w')"
      "calm w'" "view w' = view w"
    using slots_flush_keeps [OF assms] by blast
  with assms(1) show ?thesis
    by (intro exI [of _ x] exI [of _ w'])
      (simp add: MFlush writer_step_def handle_message_def del: slots_flush.simps)
next
  case (MShutdown a)
  obtain w' where "slots_flush ops [slot_new (boxed x) l] w = (Done (), [slot_new (boxed x) l], w')"
      "calm w'" "view w' = view w"
    using slots_flush_keeps [OF assms] by blast
  with assms(1) show ?thesis
    by (intro exI [of _ x] exI [of _ w'])
      (simp add: MShutdown writer_step_def handle_message_def del: slots_flush.simps)
qed

lemma carries_writer:
  assumes "writer_moves ops s s'" "carries x0 l out s"
  shows "carries x0 l out s'"
proof -
  obtain x where x: "pr_slots s = [slot_new (boxed x) l]" "good x" "item x = item x0" "calm (pr_world s)"
      "view (pr_world s) = out @ output_of (item x0) (pr_location s) (pr_json s) l (pr_handled s)"
    using assms(2) by (auto simp: carries_def)
  from assms(1) show ?thesis
  proof (cases rule: writer_moves_cases)
    case (handle msg)
    obtain x' w' where "writer_step ops (pr_location s) (pr_json s) msg (pr_slots s) (pr_world s) =
        (\<exists>a. msg = MShutdown a, [slot_new (boxed x') l], acks_of [msg], w')" "good x'" "item x' = item x" "calm w'"
        "view w' = view (pr_world s) @ output_of (item x) (pr_location s) (pr_json s) l [msg]"
      using writer_step_adds [OF x(2,4)] unfolding x(1) by metis
    then show ?thesis
      unfolding handle(2) carries_def writer_handle_def
      by (intro exI [of _ x']) (simp add: x(3,5) del: output_of_simps(2-4))
  next
    case exit
    obtain w' where "slots_flush ops (pr_slots s) (pr_world s) = (Done (), pr_slots s, w')"
        "calm w'" "view w' = view (pr_world s)"
      using slots_flush_keeps [OF x(2,4)] unfolding x(1) by metis
    then show ?thesis
      using x unfolding exit carries_def writer_exit_def by (intro exI [of _ x]) (simp del: slots_flush.simps)
  qed (rule carries_frame [OF assms(2)]; simp add: writer_wait_def)+
qed

lemma carries_step: "lstep ops s s' \<Longrightarrow> queue_inv s \<Longrightarrow> carries x0 l out s \<Longrightarrow> carries x0 l out s'"
proof (induction rule: lstep.induct)
  case (log s t e)
  show ?case
    by (rule carries_frame [OF log(4)]) (simp_all add: log_enter_def call_defs)
next
  case (call t s s')
  have "only_stderr v (clock_reads n v)" for n v
    by (simp add: only_stderr_def same_files_def clock_reads_def)
  then have "only_stderr (pr_world s) (pr_world s')" using call_step_world [OF call(1,2)] by (auto split: if_splits)
  moreover have "pr_slots s' = pr_slots s" "pr_location s' = pr_location s" "pr_json s' = pr_json s"
      "pr_handled s' = pr_handled s"
    using call(1) by (cases rule: call_step_cases; simp add: call_defs)+
  ultimately show ?case by (intro carries_frame [OF call(3)])
next
  case (writer s s')
  then show ?case by (blast intro: carries_writer)
qed (erule carries_frame; simp add: flush_enter_def shutdown_enter_def fresh_ack_def call_defs)+

lemma carries_reach:
  assumes "good x" "calm w" "lreach ops (started i il cap [slot_new (boxed x) l] ctx w) s"
  shows "carries x l (view w) s"
  using assms(3)
proof (induction rule: rtranclp_induct)
  case base
  show ?case using assms(1,2) by (auto simp: carries_def started_def)
next
  case (step s s')
  then show ?case using carries_step [OF _ queue_inv_reach] by blast
qed

text \<open>The output once a request is acknowledged.\<close>

lemma acknowledged_in_output:
  assumes "good x" "calm w" "lreach ops (started i il cap [slot_new (boxed x) l] ctx w) s"
    "a \<in> set (pr_acked s)" "pr_sent s = pre @ msg # post" "ack_of msg = Some a"
  shows "\<exists>later rest. post = later @ rest \<and> view (pr_world s) =
    view w @ output_of (item x) il (in_json i) l pre @ output_of (item x) il (in_json i) l later"
proof -
  obtain more where more: "pr_handled s = pre @ msg # more" "\<exists>rest. post = more @ rest"
    by (rule acked_handled [OF queue_inv_reach [OF assms(3)] ack_inv_reach [OF assms(3)] assms(4-6)])
  have conf: "pr_location s = il" "pr_json s = in_json i"
    using same_config_reach [OF assms(3)] by (simp_all add: same_config_def started_def)
  have "view (pr_world s) = view w @ output_of (item x) il (in_json i) l (pr_handled s)"
    using carries_reach [OF assms(1-3)] unfolding carries_def conf by blast
  moreover have "output_of (item x) il (in_json i) l (pr_handled s) =
      output_of (item x) il (in_json i) l pre @ output_of (item x) il (in_json i) l more"
    using assms(6) by (cases msg) (simp_all add: more)
  ultimately show ?thesis using more(2) by metis
qed

text \<open>Without any request the output still comes, under a fair scheduler.\<close>

lemma eventually_in_output:
  assumes "good x" "calm w" "fair_run ops \<sigma>" "\<sigma> 0 = started i il cap [slot_new (boxed x) l] ctx w" "fresh_inner i"
    "pr_sent (\<sigma> n) = pre @ post" "\<And>a. MShutdown a \<notin> set pre"
  obtains m more rest where "n \<le> m" "pr_sent (\<sigma> m) = pre @ more @ rest"
    "view (pr_world (\<sigma> m)) = view w @ output_of (item x) il (in_json i) l (pre @ more)"
proof -
  have reach: "lreach ops (started i il cap [slot_new (boxed x) l] ctx w) (\<sigma> m)" for m
    using run_reach [of ops \<sigma> 0 m] assms(3,4) by (simp add: fair_run_def)
  obtain m more rest where m: "n \<le> m" "pr_handled (\<sigma> m) = pre @ more" "pr_sent (\<sigma> m) = pre @ more @ rest"
    by (rule handled_before_shutdown [OF fair_run_live [OF assms(3-5)] drain_inv_reach [OF reach] assms(6,7)])
  have conf: "pr_location (\<sigma> m) = il" "pr_json (\<sigma> m) = in_json i"
    using same_config_reach [OF reach] by (simp_all add: same_config_def started_def)
  have "view (pr_world (\<sigma> m)) = view w @ output_of (item x) il (in_json i) l (pre @ more)"
    using carries_reach [OF assms(1,2) reach [of m]] unfolding carries_def conf m(2) by blast
  with m(1,3) show thesis by (rule that)
qed

text \<open>Such a state is reached: a thread logs a record, another flushes.\<close>

lemma flush_arrives:
  assumes "good x" "calm w" "fresh_inner i" "2 \<le> cap" "is_enabled_for i (le_level e) (le_target e)"
  obtains s where "lreach ops (started i il cap [slot_new (boxed x) l] ctx w) s" "pr_acked s = [0]"
    "pr_sent s = [MLog (first_record i 1 e ctx w), MFlush 0]"
proof -
  let ?m = "MLog (first_record i 1 e ctx w)" and ?s0 = "started i il cap [slot_new (boxed x) l] ctx w"
  obtain s1 where run: "acts_run ops (flushing_acts e) ?s0 = Some s1"
    and s1: "pr_writer s1 = WBusy ?m" "ch_queue (pr_chan s1) = [MFlush 0]" "pr_handled s1 = []"
      "pr_sent s1 = [?m, MFlush 0]"
    by (rule flushing_run [OF assms(3-5)])
  have reach1: "lreach ops ?s0 s1" by (rule acts_run_lreach [OF run])
  have acked: "pr_acked s1 = []" using ack_inv_reach [OF reach1] s1(3) by (simp add: ack_inv_def)
  have one: "\<exists>slots w'. writer_step ops (pr_location s) (pr_json s) msg (pr_slots s) (pr_world s) =
      (\<exists>a. msg = MShutdown a, slots, acks_of [msg], w')" if "lreach ops ?s0 s" for s msg
    using carries_reach [OF assms(1,2) that] writer_step_adds unfolding carries_def by metis
  define s2 where "s2 = writer_handle ops ?m s1"
  have s2: "pr_writer s2 = WIdle" "ch_queue (pr_chan s2) = [MFlush 0]" "pr_acked s2 = []" "pr_sent s2 = [?m, MFlush 0]"
    using one [OF reach1, of ?m] s1 acked by (auto simp: s2_def writer_handle_def)
  have reach2: "lreach ops ?s0 s2"
    using reach1 lstep.writer [OF handle_moves [OF s1(1), of ops]] unfolding s2_def
    by (rule rtranclp.rtrancl_into_rtrancl)
  define s3 where
    "s3 = s2\<lparr>pr_chan := (pr_chan s2)\<lparr>ch_queue := [], ch_waiting := False\<rparr>, pr_writer := WBusy (MFlush 0)\<rparr>"
  have reach3: "lreach ops ?s0 s3"
    using reach2 lstep.writer [OF recv_moves [OF s2(1,2), of ops]] unfolding s3_def
    by (rule rtranclp.rtrancl_into_rtrancl)
  have "pr_writer s3 = WBusy (MFlush 0)" by (simp add: s3_def)
  then have "lreach ops ?s0 (writer_handle ops (MFlush 0) s3)"
    using reach3 lstep.writer [OF handle_moves] by (blast intro: rtranclp.rtrancl_into_rtrancl)
  then show thesis
    by (rule that) (use one [OF reach3, of "MFlush 0"] s2 in \<open>auto simp: writer_handle_def s3_def\<close>)
qed

end

subsection \<open>Standard output\<close>

lemma stdout_write_bytes_calm:
  assumes "calm w"
  shows "\<exists>w'. stdout_write_bytes bs w = (Inr (), w') \<and> calm w' \<and> w_stdout w' = w_stdout w @ bs"
  using assms by (simp add: stdout_write_bytes_def stdout_write_all_def syscall_calm std_flush_calm)

interpretation stdout_output: lossless_logger stdout_entry std_flush_op w_stdout "\<lambda>_ e bs. bs" "\<lambda>_. True"
    ops "\<lambda>_. StdoutSink"
  for ops :: "'c sink_ops"
proof unfold_locales
  fix x :: unit and w e bs assume "calm w"
  then show "\<exists>x' w'. stdout_entry e bs x w = (Done (Inr ()), x', w') \<and> True \<and>
      (\<lambda>e bs. bs) = (\<lambda>e :: log_entry. \<lambda>bs. bs) \<and> calm w' \<and> w_stdout w' = w_stdout w @ bs"
    using stdout_write_bytes_calm [of w bs] by (auto simp: stdout_entry_def default_write_entry_def stream_op_def)
next
  fix x :: unit and w assume "calm w"
  then show "\<exists>w'. std_flush_op x w = (Done (Inr ()), x, w') \<and> calm w' \<and> w_stdout w' = w_stdout w"
    by (simp add: std_flush_op_def stream_op_def std_flush_calm)
qed (simp_all add: only_stderr_def sink_write_entry_def sink_flush_def)

subsection \<open>Datagrams\<close>

lemma sock_send_calm: "calm w \<Longrightarrow> sock_send p bs w = (Inr (), w\<lparr>w_calls := Suc (w_calls w), w_sent := w_sent w @ [(p, bs)]\<rparr>)"
  by (simp add: sock_send_def syscall_calm)

lemma reconnect_calm:
  assumes "calm w" "sl_paths s \<noteq> []"
  shows "reconnect s w = (Inr (), s\<lparr>sl_socket := Some (hd (sl_paths s))\<rparr>, w\<lparr>w_calls := Suc (Suc (w_calls w))\<rparr>)"
  using assms by (cases "sl_paths s") (simp_all add: reconnect_def sock_create_def sock_connect_def syscall_calm)

text \<open>The destination of a local sink while no call fails: the first of its paths.\<close>

definition local_ready :: "syslog_sink \<Rightarrow> bool" where
  "local_ready s \<longleftrightarrow> sl_paths s \<noteq> [] \<and> (sl_socket s = None \<or> sl_socket s = Some (hd (sl_paths s)))"

definition local_item :: "syslog_sink \<Rightarrow> log_entry \<Rightarrow> bytes \<Rightarrow> (path \<times> bytes) list" where
  "local_item s e bs = [(hd (sl_paths s), syslog_build_packet s (le_level e) (le_timestamp e) bs)]"

definition remote_item :: "remote_sink \<Rightarrow> log_entry \<Rightarrow> bytes \<Rightarrow> (path \<times> bytes) list" where
  "remote_item s e bs =
     [(rs_socket s, build_packet (rs_facility s) (le_level e) (le_timestamp e) (rs_hostname s) (rs_ident s) (rs_pid s) bs)]"

lemma deliver_connected_calm:
  assumes "calm w" "sl_socket s = Some q"
  shows "\<exists>w'. deliver_connected l ts bs s w = (Inr (), s, w') \<and> calm w' \<and>
    w_sent w' = w_sent w @ [(q, syslog_build_packet s l ts bs)]"
  using assms by (simp add: deliver_connected_def Let_def sock_send_calm)

lemma syslog_deliver_calm:
  assumes "local_ready s" "calm w"
  shows "\<exists>w'. syslog_deliver l ts bs s w = (Inr (), s\<lparr>sl_socket := Some (hd (sl_paths s))\<rparr>, w') \<and> calm w' \<and>
    w_sent w' = w_sent w @ [(hd (sl_paths s), syslog_build_packet s l ts bs)]"
proof (cases "sl_socket s")
  case None
  let ?s = "s\<lparr>sl_socket := Some (hd (sl_paths s))\<rparr>" and ?w = "w\<lparr>w_calls := Suc (Suc (w_calls w))\<rparr>"
  have "calm ?w" "sl_socket ?s = Some (hd (sl_paths s))" using assms(2) by simp_all
  from deliver_connected_calm [OF this, of l ts bs] show ?thesis
    using None assms by (simp add: syslog_deliver_def reconnect_calm local_ready_def)
next
  case (Some q)
  then have same: "s\<lparr>sl_socket := Some (hd (sl_paths s))\<rparr> = s" "q = hd (sl_paths s)"
    using assms(1) by (simp_all add: local_ready_def)
  show ?thesis
    using deliver_connected_calm [OF assms(2) Some, of l ts bs] unfolding same
    by (simp add: syslog_deliver_def Some)
qed

interpretation local_output: lossless_logger syslog_entry syslog_flush_op w_sent local_item local_ready ops SyslogSink
  for ops :: "'c sink_ops"
proof unfold_locales
  fix x w e bs assume "local_ready x" "calm w"
  then show "\<exists>x' w'. syslog_entry e bs x w = (Done (Inr ()), x', w') \<and> local_ready x' \<and>
      local_item x' = local_item x \<and> calm w' \<and> w_sent w' = w_sent w @ local_item x e bs"
    using syslog_deliver_calm [of x w "le_level e" "le_timestamp e" bs]
    by (auto simp: syslog_entry_def state_op_def syslog_write_entry_def local_item_def [abs_def] local_ready_def)
next
  fix x w assume "calm w"
  then show "\<exists>w'. syslog_flush_op x w = (Done (Inr ()), x, w') \<and> calm w' \<and> w_sent w' = w_sent w"
    by (simp add: syslog_flush_op_def stream_op_def syslog_flush_def)
qed (simp_all add: only_stderr_def sink_write_entry_def sink_flush_def)

interpretation remote_output: lossless_logger remote_entry remote_flush_op w_sent remote_item "\<lambda>_. True" ops RemoteSyslogSink
  for ops :: "'c sink_ops"
proof unfold_locales
  fix x w e bs assume "calm w"
  then show "\<exists>x' w'. remote_entry e bs x w = (Done (Inr ()), x', w') \<and> True \<and>
      remote_item x' = remote_item x \<and> calm w' \<and> w_sent w' = w_sent w @ remote_item x e bs"
    by (auto simp: remote_entry_def stream_op_def remote_write_entry_def remote_deliver_def Let_def
        sock_send_calm remote_item_def)
next
  fix x w assume "calm w"
  then show "\<exists>w'. remote_flush_op x w = (Done (Inr ()), x, w') \<and> calm w' \<and> w_sent w' = w_sent w"
    by (simp add: remote_flush_op_def stream_op_def remote_flush_def)
qed (simp_all add: only_stderr_def sink_write_entry_def sink_flush_def)

subsection \<open>Loggers over these sinks\<close>

lemma thread_spawn_calm: "calm w \<Longrightarrow> thread_spawn w = (Inr (), w\<lparr>w_calls := Suc (w_calls w)\<rparr>)"
  by (simp add: thread_spawn_def syscall_calm)

text \<open>A logger with one sink that needs no opening.\<close>

lemma single_sink_built:
  assumes "calm w" "build b env ctx w = (Inr s, w')"
    "(if b_sinks b = [] then [(Stdout, Trace)] else b_sinks b) = [(src, Trace)]" "\<And>v. open_source src v = (Inr k, v)"
  shows "s = started (build_inner env b) (b_include_location b) (b_capacity b) [slot_new k Trace] ctx w'"
    "only_stderr w w'"
proof -
  obtain slots w1 where 1: "open_sinks (if b_sinks b = [] then [(Stdout, Trace)] else b_sinks b) w = (Inr slots, w1)"
      "thread_spawn w1 = (Inr (), w')"
      "s = started (build_inner env b) (b_include_location b) (b_capacity b) slots ctx w'"
    by (rule build_cases [OF assms(2)])
  then have "slots = [slot_new k Trace]" "w1 = w" unfolding assms(3) by (simp_all add: assms(4))
  with 1 show "s = started (build_inner env b) (b_include_location b) (b_capacity b) [slot_new k Trace] ctx w'"
    "only_stderr w w'"
    using thread_spawn_calm [OF assms(1)] by (auto simp: only_stderr_def same_files_def)
qed

lemma build_inner_json: "in_json (build_inner env b) = b_json b"
  by (simp add: build_inner_def)

lemma set_single_sink_config [simp]:
  "build_inner env (set_single_sink src b) = build_inner env b"
  "b_include_location (set_single_sink src b) = b_include_location b"
  "b_capacity (set_single_sink src b) = b_capacity b" "b_json (set_single_sink src b) = b_json b"
  "b_sinks (set_single_sink src b) = [(src, Trace)]"
  by (simp_all add: set_single_sink_def build_inner_def choose_filter_def)

lemma build_single_calm:
  assumes "calm w" "b_sinks b = [(src, Trace)]" "\<And>v. open_source src v = (Inr k, v)"
  shows "\<exists>s w'. build b env ctx w = (Inr s, w')"
  using assms(1) by (simp add: build_def assms(2,3) thread_spawn_calm)

subsection \<open>What a syslog server reads\<close>

text \<open>The datagram of a record from a logger of this process, the text of a record, and the packet a server
  should read.\<close>

abbreviation own_hostname :: "process_env \<Rightarrow> rstr" where
  "own_hostname pe \<equiv> read_hostname (pe_etc_hostname pe) (pe_env_hostname pe)"

abbreviation own_ident :: "process_env \<Rightarrow> rstr" where
  "own_ident pe \<equiv> sanitize_ident (default_ident (pe_args pe))"

definition datagram :: "process_env \<Rightarrow> facility \<Rightarrow> bool \<Rightarrow> bool \<Rightarrow> log_entry \<Rightarrow> bytes" where
  "datagram pe f il json e = build_packet f (le_level e) (le_timestamp e) (own_hostname pe) (own_ident pe) (pe_pid pe)
     (format_entry il json e)"

definition entry_text :: "bool \<Rightarrow> bool \<Rightarrow> log_entry \<Rightarrow> rstr" where
  "entry_text il json e = from_utf8_lossy (butlast (format_entry il json e))"

definition packet_of :: "process_env \<Rightarrow> facility \<Rightarrow> bool \<Rightarrow> bool \<Rightarrow> log_entry \<Rightarrow> syslog_packet" where
  "packet_of pe f il json e =
     (let t = le_timestamp e
      in \<lparr>pk_pri = unat (facility_code f) * 8 + unat (level_to_severity (le_level e)), pk_month = ts_month t,
          pk_day = ts_day t, pk_time = (ts_hour t, ts_minute t, ts_second t), pk_host = own_hostname pe,
          pk_tag = own_ident pe, pk_pid = unat (pe_pid pe), pk_msg = entry_text il json e\<rparr>)"

definition packet_fits :: "process_env \<Rightarrow> facility \<Rightarrow> bool \<Rightarrow> bool \<Rightarrow> log_entry \<Rightarrow> bool" where
  "packet_fits pe f il json e \<longleftrightarrow> entry_valid e \<and> valid_timestamp (le_timestamp e) \<and>
     str_len (packet_header f (le_level e) (le_timestamp e) (own_hostname pe) (own_ident pe) (pe_pid pe)) +
       str_len (entry_text il json e) \<le> MAX_SYSLOG_PACKET"

lemma datagram_reads:
  assumes "valid_str (own_hostname pe)" "32 \<notin> set (own_hostname pe)" "packet_fits pe f il json e"
  shows "read_packet (from_utf8_lossy (datagram pe f il json e)) = packet_of pe f il json e"
proof -
  have e: "entry_valid e" "valid_timestamp (le_timestamp e)" using assms(3) by (simp_all add: packet_fits_def)
  obtain line where line: "valid_str line" "format_entry il json e = utf8 line @ [10]"
    using format_entry_utf8 [OF e(1)] by blast
  have txt_line: "entry_text il json e = line" using line by (simp add: entry_text_def)
  have "str_len (packet_header f (le_level e) (le_timestamp e) (own_hostname pe) (own_ident pe) (pe_pid pe)) +
      str_len line \<le> MAX_SYSLOG_PACKET"
    using assms(3) by (simp add: packet_fits_def txt_line)
  moreover have "valid_str (packet_header f (le_level e) (le_timestamp e) (own_hostname pe) (own_ident pe) (pe_pid pe) @ line)"
    using assms(1) line(1) header_valid sanitize_ident_valid by simp
  ultimately have "from_utf8_lossy (datagram pe f il json e) =
      packet_header f (le_level e) (le_timestamp e) (own_hostname pe) (own_ident pe) (pe_pid pe) @ line"
    by (simp only: datagram_def line(2) build_packet_fits [OF _ line(1)] from_utf8_lossy_utf8)
  then show ?thesis
    by (simp only: header_read [OF e(2) assms(2) sanitize_ident_all]) (simp add: packet_of_def Let_def txt_line)
qed

lemma concat_singles: "concat (map (\<lambda>e. [g e]) es) = map g es"
  by (induction es) simp_all

text \<open>The local daemon listens on the first of the three well-known paths.\<close>

theorem flushed_records_reach_local_daemon:
  assumes "calm w" "build (to_syslog pe f b) env ctx w = (Inr s0, w1)" "lreach ops s0 s"
    "a \<in> set (pr_acked s)" "pr_sent s = pre @ msg # post" "ack_of msg = Some a"
  shows "\<exists>later rest. post = later @ rest \<and> w_sent (pr_world s) = w_sent w @
    map (\<lambda>e. (lit ''/dev/log'', datagram pe f (b_include_location b) (b_json b) e)) (records_of pre @ records_of later)"
proof -
  let ?k = "syslog_local pe f (default_ident (pe_args pe))"
  have one: "(if b_sinks (to_syslog pe f b) = [] then [(Stdout, Trace)] else b_sinks (to_syslog pe f b)) = [(Syslog ?k, Trace)]"
    "\<And>v. open_source (Syslog ?k) v = (Inr (SyslogSink ?k), v)"
    by (simp_all add: to_syslog_def open_source_def)
  note s0 = single_sink_built [OF assms(1,2) one]
  have calm: "calm w1" "w_sent w1 = w_sent w" using only_stderr_calm [OF s0(2)] s0(2) assms(1) by (simp_all add: only_stderr_def)
  have ready: "local_ready ?k"
    by (simp add: local_ready_def syslog_local_def syslog_new_def DEFAULT_SYSLOG_SOCKETS_def)
  have item: "local_item ?k e (format_entry il json e) = [(lit ''/dev/log'', datagram pe f il json e)]" for il json e
    by (simp add: local_item_def syslog_local_def syslog_new_def DEFAULT_SYSLOG_SOCKETS_def syslog_build_packet_def
        datagram_def del: lit_simps)
  show ?thesis
    using local_output.acknowledged_in_output [OF ready calm(1) assms(3) [unfolded s0(1)] assms(4-6)]
    by (simp only: output_of_all item calm(2) concat_singles map_append build_inner_json)
      (simp add: to_syslog_def)
qed

subsection \<open>Properties\<close>

text \<open>Claim C11: a logger to standard output (the default when no sink is set), used by any number of
  threads, while no call fails: as soon as a flush or shutdown is acknowledged, standard output has grown
  by every record sent before the request by any thread, formatted, whole, in the order sent, followed
  only by records sent later; nothing else is printed.\<close>

theorem flushed_records_are_printed:
  assumes "calm w" "b_sinks b = [] \<or> b_sinks b = [(Stdout, Trace)]" "build b env ctx w = (Inr s0, w1)"
    "lreach ops s0 s" "a \<in> set (pr_acked s)" "pr_sent s = pre @ msg # post" "ack_of msg = Some a"
  shows "\<exists>later rest. post = later @ rest \<and> w_stdout (pr_world s) = w_stdout w @
    concat (map (format_entry (b_include_location b) (b_json b)) (records_of pre @ records_of later))"
proof -
  have one: "(if b_sinks b = [] then [(Stdout, Trace)] else b_sinks b) = [(Stdout, Trace)]" using assms(2) by auto
  have op: "open_source Stdout v = (Inr StdoutSink, v)" for v by (simp add: open_source_def)
  note s0 = single_sink_built [OF assms(1,3) one op]
  have calm: "calm w1" "w_stdout w1 = w_stdout w" using only_stderr_calm [OF s0(2)] s0(2) assms(1) by (simp_all add: only_stderr_def)
  show ?thesis
    using stdout_output.acknowledged_in_output [OF _ calm(1) assms(4) [unfolded s0(1)] assms(5-7)]
    by (simp only: output_of_all calm(2) map_append concat_append build_inner_json)
qed

text \<open>A new builder in a quiet world.\<close>

lemma quiet_calm: "calm quiet_world"
  by (simp add: calm_def quiet_world_def)

lemma new_builder_config:
  "build_inner Map.empty builder_new = quiet_inner" "b_include_location builder_new" "\<not> b_json builder_new"
  "b_capacity builder_new = 8192" "b_sinks builder_new = []"
  by (simp_all add: build_inner_def builder_new_def builder_default_def quiet_inner_def choose_filter_def
      from_env_def from_env_name_def DEFAULT_CHANNEL_CAPACITY_def)

theorem flushed_records_are_printed_witness:
  "\<exists>s0 w1 s. build builder_new Map.empty ctx_init quiet_world = (Inr s0, w1) \<and> lreach quiet_ops s0 s \<and>
    pr_acked s = [0] \<and> w_stdout (pr_world s) = example_line"
proof -
  let ?b = "builder_new :: unit builder" and ?w = "quiet_world\<lparr>w_calls := Suc (w_calls quiet_world)\<rparr>"
  define s0 :: "unit process" where "s0 = started quiet_inner True 8192 [slot_new StdoutSink Trace] ctx_init ?w"
  have bl: "build ?b Map.empty ctx_init quiet_world = (Inr s0, ?w)"
    by (simp add: build_def new_builder_config open_source_def thread_spawn_calm quiet_calm s0_def)
  have rec: "first_record quiet_inner 1 plain_example ctx_init ?w = example_record"
    by (rule first_example) (simp add: quiet_world_def)
  obtain s where s: "lreach quiet_ops s0 s" "pr_acked s = [0]" "pr_sent s = [MLog example_record, MFlush 0]"
    by (rule stdout_output.flush_arrives [OF _ _ quiet_inner_fresh _ quiet_inner_enabled, where w = ?w and cap = 8192
          and ops = quiet_ops and il = True and l = Trace and ctx = ctx_init])
      (simp_all add: quiet_calm rec [simplified] s0_def)
  have "w_stdout (pr_world s) = example_line"
    using flushed_records_are_printed [OF quiet_calm _ bl s(1), of 0 "[MLog example_record]" "MFlush 0" "[]"] s(2,3)
    by (simp add: new_builder_config format_example_record) (simp add: quiet_world_def)
  with bl s(1,2) show ?thesis by blast
qed

text \<open>Claim C12: nothing has to be flushed for a record to appear. A logger to standard output, used by any
  number of threads, while no call fails and the scheduler is fair: every record sent before any request to
  shut down is on standard output some time later, formatted, whole and in the order sent, whatever the
  callers do in between.\<close>

theorem records_are_printed_eventually:
  assumes "calm w" "b_sinks b = [] \<or> b_sinks b = [(Stdout, Trace)]" "build b env ctx w = (Inr (\<sigma> 0), w1)"
    "fair_run ops \<sigma>" "pr_sent (\<sigma> n) = pre @ post" "\<forall>a. MShutdown a \<notin> set pre"
  shows "\<exists>m later rest. n \<le> m \<and> pr_sent (\<sigma> m) = pre @ later @ rest \<and> w_stdout (pr_world (\<sigma> m)) = w_stdout w @
    concat (map (format_entry (b_include_location b) (b_json b)) (records_of pre @ records_of later))"
proof -
  have one: "(if b_sinks b = [] then [(Stdout, Trace)] else b_sinks b) = [(Stdout, Trace)]" using assms(2) by auto
  have op: "open_source Stdout v = (Inr StdoutSink, v)" for v by (simp add: open_source_def)
  note s0 = single_sink_built [OF assms(1,3) one op]
  have calm: "calm w1" "w_stdout w1 = w_stdout w" using only_stderr_calm [OF s0(2)] s0(2) assms(1) by (simp_all add: only_stderr_def)
  have fresh: "fresh_inner (build_inner env b)" by (simp add: fresh_inner_def build_inner_def)
  obtain m more rest where m: "n \<le> m" "pr_sent (\<sigma> m) = pre @ more @ rest"
    "w_stdout (pr_world (\<sigma> m)) = w_stdout w1 @
      output_of (\<lambda>e bs. bs) (b_include_location b) (in_json (build_inner env b)) Trace (pre @ more)"
    using stdout_output.eventually_in_output [OF _ calm(1) assms(4) s0(1) fresh assms(5)] assms(6) by blast
  have "w_stdout (pr_world (\<sigma> m)) = w_stdout w @
      concat (map (format_entry (b_include_location b) (b_json b)) (records_of pre @ records_of more))"
    unfolding m(3) by (simp add: output_of_all calm(2) build_inner_json)
  with m(1,2) show ?thesis by blast
qed

text \<open>A record is sent, and the writer waits again after it.\<close>

definition single_record :: "act list" where
  "single_record = [ALog 1 plain_example, ACall 1, ACall 1, ACall 1, AWriter, AWriter, AWait]"

theorem records_are_printed_eventually_witness:
  "\<exists>\<sigma> w1 m. build builder_new Map.empty ctx_init quiet_world = (Inr (\<sigma> 0), w1) \<and> fair_run quiet_ops \<sigma> \<and>
    w_stdout (pr_world (\<sigma> 4)) = [] \<and> 4 \<le> m \<and> pr_sent (\<sigma> m) = [MLog example_record] \<and>
    w_stdout (pr_world (\<sigma> m)) = example_line"
proof -
  let ?w = "quiet_world\<lparr>w_calls := Suc (w_calls quiet_world)\<rparr>" and ?slots = "[slot_new StdoutSink Trace]"
  let ?s0 = "started quiet_inner True 8192 ?slots ctx_init ?w :: unit process" and ?b = "builder_new :: unit builder"
  have bl: "build ?b Map.empty ctx_init quiet_world = (Inr ?s0, ?w)"
    by (simp add: build_def new_builder_config open_source_def thread_spawn_calm quiet_calm)
  have rec: "first_record quiet_inner 1 plain_example ctx_init ?w = example_record"
    by (rule first_example) (simp add: quiet_world_def)
  obtain slots w' where step: "writer_step quiet_ops True False (MLog (first_record quiet_inner 1 plain_example ctx_init ?w))
      ?slots (snd (system_now ?w)) = (False, slots, [], w')"
    using stdout_output.writer_step_adds [of "snd (system_now ?w)" quiet_ops True False
        "MLog (first_record quiet_inner 1 plain_example ctx_init ?w)" Trace]
    by (auto simp: quiet_calm system_now_def)
  note run_defs = act_defs single_record_def writer_handle_def chan_wait_def writer_wait_def
  obtain s where s: "acts_run quiet_ops single_record ?s0 = Some s" "\<And>t. pr_calls s t = Idle" "\<not> writer_ready s"
      "writer_wait s = s" "pr_sent s = [MLog (first_record quiet_inner 1 plain_example ctx_init ?w)]"
    using quiet_inner_enabled step by (simp add: run_defs quiet_inner_def writer_ready_def Let_def)
  obtain s4 where s4: "acts_run quiet_ops (take 4 single_record) ?s0 = Some s4" "w_stdout (pr_world s4) = []"
      "pr_sent s4 = [MLog (first_record quiet_inner 1 plain_example ctx_init ?w)]"
    using quiet_inner_enabled by (simp add: run_defs quiet_inner_def Let_def) (simp add: quiet_world_def)
  obtain \<sigma> where \<sigma>: "fair_run quiet_ops \<sigma>" "\<sigma> 0 = ?s0" "\<And>k. acts_run quiet_ops (take k single_record) ?s0 = Some (\<sigma> k)"
    by (rule schedule_fair_run [OF s(1-4)]) (rule that)
  have "\<sigma> 4 = s4" using \<sigma>(3) [of 4] s4(1) by simp
  then have sent: "pr_sent (\<sigma> 4) = [MLog example_record] @ []" "w_stdout (pr_world (\<sigma> 4)) = []"
    using s4(2,3) by (simp_all only: rec append_Nil2)
  obtain m later rest where m: "4 \<le> m" "pr_sent (\<sigma> m) = [MLog example_record] @ later @ rest"
      "w_stdout (pr_world (\<sigma> m)) = w_stdout quiet_world @ concat (map
        (format_entry (b_include_location ?b) (b_json ?b)) (records_of [MLog example_record] @ records_of later))"
    using records_are_printed_eventually [OF quiet_calm _ bl [folded \<sigma>(2)] \<sigma>(1) sent(1)] new_builder_config(5) by auto
  have "\<sigma> (m + 7) = s" using \<sigma>(3) [of "m + 7"] s(1) by (simp add: single_record_def)
  then obtain ms where "[MLog example_record] = pr_sent (\<sigma> m) @ ms"
    using history_grows(2) [OF fair_run_live [OF \<sigma>(1,2) quiet_inner_fresh], of m "m + 7"] s(5) unfolding rec by auto
  then have none: "later = []" "rest = []" by (simp_all add: m(2))
  then have "w_stdout (pr_world (\<sigma> m)) = example_line"
    using m(3) by (simp add: new_builder_config format_example_record) (simp add: quiet_world_def)
  with bl \<sigma>(1,2) sent(2) m(1,2) none show ?thesis by (metis append_Nil2 append_Nil)
qed

text \<open>Claim C13: a logger to a remote syslog server, used by any number of threads, while no call fails: as
  soon as a flush or shutdown is acknowledged, one datagram per record sent before the request by any
  thread, in the order sent, and only some for records sent later, have gone to the first address the host
  resolves to. When records fit, the server reads from each the facility and severity, the time, the host,
  the tag and pid of the process and the text of the record.\<close>

theorem flushed_records_reach_syslog_server:
  assumes "calm w" "to_remote_syslog pe resolve host port f b w = (Inr b', w1)" "build b' env ctx w1 = (Inr s0, w2)"
    "lreach ops s0 s" "a \<in> set (pr_acked s)" "pr_sent s = pre @ msg # post" "ack_of msg = Some a"
    "valid_str (own_hostname pe)" "32 \<notin> set (own_hostname pe)"
    "list_all (packet_fits pe f (b_include_location b) (b_json b)) (records_of (pr_sent s))"
  shows "\<exists>dest others later rest. resolve host port = Inr (dest # others) \<and> post = later @ rest \<and>
    w_sent (pr_world s) = w_sent w @
      map (\<lambda>e. (dest, datagram pe f (b_include_location b) (b_json b) e)) (records_of pre @ records_of later) \<and>
    map (\<lambda>d. read_packet (from_utf8_lossy (snd d))) (drop (length (w_sent w)) (w_sent (pr_world s))) =
      map (packet_of pe f (b_include_location b) (b_json b)) (records_of pre @ records_of later)"
proof -
  let ?il = "b_include_location b" and ?json = "b_json b" and ?ident = "default_ident (pe_args pe)"
  obtain dest others where addrs: "resolve host port = Inr (dest # others)"
    using assms(2) by (auto simp: to_remote_syslog_def split: sum.splits list.splits)
  obtain r where r: "remote_new pe dest f ?ident w = (Inr r, w1)" "b' = set_single_sink (RemoteSyslog r) b"
    using assms(2) by (auto simp: to_remote_syslog_def addrs split: sum.splits prod.splits)
  have new: "r = \<lparr>rs_socket = dest, rs_facility = f, rs_ident = own_ident pe, rs_hostname = own_hostname pe, rs_pid = pe_pid pe\<rparr>"
      "calm w1" "w_sent w1 = w_sent w"
    using r(1) assms(1) by (auto simp: remote_new_def sock_create_def sock_connect_def syscall_calm)
  have one: "(if b_sinks b' = [] then [(Stdout, Trace)] else b_sinks b') = [(RemoteSyslog r, Trace)]"
    "\<And>v. open_source (RemoteSyslog r) v = (Inr (RemoteSyslogSink r), v)"
    by (simp_all add: r(2) open_source_def)
  note s0 = single_sink_built [OF new(2) assms(3) one]
  have calm: "calm w2" "w_sent w2 = w_sent w"
    using only_stderr_calm [OF s0(2)] s0(2) new(2,3) by (simp_all add: only_stderr_def)
  have item: "remote_item r e (format_entry il json e) = [(dest, datagram pe f il json e)]" for il json e
    by (simp add: remote_item_def new(1) datagram_def)
  obtain later rest where 1: "post = later @ rest" "w_sent (pr_world s) = w_sent w @
      map (\<lambda>e. (dest, datagram pe f ?il ?json e)) (records_of pre @ records_of later)"
    using remote_output.acknowledged_in_output [where x = r, OF _ calm(1) assms(4) [unfolded s0(1)] assms(5-7)]
    by (auto simp: output_of_all item calm(2) concat_singles build_inner_json r(2))
  have "list_all (packet_fits pe f ?il ?json) (records_of pre @ records_of later)"
    using assms(7,10) unfolding assms(6) 1(1) by (cases msg) auto
  then have "map (\<lambda>e. read_packet (from_utf8_lossy (datagram pe f ?il ?json e))) (records_of pre @ records_of later) =
      map (packet_of pe f ?il ?json) (records_of pre @ records_of later)"
    using datagram_reads [OF assms(8,9)] by (auto simp: list_all_iff)
  then have "map (\<lambda>d. read_packet (from_utf8_lossy (snd d))) (drop (length (w_sent w)) (w_sent (pr_world s))) =
      map (packet_of pe f ?il ?json) (records_of pre @ records_of later)"
    by (simp add: 1(2) comp_def)
  with 1 addrs show ?thesis by blast
qed

lemma example_datagram:
  assumes "pe = example_env"
  shows "own_hostname pe = lit ''localhost''" "own_ident pe = lit ''xoslog''" "pe_pid pe = 1"
  by (simp_all add: assms example_env_def read_hostname_def default_ident_def sanitize_ident_def ident_char_def
      is_ascii_alphanumeric_def)

lemma example_text: "entry_text True False example_record = lit ''1970-01-01T00:00:00.000000Z [INFO] hi''"
  by (simp add: entry_text_def format_example_record example_line_def del: utf8_simps)

lemma example_fits: "packet_fits example_env Daemon True False example_record"
proof -
  have "packet_header Daemon (le_level example_record) (le_timestamp example_record) (lit ''localhost'') (lit ''xoslog'') 1 =
      lit ''<30>Jan  1 00:00:00 localhost xoslog[1]: ''"
    by (simp add: packet_header_def rfc3164_timestamp_def example_record_def plain_example_def epoch_def MONTHS_def
        facility_code_def level_to_severity_def severity_defs pad_space_def fmt_int_def fmt_int0_def pad_zero_def
        fmt_nat_small fmt_nat_big)
  moreover have "entry_valid example_record" "valid_timestamp (le_timestamp example_record)"
    by (simp_all add: entry_valid_def example_record_def plain_example_def scalar_def valid_timestamp_def
        valid_date_def days_in_month_def epoch_def)
  ultimately show ?thesis
    by (simp add: packet_fits_def example_datagram [OF refl] example_text str_len_ascii MAX_SYSLOG_PACKET_def)
qed

theorem flushed_records_reach_syslog_server_witness:
  "\<exists>b' w1 s0 w2 s. to_remote_syslog example_env (\<lambda>_ _. Inr [lit ''10.0.0.1:514'']) (lit ''logs'') 514 Daemon
      builder_new quiet_world = (Inr b', w1) \<and>
    build b' Map.empty ctx_init w1 = (Inr s0, w2) \<and> lreach quiet_ops s0 s \<and> pr_acked s = [0] \<and>
    map (\<lambda>d. pk_msg (read_packet (from_utf8_lossy (snd d)))) (w_sent (pr_world s)) =
      [lit ''1970-01-01T00:00:00.000000Z [INFO] hi'']"
proof -
  let ?dest = "lit ''10.0.0.1:514''" and ?b = "builder_new :: unit builder"
  let ?resolve = "\<lambda>_ _. Inr [?dest] :: path list io_result"
  define r where "r = \<lparr>rs_socket = ?dest, rs_facility = Daemon, rs_ident = own_ident example_env,
    rs_hostname = own_hostname example_env, rs_pid = pe_pid example_env\<rparr>"
  define w1 where "w1 = quiet_world\<lparr>w_calls := 2\<rparr>"
  define b' where "b' = set_single_sink (RemoteSyslog r) ?b"
  have to: "to_remote_syslog example_env ?resolve (lit ''logs'') 514 Daemon ?b quiet_world = (Inr b', w1)"
    by (simp add: to_remote_syslog_def remote_new_def sock_create_def sock_connect_def syscall_def quiet_world_def
        b'_def r_def w1_def numeral_2_eq_2 del: lit_simps)
  have calm: "calm w1" by (simp add: w1_def quiet_calm)
  define w2 where "w2 = w1\<lparr>w_calls := 3\<rparr>"
  define s0 :: "unit process" where "s0 = started quiet_inner True 8192 [slot_new (RemoteSyslogSink r) Trace] ctx_init w2"
  have bl: "build b' Map.empty ctx_init w1 = (Inr s0, w2)"
    by (simp add: build_def b'_def new_builder_config open_source_def thread_spawn_calm quiet_calm s0_def w2_def w1_def)
  have rec: "first_record quiet_inner 1 plain_example ctx_init w2 = example_record"
    by (rule first_example) (simp add: quiet_world_def w1_def w2_def)
  obtain s where s: "lreach quiet_ops s0 s" "pr_acked s = [0]" "pr_sent s = [MLog example_record, MFlush 0]"
    by (rule remote_output.flush_arrives [OF _ _ quiet_inner_fresh _ quiet_inner_enabled, where x = r and w = w2
          and cap = 8192 and ops = quiet_ops and il = True and l = Trace and ctx = ctx_init])
      (simp_all add: calm w2_def rec [unfolded w2_def, simplified] s0_def)
  have host: "valid_str (own_hostname example_env)" "32 \<notin> set (own_hostname example_env)"
    unfolding example_datagram(1) [OF refl] by (simp_all add: valid_str_def scalar_def)
  have "list_all (packet_fits example_env Daemon (b_include_location ?b) (b_json ?b)) (records_of (pr_sent s))"
    using example_fits by (simp add: s(3) new_builder_config)
  from flushed_records_reach_syslog_server [OF quiet_calm to bl s(1) _ _ _ host this, of 0 "[MLog example_record]" "MFlush 0" "[]"]
  have "map (\<lambda>d. read_packet (from_utf8_lossy (snd d))) (w_sent (pr_world s)) =
      [packet_of example_env Daemon True False example_record]"
    using s(2,3) by (simp add: new_builder_config) (simp add: quiet_world_def datagram_reads [OF host example_fits])
  then have "map pk_msg (map (\<lambda>d. read_packet (from_utf8_lossy (snd d))) (w_sent (pr_world s))) =
      map pk_msg [packet_of example_env Daemon True False example_record]"
    by (rule arg_cong)
  then have "map (\<lambda>d. pk_msg (read_packet (from_utf8_lossy (snd d)))) (w_sent (pr_world s)) =
      [lit ''1970-01-01T00:00:00.000000Z [INFO] hi'']"
    by (simp add: packet_of_def Let_def example_text comp_def del: lit_simps)
  with to bl s(1,2) show ?thesis by (intro exI conjI)
qed

end
