(* ===== verification/Xos_Global.thy ===== *)
theory Xos_Global
  imports Xos_Builder
begin

section \<open>The global logger and the macros (\<open>src/logger.rs\<close>)\<close>

text \<open>
  The process-wide logger, the convenience methods and the macros. What a macro passes to \<open>Logger::log\<close> is a
  value, so that its effect on a running logger can be composed with the call. A formatted message is an
  argument: the formatting is done by the standard library.
\<close>

subsection \<open>The global logger\<close>

text \<open>The \<open>OnceLock\<close>: set once, never changed. A rejected logger comes back.\<close>

definition global :: "'l option \<Rightarrow> 'l option" where
  "global g = g"

definition set_global :: "'l \<Rightarrow> 'l option \<Rightarrow> ('l + unit) \<times> 'l option" where
  "set_global l g = (case g of None \<Rightarrow> (Inr (), Some l) | Some l' \<Rightarrow> (Inl l, Some l'))"

definition init_default ::
  "(rstr \<Rightarrow> rstr option) \<Rightarrow> ctx_state \<Rightarrow> 'c process option \<Rightarrow> world \<Rightarrow> unit io_result \<times> 'c process option \<times> world" where
  "init_default env ctx g w =
     (case build builder_new env ctx w of
        (Inl e, w) \<Rightarrow> (Inl e, g, w)
      | (Inr l, w) \<Rightarrow> (Inr (), snd (set_global l g), w))"

subsection \<open>Convenience methods and macros\<close>

definition logger_message :: "system_time \<Rightarrow> level \<Rightarrow> rstr \<Rightarrow> log_entry" where
  "logger_message now l message = entry_new now l message [] [] 0"

definition logger_trace :: "system_time \<Rightarrow> rstr \<Rightarrow> log_entry" where
  "logger_trace now message = logger_message now Trace message"

definition logger_debug :: "system_time \<Rightarrow> rstr \<Rightarrow> log_entry" where
  "logger_debug now message = logger_message now Debug message"

definition logger_info :: "system_time \<Rightarrow> rstr \<Rightarrow> log_entry" where
  "logger_info now message = logger_message now Info message"

definition logger_warn :: "system_time \<Rightarrow> rstr \<Rightarrow> log_entry" where
  "logger_warn now message = logger_message now Warn message"

definition logger_error :: "system_time \<Rightarrow> rstr \<Rightarrow> log_entry" where
  "logger_error now message = logger_message now Error message"

text \<open>\<open>fields!\<close>: the named values in order.\<close>

definition fields_macro :: "(rstr \<times> field_value) list \<Rightarrow> field list" where
  "fields_macro kvs = map (\<lambda>(k, v). field_new k v) kvs"

text \<open>\<open>log!\<close>: the record it passes to \<open>Logger::log\<close> of the global logger, if any. The module path, the
  file and the line are those of the call; the second form gives the fields.\<close>

definition log_macro ::
  "inner option \<Rightarrow> system_time \<Rightarrow> level \<Rightarrow> rstr \<Rightarrow> rstr \<Rightarrow> u32 \<Rightarrow> rstr \<Rightarrow> log_entry option" where
  "log_macro g now l module_path file_name line_no message =
     (case global g of
        None \<Rightarrow> None
      | Some i \<Rightarrow>
          if is_enabled_for i l module_path then Some (entry_new now l message module_path file_name line_no)
          else None)"

definition log_macro_fields ::
  "inner option \<Rightarrow> system_time \<Rightarrow> level \<Rightarrow> field list \<Rightarrow> rstr \<Rightarrow> rstr \<Rightarrow> u32 \<Rightarrow> rstr \<Rightarrow> log_entry option" where
  "log_macro_fields g now l fs module_path file_name line_no message =
     (case global g of
        None \<Rightarrow> None
      | Some i \<Rightarrow>
          if is_enabled_for i l module_path
          then Some ((entry_new now l message module_path file_name line_no)\<lparr>le_fields := fs\<rparr>)
          else None)"

text \<open>What stands after the level in a macro call: a message, or a list of fields and a message. The macros
  named after a level pass it on to \<open>log!\<close>.\<close>

datatype macro_args = Plain rstr | Structured "field list" rstr

definition log_args ::
  "inner option \<Rightarrow> system_time \<Rightarrow> level \<Rightarrow> macro_args \<Rightarrow> rstr \<Rightarrow> rstr \<Rightarrow> u32 \<Rightarrow> log_entry option" where
  "log_args g now l args module_path file_name line_no = (case args of
     Plain message \<Rightarrow> log_macro g now l module_path file_name line_no message
   | Structured fs message \<Rightarrow> log_macro_fields g now l fs module_path file_name line_no message)"

definition log_trace ::
  "inner option \<Rightarrow> system_time \<Rightarrow> macro_args \<Rightarrow> rstr \<Rightarrow> rstr \<Rightarrow> u32 \<Rightarrow> log_entry option" where
  "log_trace g now args = log_args g now Trace args"

definition log_debug ::
  "inner option \<Rightarrow> system_time \<Rightarrow> macro_args \<Rightarrow> rstr \<Rightarrow> rstr \<Rightarrow> u32 \<Rightarrow> log_entry option" where
  "log_debug g now args = log_args g now Debug args"

definition log_info ::
  "inner option \<Rightarrow> system_time \<Rightarrow> macro_args \<Rightarrow> rstr \<Rightarrow> rstr \<Rightarrow> u32 \<Rightarrow> log_entry option" where
  "log_info g now args = log_args g now Info args"

definition log_warn ::
  "inner option \<Rightarrow> system_time \<Rightarrow> macro_args \<Rightarrow> rstr \<Rightarrow> rstr \<Rightarrow> u32 \<Rightarrow> log_entry option" where
  "log_warn g now args = log_args g now Warn args"

definition log_error ::
  "inner option \<Rightarrow> system_time \<Rightarrow> macro_args \<Rightarrow> rstr \<Rightarrow> rstr \<Rightarrow> u32 \<Rightarrow> log_entry option" where
  "log_error g now args = log_args g now Error args"

subsection \<open>What a program sees of them\<close>

text \<open>Loggers offered to \<open>set_global\<close> one after the other, with the results.\<close>

fun set_globals :: "'l list \<Rightarrow> 'l option \<Rightarrow> ('l + unit) list \<times> 'l option" where
  "set_globals [] g = ([], g)"
| "set_globals (l # ls) g =
     (case set_global l g of (r, g) \<Rightarrow> (case set_globals ls g of (rs, g) \<Rightarrow> (r # rs, g)))"

text \<open>The record the arguments describe.\<close>

definition macro_record ::
  "system_time \<Rightarrow> level \<Rightarrow> macro_args \<Rightarrow> rstr \<Rightarrow> rstr \<Rightarrow> u32 \<Rightarrow> log_entry" where
  "macro_record now l args module_path file_name line_no = (case args of
     Plain message \<Rightarrow> entry_new now l message module_path file_name line_no
   | Structured fs message \<Rightarrow> with_fields (entry_new now l message module_path file_name line_no) fs)"

lemma set_globals_taken: "set_globals ls (Some l) = (map Inl ls, Some l)"
  by (induction ls) (simp_all add: set_global_def)

lemma macro_record_keys: "le_level (macro_record now l args mp fl ln) = l" "le_target (macro_record now l args mp fl ln) = mp"
  by (cases args; simp add: macro_record_def entry_new_def with_fields_def)+

lemma log_args_record:
  "log_args (Some i) now l args mp fl ln =
     (if is_enabled_for i l mp then Some (macro_record now l args mp fl ln) else None)"
  "log_args None now l args mp fl ln = None"
  by (cases args; simp add: log_args_def log_macro_def log_macro_fields_def global_def macro_record_def
      entry_new_def with_fields_def)+

text \<open>Of the loggers offered with \<open>set_global\<close>, in any number and order, the first is installed and stays, each
  later one comes back to its caller, and \<open>init_default\<close> changes nothing either.\<close>

theorem first_global_stays:
  "set_globals ls None = (case ls of [] \<Rightarrow> ([], None) | l # rest \<Rightarrow> (Inr () # map Inl rest, Some l))"
  "fst (snd (init_default env ctx (Some s) w)) = Some s"
  by (cases ls) (simp_all add: set_global_def set_globals_taken init_default_def split: prod.split sum.split)

end
