(* ===== verification/Xos_Macros.thy ===== *)
theory Xos_Macros
  imports Xos_Outputs Xos_Global
begin

section \<open>From a macro to standard output (\<open>src/logger.rs\<close>)\<close>

text \<open>
  The default use of the crate: \<open>init_default\<close> installs a logger, a thread writes \<open>log_info!(...)\<close>, and the line
  is printed. A call is followed from the macro through its guard, the call of \<open>log\<close>, the time stamp, the lock of
  the sender, the queue, the writer and the formatter to the bytes on standard output.
\<close>

subsection \<open>An open logger has no request to shut down\<close>

definition open_inv :: "'c process \<Rightarrow> bool" where
  "open_inv s \<longleftrightarrow> is_closed (pr_inner s) \<or>
     (\<forall>a. MShutdown a \<notin> set (pr_sent s) \<and>
       (\<forall>t. pr_calls s t \<noteq> Locking (MShutdown a) \<and> pr_calls s t \<noteq> Sending (MShutdown a)))"

lemma open_inv_started: "open_inv (started i il cap slots ctx w)"
  by (simp add: open_inv_def started_def)

lemma open_inv_frame:
  "open_inv s \<Longrightarrow> pr_calls s' = pr_calls s \<Longrightarrow> pr_sent s' = pr_sent s \<Longrightarrow>
     is_closed (pr_inner s') = is_closed (pr_inner s) \<Longrightarrow> open_inv s'"
  by (simp add: open_inv_def)

lemma open_inv_call:
  assumes "call_step t s = Some s'" "open_inv s"
  shows "open_inv s'"
  using assms(1) by (cases rule: call_step_cases) (use assms(2) in \<open>auto simp: open_inv_def call_defs\<close>)

lemma open_inv_writer:
  assumes "writer_moves ops s s'" "open_inv s"
  shows "open_inv s'"
  using assms(1)
proof (cases rule: writer_moves_cases)
  case (handle msg)
  show ?thesis
    by (rule writer_handle_cases [of ops s msg]) (simp add: handle(2) open_inv_frame [OF assms(2)])
next
  case exit
  show ?thesis by (rule writer_exit_cases [of ops s]) (simp add: exit(2) open_inv_frame [OF assms(2)])
qed (simp_all add: writer_wait_def open_inv_frame [OF assms(2)])

lemma open_inv_step: "lstep ops s s' \<Longrightarrow> open_inv s \<Longrightarrow> open_inv s'"
proof (induction rule: lstep.induct)
  case (log s t e)
  then show ?case using log_enter_cases [of t e s] by (auto simp: open_inv_def call_defs split: if_splits)
next
  case (call t s s')
  then show ?case by (blast intro: open_inv_call)
next
  case (writer s s')
  then show ?case by (blast intro: open_inv_writer)
qed (auto simp: open_inv_def flush_enter_def shutdown_enter_def fresh_ack_def call_defs)

lemma open_inv_reach: "lreach ops (started i il cap slots ctx w) s \<Longrightarrow> open_inv s"
  by (induction rule: rtranclp_induct) (auto intro: open_inv_started open_inv_step)

text \<open>The flag is never taken back.\<close>

lemma closed_step: "lstep ops s s' \<Longrightarrow> is_closed (pr_inner s) \<Longrightarrow> is_closed (pr_inner s')"
proof (induction rule: lstep.induct)
  case (log s t e)
  then show ?case by (simp add: log_enter_def)
next
  case (call t s s')
  from call(1) show ?case by (cases rule: call_step_cases) (use call(2) in \<open>auto simp: call_defs\<close>)
next
  case (writer s s')
  from writer(1) show ?case
  proof (cases rule: writer_moves_cases)
    case (handle msg)
    show ?thesis by (rule writer_handle_cases [of ops s msg]) (use handle writer(2) in simp)
  next
    case exit
    show ?thesis by (rule writer_exit_cases [of ops s]) (use exit writer(2) in simp)
  qed (use writer(2) in \<open>simp_all add: writer_wait_def\<close>)
qed (simp_all add: flush_enter_def shutdown_enter_def fresh_ack_def call_defs)

lemma closed_forever:
  assumes "fair_run ops \<sigma>" "is_closed (pr_inner (\<sigma> m))"
  shows "is_closed (pr_inner (\<sigma> (m + d)))"
proof (rule run_kept [where I = "\<lambda>s. is_closed (pr_inner s)" and n = m and ops = ops])
  show "is_run ops \<sigma>" using assms(1) by (simp add: fair_run_def)
qed (simp_all add: assms(2) closed_step)

subsection \<open>A call of \<open>log\<close> under a fair scheduler\<close>

text \<open>While nobody shuts the logger down and records are not dropped, the record of a call is sent.\<close>

lemma record_is_sent:
  assumes run: "live_run ops \<sigma>" and alive: "\<And>m. drain_inv (\<sigma> m)" "\<And>m a. MShutdown a \<notin> set (pr_sent (\<sigma> m))"
    and block: "\<And>m. in_backpressure (pr_inner (\<sigma> m)) = Block" and c: "pr_calls (\<sigma> n) t = Stamping e"
  obtains k m where "n \<le> k" "k < m" "pr_sent (\<sigma> (Suc m)) = pr_sent (\<sigma> m) @ [MLog (stamped t e (\<sigma> k))]"
proof -
  obtain k where k: "n \<le> k" "pr_calls (\<sigma> k) t = Stamping e" "call_step t (\<sigma> k) = Some (\<sigma> (Suc k))"
  proof (rule call_taken [OF run c])
    fix m assume "\<And>j. m \<le> j \<Longrightarrow> pr_calls (\<sigma> j) t = Stamping e"
    then show "\<exists>k \<ge> m. call_step t (\<sigma> k) \<noteq> None" by (intro exI [of _ m]) (simp add: call_step_def)
  qed (use that in auto)
  let ?m = "MLog (stamped t e (\<sigma> k))"
  have "\<sigma> (Suc k) = log_stamp t e (\<sigma> k)" using k by (simp add: call_step_def)
  then have "pr_calls (\<sigma> (Suc k)) t = Locking ?m" by simp
  then obtain j where j: "Suc k \<le> j" "pr_calls (\<sigma> j) t = Sending ?m" by (rule locking_taken [OF run])
  obtain m where m: "j \<le> m" "pr_calls (\<sigma> m) t = Sending ?m" "call_step t (\<sigma> m) = Some (\<sigma> (Suc m))"
    by (rule sending_taken [OF run j(2)])
  have st: "steady (\<sigma> m)" by (rule live_steady [OF run])
  then have clones: "pr_clones (\<sigma> m)" using m(2) by (auto simp: steady_def clone_inv_def)
  have up: "ch_alive (pr_chan (\<sigma> m))"
  proof (rule ccontr)
    assume "\<not> ch_alive (pr_chan (\<sigma> m))"
    then have "pr_writer (\<sigma> m) = WStopped" "pr_sent (\<sigma> m) = pr_handled (\<sigma> m) @ pr_discarded (\<sigma> m)"
      using st by (simp_all add: steady_def queue_inv_def)
    then show False using alive(1) [of m] alive(2) [of _ m] clones by (auto simp: drain_inv_def ends_def)
  qed
  from m(3) have "pr_sent (\<sigma> (Suc m)) = pr_sent (\<sigma> m) @ [?m]"
    by (cases rule: call_step_cases) (use m(2) up block [of m] in \<open>auto simp: call_defs ack_of_def\<close>)
  then show thesis using that [of k m] k(1) j(1) m(1) by simp
qed

subsection \<open>The line of a record\<close>

text \<open>The text a macro call should print: time stamp, level, message and, when the file is known, the place.\<close>

definition macro_message :: "macro_args \<Rightarrow> rstr" where
  "macro_message args = (case args of Plain msg \<Rightarrow> msg | Structured fs msg \<Rightarrow> msg)"

definition printed_line :: "system_time \<Rightarrow> rstr \<Rightarrow> rstr \<Rightarrow> rstr \<Rightarrow> rstr \<Rightarrow> u32 \<Rightarrow> rstr" where
  "printed_line now name message mp fl ln =
     display_timestamp (timestamp_now now 0) @ lit '' ['' @ name @ lit ''] '' @ message @
     (if fl = [] then [] else lit '' ('' @ fl @ lit '':'' @ fmt_nat (unat ln) @ lit '' @ '' @ mp @ lit '')'')"

text \<open>The macros with the names of their levels.\<close>

definition level_macros ::
  "(rstr \<times> level \<times> (inner option \<Rightarrow> system_time \<Rightarrow> macro_args \<Rightarrow> rstr \<Rightarrow> rstr \<Rightarrow> u32 \<Rightarrow> log_entry option)) list" where
  "level_macros = [(lit ''TRACE'', Trace, log_trace), (lit ''DEBUG'', Debug, log_debug), (lit ''INFO'', Info, log_info),
     (lit ''WARN'', Warn, log_warn), (lit ''ERROR'', Error, log_error)]"

lemma level_macro:
  assumes "(name, l, mac) \<in> set level_macros"
  shows "level_as_str l = name" "l \<noteq> Off" "mac g now args mp fl ln = log_args g now l args mp fl ln"
  using assms
  by (auto simp: level_macros_def level_as_str_def log_trace_def log_debug_def log_info_def log_warn_def log_error_def)

lemma format_stamped_macro:
  assumes "time_offset_seconds (pr_inner s) = 0"
  shows "format_entry True False (stamped t (macro_record now l args mp fl ln) s) =
    utf8 (printed_line (w_clock (pr_world s) (w_ticks (pr_world s))) (level_as_str l) (macro_message args) mp fl ln) @ [10]"
  using assms
  by (cases args)
    (simp_all add: format_entry_def format_record_def stamped_def merge_context_def macro_record_def entry_new_def
      with_fields_def system_now_def location_def printed_line_def macro_message_def Let_def del: utf8_simps lit_simps)

text \<open>What the default logger takes.\<close>

abbreviation env_or_default :: "(rstr \<Rightarrow> rstr option) \<Rightarrow> target_filter" where
  "env_or_default env \<equiv> (case from_env env of Some f \<Rightarrow> f | None \<Rightarrow> filter_default)"

lemma from_env_wf: "filter_wf (env_or_default env)"
  by (auto simp: from_env_def from_env_name_def split: option.split)

lemma default_config:
  "in_filter (build_inner env builder_new) = env_or_default env" "in_level (build_inner env builder_new) = Info"
  "in_backpressure (build_inner env builder_new) = Block" "time_offset_seconds (build_inner env builder_new) = 0"
  "\<not> in_json (build_inner env builder_new)" "fresh_inner (build_inner env builder_new)"
  "b_include_location builder_new" "\<not> b_json builder_new" "b_sinks builder_new = []"
  by (simp_all add: build_inner_def builder_new_def builder_default_def choose_filter_def fresh_inner_def)

lemma enabled_nearest:
  assumes "in_filter i = f" "filter_wf f" "in_level i = base" "l \<noteq> Off"
  shows "is_enabled_for i l mp \<longleftrightarrow> nearest_level f mp base \<le> l"
  using assms by (simp add: is_enabled_for_def filter_enabled_iff effective_level_nearest)

lemma init_default_build:
  assumes "init_default env ctx None w = (Inr (), Some s0, w1)"
  shows "build builder_new env ctx w = (Inr s0, w1)"
  using assms by (simp add: init_default_def set_global_def split: prod.splits sum.splits)

subsection \<open>Properties\<close>

text \<open>Claim C21: the default way to log. After \<open>init_default\<close>, under a fair scheduler, while no call to the outside
  fails and nobody shuts the logger down, a thread calls one of the five macros. When the nearest module
  directive of the environment variable (\<open>Info\<close> without one) admits the level of the macro, the line with the time
  of the call, the name of that level, the message and the place of the call is printed some time later, after
  everything that was on standard output before, whole. Otherwise the macro builds no record and has no effect.\<close>

theorem macros_reach_standard_output:
  assumes "calm w" "init_default env ctx None w = (Inr (), Some (\<sigma> 0), w1)" "fair_run ops \<sigma>"
    "\<And>m. \<not> is_closed (pr_inner (\<sigma> m))" "(name, l, mac) \<in> set level_macros" "pr_calls (\<sigma> n) t = Idle"
    "\<sigma> (Suc n) = (case mac (Some (pr_inner (\<sigma> n))) now args mp fl ln of None \<Rightarrow> \<sigma> n | Some e \<Rightarrow> log_enter t e (\<sigma> n))"
  shows "if nearest_level (env_or_default env) mp Info \<le> l
    then \<exists>k m before after. n < k \<and> k < m \<and> w_stdout (pr_world (\<sigma> m)) = w_stdout (pr_world (\<sigma> n)) @ before @
      utf8 (printed_line (w_clock (pr_world (\<sigma> k)) (w_ticks (pr_world (\<sigma> k)))) name (macro_message args) mp fl ln) @
      [10] @ after
    else mac (Some (pr_inner (\<sigma> n))) now args mp fl ln = None \<and> \<sigma> (Suc n) = \<sigma> n"
proof -
  let ?b = "builder_new :: 'a builder" and ?i = "build_inner env (builder_new :: 'a builder)"
  let ?e = "macro_record now l args mp fl ln" and ?out = "output_of (\<lambda>e bs. bs) True False Trace"
  have op: "open_source Stdout v = (Inr StdoutSink, v)" for v by (simp add: open_source_def)
  have one: "(if b_sinks ?b = [] then [(Stdout, Trace)] else b_sinks ?b) = [(Stdout, Trace)]" by (simp add: default_config)
  note s0 = single_sink_built [OF assms(1) init_default_build [OF assms(2)] one op]
  have calm: "calm w1" using only_stderr_calm [OF s0(2)] assms(1) by simp
  have start: "\<sigma> 0 = started ?i True (b_capacity ?b) [slot_new StdoutSink Trace] ctx w1"
    using s0(1) by (simp add: default_config)
  note run = fair_run_live [OF assms(3) start default_config(6)]
  have reach: "lreach ops (started ?i True (b_capacity ?b) [slot_new StdoutSink Trace] ctx w1) (\<sigma> m)" for m
    using run_reach [of ops \<sigma> 0 m] assms(3) start by (simp add: fair_run_def)
  have conf: "pr_location (\<sigma> m)" "\<not> pr_json (\<sigma> m)" "in_filter (pr_inner (\<sigma> m)) = env_or_default env"
      "in_level (pr_inner (\<sigma> m)) = Info" "in_backpressure (pr_inner (\<sigma> m)) = Block"
      "time_offset_seconds (pr_inner (\<sigma> m)) = 0" for m
    using same_config_reach [OF reach [of m]] by (simp_all add: same_config_def started_def default_config)
  have quiet: "MShutdown a \<notin> set (pr_sent (\<sigma> m))" for m a
    using open_inv_reach [OF reach [of m]] assms(4) [of m] by (simp add: open_inv_def)
  have guard: "is_enabled_for (pr_inner (\<sigma> n)) l mp \<longleftrightarrow> nearest_level (env_or_default env) mp Info \<le> l"
    by (rule enabled_nearest [OF conf(3) from_env_wf conf(4) level_macro(2) [OF assms(5)]])
  show ?thesis
  proof (cases "nearest_level (env_or_default env) mp Info \<le> l")
    case False
    then show ?thesis using assms(7) guard by (simp add: level_macro(3) [OF assms(5)] log_args_record)
  next
    case True
    then have "\<sigma> (Suc n) = set_call t (Stamping ?e) (\<sigma> n)"
      using assms(4) [of n] assms(7) guard
      by (simp add: level_macro(3) [OF assms(5)] log_args_record log_enter_def macro_record_keys)
    then have "pr_calls (\<sigma> (Suc n)) t = Stamping ?e" by (simp add: set_call_def)
    then obtain k m where k: "Suc n \<le> k" "k < m"
        and sent: "pr_sent (\<sigma> (Suc m)) = pr_sent (\<sigma> m) @ [MLog (stamped t ?e (\<sigma> k))]"
      by (rule record_is_sent [OF run drain_inv_reach [OF reach] quiet conf(5)])
    let ?e' = "stamped t ?e (\<sigma> k)"
    have pre: "pr_sent (\<sigma> (Suc m)) = (pr_sent (\<sigma> m) @ [MLog ?e']) @ []" using sent by simp
    have none: "MShutdown a \<notin> set (pr_sent (\<sigma> m) @ [MLog ?e'])" for a using quiet [of a "Suc m"] sent by simp
    obtain j more where j: "Suc m \<le> j" "w_stdout (pr_world (\<sigma> j)) = w_stdout w1 @
        output_of (\<lambda>e bs. bs) True (in_json ?i) Trace ((pr_sent (\<sigma> m) @ [MLog ?e']) @ more)"
      by (rule stdout_output.eventually_in_output [OF TrueI calm assms(3) start default_config(6) pre none])
    obtain rest where "pr_sent (\<sigma> n) = pr_handled (\<sigma> n) @ rest"
      using live_steady [OF run, of n] by (auto simp: steady_def queue_inv_def mpsc.accounts_def split: if_splits)
    moreover obtain ms where "pr_sent (\<sigma> m) = pr_sent (\<sigma> n) @ ms"
      using history_grows(2) [OF run, of n m] k by auto
    ultimately have old: "pr_sent (\<sigma> m) = pr_handled (\<sigma> n) @ (rest @ ms)" by simp
    have now: "w_stdout (pr_world (\<sigma> n)) = w_stdout w1 @ ?out (pr_handled (\<sigma> n))"
      using stdout_output.carries_reach [OF _ calm reach [of n]] conf(1,2) [of n]
      by (simp add: stdout_output.carries_def)
    have line: "?out [MLog ?e'] = utf8 (printed_line (w_clock (pr_world (\<sigma> k)) (w_ticks (pr_world (\<sigma> k)))) name
        (macro_message args) mp fl ln) @ [10]"
      by (simp add: output_of_all records_of_def format_stamped_macro [OF conf(6)] level_macro(1) [OF assms(5)]
          del: output_of_simps)
    have "w_stdout (pr_world (\<sigma> j)) = w_stdout (pr_world (\<sigma> n)) @ ?out (rest @ ms) @ ?out [MLog ?e'] @ ?out more"
      unfolding j(2) now old by (simp add: default_config)
    then have "w_stdout (pr_world (\<sigma> j)) = w_stdout (pr_world (\<sigma> n)) @ ?out (rest @ ms) @
        utf8 (printed_line (w_clock (pr_world (\<sigma> k)) (w_ticks (pr_world (\<sigma> k)))) name (macro_message args) mp fl ln) @
        [10] @ ?out more"
      unfolding line by simp
    moreover have "n < k" "k < j" using k j(1) by simp_all
    ultimately show ?thesis using True by (simp only: if_True) blast
  qed
qed

text \<open>A thread calls \<open>log_warn!\<close>, and the writer waits again after it.\<close>

definition warning :: log_entry where
  "warning = macro_record 0 Warn (Plain (lit ''hi'')) (lit ''app'') (lit ''main.rs'') 7"

definition single_warning :: "act list" where
  "single_warning = [ALog 1 warning, ACall 1, ACall 1, ACall 1, AWriter, AWriter, AWait]"

theorem macros_reach_standard_output_witness:
  "\<exists>\<sigma> w1 k m before after. init_default Map.empty ctx_init None quiet_world = (Inr (), Some (\<sigma> 0), w1) \<and>
     fair_run quiet_ops \<sigma> \<and> 0 < k \<and> k < m \<and>
     \<sigma> 1 = log_enter 1 warning (\<sigma> 0) \<and>
     w_stdout (pr_world (\<sigma> m)) = before @ utf8 (printed_line (w_clock (pr_world (\<sigma> k)) (w_ticks (pr_world (\<sigma> k))))
       (lit ''WARN'') (lit ''hi'') (lit ''app'') (lit ''main.rs'') 7) @ [10] @ after"
proof -
  let ?w = "quiet_world\<lparr>w_calls := Suc (w_calls quiet_world)\<rparr>" and ?slots = "[slot_new StdoutSink Trace]"
  let ?s0 = "started quiet_inner True 8192 ?slots ctx_init ?w :: unit process"
  have bl: "build (builder_new :: unit builder) Map.empty ctx_init quiet_world = (Inr ?s0, ?w)"
    by (simp add: build_def new_builder_config open_source_def thread_spawn_calm quiet_calm)
  then have init: "init_default Map.empty ctx_init None quiet_world = (Inr (), Some ?s0, ?w)"
    by (simp add: init_default_def set_global_def)
  have on: "is_enabled_for quiet_inner (le_level warning) (le_target warning)"
    by (simp add: warning_def macro_record_keys is_enabled_for_def quiet_inner_def level_order_defs)
  let ?e = "first_record quiet_inner 1 warning ctx_init ?w"
  obtain slots w' where step: "writer_step quiet_ops True False (MLog ?e) ?slots (snd (system_now ?w)) = (False, slots, [], w')"
    using stdout_output.writer_step_adds [of "snd (system_now ?w)" quiet_ops True False "MLog ?e" Trace]
    by (auto simp: quiet_calm system_now_def)
  note run_defs = act_defs single_warning_def writer_handle_def chan_wait_def writer_wait_def
  obtain s where s: "acts_run quiet_ops single_warning ?s0 = Some s" "\<And>t. pr_calls s t = Idle" "\<not> writer_ready s"
      "writer_wait s = s" "\<not> is_closed (pr_inner s)"
    using on step by (simp add: run_defs quiet_inner_def writer_ready_def Let_def)
  obtain \<sigma> where \<sigma>: "fair_run quiet_ops \<sigma>" "\<sigma> 0 = ?s0" "\<And>k. acts_run quiet_ops (take k single_warning) ?s0 = Some (\<sigma> k)"
    by (rule schedule_fair_run [OF s(1-4)]) (rule that)
  have opened: "\<not> is_closed (pr_inner (\<sigma> m))" for m
  proof
    assume "is_closed (pr_inner (\<sigma> m))"
    then have "is_closed (pr_inner (\<sigma> (m + 7)))" using closed_forever \<sigma>(1) by blast
    moreover have "\<sigma> (m + 7) = s" using \<sigma>(3) [of "m + 7"] s(1) by (simp add: single_warning_def)
    ultimately show False using s(5) by simp
  qed
  have one: "\<sigma> 1 = log_enter 1 warning (\<sigma> 0)"
    using \<sigma>(3) [of 1] by (simp add: single_warning_def act_step_def \<sigma>(2) started_def)
  moreover have "log_warn (Some (pr_inner (\<sigma> 0))) 0 (Plain (lit ''hi'')) (lit ''app'') (lit ''main.rs'') 7 = Some warning"
    using on by (simp add: log_warn_def log_args_record \<sigma>(2) started_def warning_def macro_record_keys)
  ultimately have call: "\<sigma> (Suc 0) = (case log_warn (Some (pr_inner (\<sigma> 0))) 0 (Plain (lit ''hi'')) (lit ''app'') (lit ''main.rs'') 7 of
      None \<Rightarrow> \<sigma> 0 | Some e \<Rightarrow> log_enter 1 e (\<sigma> 0))" by simp
  have "nearest_level (env_or_default Map.empty) (lit ''app'') Info \<le> Warn"
    using on enabled_nearest [of quiet_inner "env_or_default Map.empty" Info Warn "lit ''app''"]
    by (simp add: from_env_wf quiet_inner_def from_env_def from_env_name_def warning_def macro_record_keys)
  then obtain k m before after where "0 < k" "k < m" "w_stdout (pr_world (\<sigma> m)) = w_stdout (pr_world (\<sigma> 0)) @ before @
      utf8 (printed_line (w_clock (pr_world (\<sigma> k)) (w_ticks (pr_world (\<sigma> k)))) (lit ''WARN'') (lit ''hi'') (lit ''app'')
        (lit ''main.rs'') 7) @ [10] @ after"
    using macros_reach_standard_output [where mac = log_warn and n = 0 and \<sigma> = \<sigma> and name = "lit ''WARN''" and l = Warn
        and t = 1 and now = 0 and args = "Plain (lit ''hi'')" and mp = "lit ''app''" and fl = "lit ''main.rs''" and ln = 7,
        OF quiet_calm init [folded \<sigma>(2)] \<sigma>(1) opened _ _ call]
    by (auto simp: level_macros_def \<sigma>(2) started_def macro_message_def simp del: lit_simps utf8_simps)
  moreover have "w_stdout (pr_world (\<sigma> 0)) = []" by (simp add: \<sigma>(2) started_def quiet_world_def)
  ultimately show ?thesis using init \<sigma>(1,2) one by (metis append_Nil)
qed

end
