(* ===== verification/Xos_Fanout.thy ===== *)
theory Xos_Fanout
  imports Xos_Guarantees
begin

section \<open>Several sinks behind one writer (\<open>src/logger.rs\<close>)\<close>

text \<open>
  What one sink sees of the records when other sinks behind the same writer fail, unwind, are degraded or
  divert to standard error: \<open>add_sink\<close> promises that every sink is independent of the others.
\<close>

subsection \<open>One slot of many\<close>

lemma slots_write_nth:
  "slots_write ops e buf slots w = (slots', w') \<Longrightarrow> k < length slots \<Longrightarrow>
     length slots' = length slots \<and> (\<exists>w1. slots' ! k = fst (slot_write ops e buf (slots ! k) w1))"
proof (induction slots arbitrary: w slots' w' k)
  case (Cons slot slots)
  obtain slot1 w1 where 1: "slot_write ops e buf slot w = (slot1, w1)" by (cases "slot_write ops e buf slot w")
  obtain slots2 w2 where 2: "slots_write ops e buf slots w1 = (slots2, w2)" by (cases "slots_write ops e buf slots w1")
  have res: "slots' = slot1 # slots2" using Cons.prems(1) 1 2 by simp
  have len: "length slots2 = length slots"
    using 2 by (induction slots arbitrary: w1 slots2) (auto split: prod.splits)
  show ?case
  proof (cases k)
    case 0
    have "slot1 = fst (slot_write ops e buf slot w)" using 1 by simp
    then show ?thesis using 0 res len by auto
  next
    case (Suc m)
    then show ?thesis using Cons.IH [OF 2, of m] Cons.prems(2) res len by simp
  qed
qed simp

lemma slots_flush_nth:
  "slots_flush ops slots w = (Done (), slots', w') \<Longrightarrow> k < length slots \<Longrightarrow>
     length slots' = length slots \<and>
     (\<exists>w1. slots' ! k = (slots ! k)\<lparr>slot_sink := fst (snd (sink_flush ops (slot_sink (slots ! k)) w1))\<rparr>)"
proof (induction slots arbitrary: w slots' w' k)
  case (Cons slot slots)
  obtain r s w1 where 1: "sink_flush ops (slot_sink slot) w = (r, s, w1)" by (cases "sink_flush ops (slot_sink slot) w")
  obtain x where "r = Done x" using Cons.prems(1) 1 by (cases r) auto
  then obtain slots2 where 2: "slots_flush ops slots w1 = (Done (), slots2, w')" "slots' = slot\<lparr>slot_sink := s\<rparr> # slots2"
    using Cons.prems(1) 1 by (auto split: prod.splits)
  have len: "length slots2 = length slots" if "slots \<noteq> []"
    using Cons.IH [OF 2(1), of 0] that by simp
  have len: "length slots2 = length slots"
    using len 2(1) by (cases slots) auto
  show ?case
  proof (cases k)
    case 0
    have "s = fst (snd (sink_flush ops (slot_sink slot) w))" using 1 by simp
    then show ?thesis using 0 2(2) len by auto
  next
    case (Suc m)
    then show ?thesis using Cons.IH [OF 2(1), of m] Cons.prems(2) 2(2) len by simp
  qed
qed simp

lemma slots_flush_done:
  assumes "flush_returns ops" "slots_flush ops slots w = (r, slots', w')"
  shows "r = Done ()"
  using slots_flush_returns [OF assms(1), of slots w] assms(2) by (cases r) auto

subsection \<open>A sink that accepts every record\<close>

text \<open>A caller's sink in a good state accepts a record, stays good and has then seen the record and the
  formatted bytes it was given; a flush changes nothing of that.\<close>

definition healthy :: "'c sink_ops \<Rightarrow> ('c \<Rightarrow> bool) \<Rightarrow> ('c \<Rightarrow> (log_entry \<times> bytes) list) \<Rightarrow> bool" where
  "healthy ops good seen \<longleftrightarrow>
     (\<forall>e bs c w. good c \<longrightarrow> (case op_write_entry ops e bs c w of (r, c', w') \<Rightarrow>
        r = Done (Inr ()) \<and> good c' \<and> seen c' = seen c @ [(e, bs)])) \<and>
     (\<forall>c w. good c \<longrightarrow> (case op_flush ops c w of (r, c', w') \<Rightarrow> good c' \<and> seen c' = seen c))"

lemma healthy_write:
  assumes "healthy ops good seen" "good c"
  obtains c' w' where "op_write_entry ops e bs c w = (Done (Inr ()), c', w')" "good c'" "seen c' = seen c @ [(e, bs)]"
proof -
  obtain r c' w' where run: "op_write_entry ops e bs c w = (r, c', w')" by (cases "op_write_entry ops e bs c w")
  have "case op_write_entry ops e bs c w of (r, c', w') \<Rightarrow> r = Done (Inr ()) \<and> good c' \<and> seen c' = seen c @ [(e, bs)]"
    by (rule assms(1) [unfolded healthy_def, THEN conjunct1, rule_format, OF assms(2)])
  then show thesis using that run by simp
qed

lemma healthy_flush:
  assumes "healthy ops good seen" "good c"
  obtains r c' w' where "op_flush ops c w = (r, c', w')" "good c'" "seen c' = seen c"
proof -
  obtain r c' w' where run: "op_flush ops c w = (r, c', w')" by (cases "op_flush ops c w")
  have "case op_flush ops c w of (r, c', w') \<Rightarrow> good c' \<and> seen c' = seen c"
    by (rule assms(1) [unfolded healthy_def, THEN conjunct2, rule_format, OF assms(2)])
  then show thesis using that run by simp
qed

lemma healthy_slot_write:
  assumes "healthy ops good seen" "good c"
  obtains c' where "fst (slot_write ops e buf (slot_new (CustomSink c) l) w) = slot_new (CustomSink c') l" "good c'"
    "seen c' = seen c @ (if l \<le> le_level e then [(e, buf)] else [])"
proof (cases "l \<le> le_level e")
  case True
  obtain c' w' where "op_write_entry ops e buf c w = (Done (Inr ()), c', w')" "good c'" "seen c' = seen c @ [(e, buf)]"
    by (rule healthy_write [OF assms])
  then show thesis
    using True by (intro that [of c'])
      (simp_all add: slot_write_def slot_new_def sink_write_entry_def wrap_sink_def Let_def leD)
next
  case False
  then show thesis using assms(2) by (intro that [of c]) (simp_all add: slot_write_def slot_new_def)
qed

lemma healthy_slot_flush:
  assumes "healthy ops good seen" "good c"
  obtains c' where "(slot_new (CustomSink c) l)\<lparr>slot_sink :=
      fst (snd (sink_flush ops (slot_sink (slot_new (CustomSink c) l)) w))\<rparr> = slot_new (CustomSink c') l"
    "good c'" "seen c' = seen c"
proof -
  obtain r c' w' where "op_flush ops c w = (r, c', w')" "good c'" "seen c' = seen c"
    by (rule healthy_flush [OF assms])
  then show thesis by (intro that [of c']) (simp_all add: slot_new_def sink_flush_def wrap_sink_def)
qed

text \<open>Slot \<open>k\<close> holds such a sink, which has seen the given records.\<close>

definition slot_sees ::
  "('c \<Rightarrow> bool) \<Rightarrow> ('c \<Rightarrow> (log_entry \<times> bytes) list) \<Rightarrow> level \<Rightarrow> 'c sink_slot list \<Rightarrow> nat \<Rightarrow> (log_entry \<times> bytes) list \<Rightarrow> bool" where
  "slot_sees good seen l slots k rs \<longleftrightarrow>
     k < length slots \<and> (\<exists>c. slots ! k = slot_new (CustomSink c) l \<and> good c \<and> seen c = rs)"

definition offered :: "bool \<Rightarrow> bool \<Rightarrow> level \<Rightarrow> message list \<Rightarrow> (log_entry \<times> bytes) list" where
  "offered il json l ms = map (\<lambda>e. (e, format_entry il json e)) (filter (\<lambda>e. l \<le> le_level e) (records_of ms))"

lemma slot_sees_flush:
  assumes "healthy ops good seen" "slot_sees good seen l slots k rs" "slots_flush ops slots w = (Done (), slots', w')"
  shows "slot_sees good seen l slots' k rs"
proof -
  obtain c where c: "k < length slots" "slots ! k = slot_new (CustomSink c) l" "good c" "seen c = rs"
    using assms(2) by (auto simp: slot_sees_def)
  obtain w1 where len: "length slots' = length slots"
    and "slots' ! k = (slots ! k)\<lparr>slot_sink := fst (snd (sink_flush ops (slot_sink (slots ! k)) w1))\<rparr>"
    using slots_flush_nth [OF assms(3) c(1)] by blast
  moreover obtain c' where "(slot_new (CustomSink c) l)\<lparr>slot_sink :=
      fst (snd (sink_flush ops (slot_sink (slot_new (CustomSink c) l)) w1))\<rparr> = slot_new (CustomSink c') l"
    "good c'" "seen c' = seen c"
    by (rule healthy_slot_flush [OF assms(1) c(3)])
  ultimately have "slots' ! k = slot_new (CustomSink c') l" "good c'" "seen c' = rs" using c by simp_all
  then show ?thesis using len c(1) by (auto simp: slot_sees_def)
qed

lemma slot_sees_step:
  assumes "healthy ops good seen" "flush_returns ops" "slot_sees good seen l slots k rs"
    "writer_step ops il json msg slots w = (stop, slots', acks, w')"
  shows "slot_sees good seen l slots' k (rs @ offered il json l [msg])"
proof (cases msg)
  case (MLog e)
  let ?buf = "format_entry il json e"
  obtain c where c: "k < length slots" "slots ! k = slot_new (CustomSink c) l" "good c" "seen c = rs"
    using assms(3) by (auto simp: slot_sees_def)
  have "slots_write ops e ?buf slots w = (slots', w')"
    using assms(4) MLog by (auto simp: writer_step_log split: prod.splits)
  then obtain w1 where len: "length slots' = length slots" and "slots' ! k = fst (slot_write ops e ?buf (slots ! k) w1)"
    using slots_write_nth c(1) by metis
  moreover obtain c' where "fst (slot_write ops e ?buf (slot_new (CustomSink c) l) w1) = slot_new (CustomSink c') l"
    "good c'" "seen c' = seen c @ (if l \<le> le_level e then [(e, ?buf)] else [])"
    by (rule healthy_slot_write [OF assms(1) c(3)])
  ultimately have "slots' ! k = slot_new (CustomSink c') l" "good c'" "seen c' = rs @ offered il json l [msg]"
    using c MLog by (simp_all add: offered_def)
  then show ?thesis using len c(1) by (auto simp: slot_sees_def)
next
  case (MFlush a)
  obtain r slots1 w1 where fl: "slots_flush ops slots w = (r, slots1, w1)" by (cases "slots_flush ops slots w")
  note fl = fl [unfolded slots_flush_done [OF assms(2) fl]]
  have "slots' = slots1" using assms(4) fl MFlush by (simp add: writer_step_def handle_message_def)
  then show ?thesis using slot_sees_flush [OF assms(1,3) fl] MFlush by (simp add: offered_def)
next
  case (MShutdown a)
  obtain r slots1 w1 where fl: "slots_flush ops slots w = (r, slots1, w1)" by (cases "slots_flush ops slots w")
  note fl = fl [unfolded slots_flush_done [OF assms(2) fl]]
  have "slots' = slots1" using assms(4) fl MShutdown by (simp add: writer_step_def handle_message_def)
  then show ?thesis using slot_sees_flush [OF assms(1,3) fl] MShutdown by (simp add: offered_def)
qed

subsection \<open>Through the whole run\<close>

lemma slot_sees_writer:
  assumes "writer_moves ops s s'" "healthy ops good seen" "flush_returns ops"
    "slot_sees good seen l (pr_slots s) k (rs @ offered (pr_location s) (pr_json s) l (pr_handled s))"
  shows "slot_sees good seen l (pr_slots s') k (rs @ offered (pr_location s') (pr_json s') l (pr_handled s'))"
  using assms(1)
proof (cases rule: writer_moves_cases)
  case (handle msg)
  obtain stop slots acks w where
    1: "writer_step ops (pr_location s) (pr_json s) msg (pr_slots s) (pr_world s) = (stop, slots, acks, w)" and
    2: "writer_handle ops msg s = s\<lparr>pr_slots := slots, pr_world := w, pr_acked := pr_acked s @ acks,
       pr_handled := pr_handled s @ [msg], pr_writer := (if stop then WStopping else WIdle)\<rparr>"
    by (rule writer_handle_cases)
  show ?thesis
    using slot_sees_step [OF assms(2-4) 1] by (simp add: handle(2) 2 offered_def)
next
  case exit
  obtain r slots w where fl: "slots_flush ops (pr_slots s) (pr_world s) = (r, slots, w)"
    and ex: "writer_exit ops s = s\<lparr>pr_slots := slots, pr_world := w, pr_discarded := ch_queue (pr_chan s),
       pr_chan := chan_close (pr_chan s), pr_writer := WStopped\<rparr>"
    by (rule writer_exit_cases)
  show ?thesis
    using slot_sees_flush [OF assms(2,4) fl [unfolded slots_flush_done [OF assms(3) fl]]] by (simp add: exit(2) ex)
qed (use assms(4) in \<open>simp_all add: writer_wait_def\<close>)

lemma call_step_slots:
  assumes "call_step t s = Some s'"
  shows "pr_slots s' = pr_slots s" "pr_location s' = pr_location s" "pr_json s' = pr_json s"
    "pr_handled s' = pr_handled s"
  using assms by (cases rule: call_step_cases; simp add: call_defs)+

lemma slot_sees_lstep:
  "lstep ops s s' \<Longrightarrow> healthy ops good seen \<Longrightarrow> flush_returns ops \<Longrightarrow>
   slot_sees good seen l (pr_slots s) k (rs @ offered (pr_location s) (pr_json s) l (pr_handled s)) \<Longrightarrow>
   slot_sees good seen l (pr_slots s') k (rs @ offered (pr_location s') (pr_json s') l (pr_handled s'))"
proof (induction rule: lstep.induct)
  case (log s t e)
  then show ?case using log_enter_cases [of t e s] by (auto simp: call_defs)
next
  case (call t s s')
  then show ?case by (simp add: call_step_slots [OF call(1)])
next
  case (writer s s')
  show ?case by (rule slot_sees_writer [OF writer])
qed (simp_all add: flush_enter_def shutdown_enter_def fresh_ack_def call_defs)

lemma slot_sees_reach:
  "lreach ops s s' \<Longrightarrow> healthy ops good seen \<Longrightarrow> flush_returns ops \<Longrightarrow>
   slot_sees good seen l (pr_slots s) k (rs @ offered (pr_location s) (pr_json s) l (pr_handled s)) \<Longrightarrow>
   slot_sees good seen l (pr_slots s') k (rs @ offered (pr_location s') (pr_json s') l (pr_handled s'))"
  by (induction rule: rtranclp_induct) (blast intro: slot_sees_lstep)+

subsection \<open>Properties\<close>

text \<open>Claim C17: sinks are independent as long as no flush of a caller's sink unwinds (one that does degrades
  all of them). A caller's sink that accepts every record, at any place among any other sinks, has then at every
  moment been given exactly the handled records at or above its level, each once, in order, with the formatted
  bytes, and is never degraded, though the other sinks may fail, unwind while writing, or be degraded.\<close>

theorem healthy_sink_gets_every_record:
  assumes "healthy ops good seen" "flush_returns ops" "k < length slots" "slots ! k = slot_new (CustomSink c) l"
    "good c" "lreach ops (started i il cap slots ctx w) s"
  shows "\<exists>c'. pr_slots s ! k = slot_new (CustomSink c') l \<and> good c' \<and>
    seen c' = seen c @ map (\<lambda>e. (e, format_entry il (in_json i) e))
      (filter (\<lambda>e. l \<le> le_level e) (records_of (pr_handled s)))"
proof -
  let ?s0 = "started i il cap slots ctx w"
  have "slot_sees good seen l (pr_slots ?s0) k (seen c @ offered (pr_location ?s0) (pr_json ?s0) l (pr_handled ?s0))"
    using assms(3-5) unfolding slot_sees_def by (auto simp: started_def offered_def)
  from slot_sees_reach [OF assms(6,1,2) this]
  have "slot_sees good seen l (pr_slots s) k (seen c @ offered (pr_location s) (pr_json s) l (pr_handled s))" .
  moreover have "pr_location s = il" "pr_json s = in_json i"
    using same_config_reach [OF assms(6)] by (simp_all add: same_config_def started_def)
  ultimately show ?thesis by (auto simp: slot_sees_def offered_def)
qed

text \<open>Two kinds of sinks: one unwinds on every record, the other records what it is given.\<close>

definition mixed_ops :: "(log_entry \<times> bytes) list option sink_ops" where
  "mixed_ops = \<lparr>op_write_entry = (\<lambda>e bs c w. case c of None \<Rightarrow> (Panicked, c, w)
       | Some rs \<Rightarrow> (Done (Inr ()), Some (rs @ [(e, bs)]), w)),
     op_flush = (\<lambda>c w. (Done (Inr ()), c, w))\<rparr>"

lemma mixed_ops_healthy: "healthy mixed_ops (\<lambda>c. c \<noteq> None) the" "flush_returns mixed_ops"
  by (auto simp: healthy_def mixed_ops_def flush_returns_def)

theorem healthy_sink_gets_every_record_witness:
  "\<exists>s e. lreach mixed_ops (started quiet_inner True 2
       [slot_new (CustomSink None) Trace, slot_new (CustomSink (Some [])) Info] ctx_init quiet_world) s \<and>
     pr_handled s = [MLog e] \<and> le_message e = lit ''hi'' \<and>
     pr_slots s ! 1 = slot_new (CustomSink (Some [(e, format_entry True False e)])) Info"
proof -
  let ?slots = "[slot_new (CustomSink None) Trace, slot_new (CustomSink (Some [])) Info]"
  let ?e = "first_record quiet_inner 1 plain_example ctx_init quiet_world"
  obtain s1 where s1: "acts_run mixed_ops (flushing_acts plain_example)
        (started quiet_inner True 2 ?slots ctx_init quiet_world) = Some s1"
      "pr_writer s1 = WBusy (MLog ?e)" "pr_handled s1 = []"
    by (rule flushing_run [OF quiet_inner_fresh order_refl quiet_inner_enabled, where ops = mixed_ops and il = True
          and slots = ?slots and ctx = ctx_init and w = quiet_world]) (rule that)
  define s where "s = writer_handle mixed_ops (MLog ?e) s1"
  have "lstep mixed_ops s1 s" unfolding s_def by (rule lstep.writer [OF handle_moves [OF s1(2)]])
  then have reach: "lreach mixed_ops (started quiet_inner True 2 ?slots ctx_init quiet_world) s"
    using acts_run_lreach [OF s1(1)] by (rule rtranclp.rtrancl_into_rtrancl [rotated])
  have handled: "pr_handled s = [MLog ?e]"
    by (rule writer_handle_cases [of mixed_ops s1 "MLog ?e"]) (simp add: s_def s1(3))
  have level: "Info \<le> le_level ?e"
    by (simp add: first_record_def merge_context_def plain_example_def)
  obtain c where "pr_slots s ! 1 = slot_new (CustomSink c) Info" "c \<noteq> None"
      "the c = [(?e, format_entry True False ?e)]"
    using healthy_sink_gets_every_record [OF mixed_ops_healthy, of 1 ?slots "Some []" Info, OF _ _ _ reach] handled level
    by (auto simp: quiet_inner_def)
  moreover have "le_message ?e = lit ''hi''" by (simp add: plain_example_def)
  ultimately show ?thesis using reach handled by (cases c) auto
qed

end
