(* ===== verification/Xos_Degradation.thy ===== *)
theory Xos_Degradation
  imports Xos_Fanout
begin

section \<open>Failing and degraded sinks (\<open>src/logger.rs\<close>)\<close>

text \<open>
  When the slot of a sink is degraded, and where its records go then, in every interleaving of the
  callers and the writer: through records, flushes, requests to shut down, flushes that unwind and the
  final flush of the thread.
\<close>

subsection \<open>One slot in one turn of the writer\<close>

definition attempted :: "log_entry \<Rightarrow> 'c sink_slot \<Rightarrow> bool" where
  "attempted e slot \<longleftrightarrow> \<not> le_level e < min_level slot \<and> \<not> degraded slot"

definition accepted :: "'c sink_ops \<Rightarrow> log_entry \<Rightarrow> bytes \<Rightarrow> 'c sink_slot \<Rightarrow> world \<Rightarrow> bool" where
  "accepted ops e buf slot w \<longleftrightarrow> fst (sink_write_entry ops e buf (slot_sink slot) w) = Done (Inr ())"

lemma slot_write_cases:
  obtains (skipped) "\<not> attempted e slot" "fst (slot_write ops e buf slot w) = slot"
  | (ok) s where "attempted e slot" "accepted ops e buf slot w"
      "fst (slot_write ops e buf slot w) = slot\<lparr>slot_sink := s, consecutive_errors := 0\<rparr>"
  | (failed) s where "attempted e slot" "\<not> accepted ops e buf slot w"
      "fst (slot_write ops e buf slot w) = slot\<lparr>slot_sink := s, consecutive_errors := consecutive_errors slot + 1,
         degraded := consecutive_errors slot + 1 \<ge> 8\<rparr>"
proof -
  obtain r s w1 where run: "sink_write_entry ops e buf (slot_sink slot) w = (r, s, w1)"
    by (cases "sink_write_entry ops e buf (slot_sink slot) w")
  show thesis
  proof (cases "attempted e slot")
    case False
    then show thesis by (intro skipped) (auto simp: attempted_def slot_write_def)
  next
    case True
    then have at: "\<not> le_level e < min_level slot" "\<not> degraded slot" by (simp_all add: attempted_def)
    show thesis
    proof (cases "\<exists>u. r = Done (Inr u)")
      case True
      then show thesis
        using at run by (intro ok) (auto simp: attempted_def accepted_def slot_write_def Let_def)
    next
      case False
      have "fst (slot_write ops e buf slot w) = slot\<lparr>slot_sink := s, consecutive_errors := consecutive_errors slot + 1,
         degraded := consecutive_errors slot + 1 \<ge> 8\<rparr>"
        using at run False
        by (cases slot; cases r rule: outcome.exhaust)
          (auto simp: slot_write_def Let_def MAX_CONSECUTIVE_WRITE_ERRORS_def split: sum.split)
      then show thesis
        using at run False by (intro failed) (auto simp: attempted_def accepted_def)
    qed
  qed
qed

text \<open>The slot at a place, in the world the slots before it leave behind.\<close>

lemma slots_write_at:
  "slots_write ops e buf slots w = (slots', w') \<Longrightarrow> k < length slots \<Longrightarrow>
     slots' ! k = fst (slot_write ops e buf (slots ! k) (snd (slots_write ops e buf (take k slots) w)))"
proof (induction slots arbitrary: w slots' w' k)
  case (Cons slot slots)
  obtain slot1 w1 where 1: "slot_write ops e buf slot w = (slot1, w1)" by (cases "slot_write ops e buf slot w")
  obtain slots2 w2 where 2: "slots_write ops e buf slots w1 = (slots2, w2)" by (cases "slots_write ops e buf slots w1")
  have res: "slots' = slot1 # slots2" using Cons.prems(1) 1 2 by simp
  show ?case
  proof (cases k)
    case (Suc m)
    obtain slots3 w3 where 3: "slots_write ops e buf (take m slots) w1 = (slots3, w3)"
      by (cases "slots_write ops e buf (take m slots) w1")
    show ?thesis using Cons.IH [OF 2, of m] Cons.prems(2) res Suc 1 3 by simp
  qed (use res 1 in simp)
qed simp

lemma slots_write_length: "slots_write ops e buf slots w = (slots', w') \<Longrightarrow> length slots' = length slots"
  by (induction slots arbitrary: w slots' w') (auto split: prod.splits)

text \<open>A flush leaves the counters, the levels and the degraded flags alone, also one that unwinds.\<close>

lemma slots_flush_frame:
  "slots_flush ops slots w = (r, slots', w') \<Longrightarrow> map degraded slots' = map degraded slots \<and>
     map min_level slots' = map min_level slots \<and> map consecutive_errors slots' = map consecutive_errors slots"
  by (induction slots arbitrary: w r slots' w') (auto simp: Let_def split: prod.splits outcome.splits)

lemma slots_flush_at:
  assumes "slots_flush ops slots w = (r, slots', w')" "k < length slots"
  shows "length slots' = length slots" "degraded (slots' ! k) = degraded (slots ! k)"
    "min_level (slots' ! k) = min_level (slots ! k)" "consecutive_errors (slots' ! k) = consecutive_errors (slots ! k)"
proof -
  note frame = slots_flush_frame [OF assms(1)]
  show len: "length slots' = length slots" using frame map_eq_imp_length_eq by blast
  show "degraded (slots' ! k) = degraded (slots ! k)" "min_level (slots' ! k) = min_level (slots ! k)"
    "consecutive_errors (slots' ! k) = consecutive_errors (slots ! k)"
    using frame len assms(2) by (metis nth_map)+
qed

lemma writer_step_flush:
  assumes "writer_step ops il json msg slots w = (stop, slots', acks, w')" "msg = MFlush a \<or> msg = MShutdown a"
  obtains r slots1 where "slots_flush ops slots w = (r, slots1, w')"
    "slots' = (if r = Panicked then map (\<lambda>slot. slot\<lparr>degraded := True\<rparr>) slots1 else slots1)"
  using assms by (auto simp: writer_step_def handle_message_def split: prod.splits outcome.splits)

subsection \<open>When a slot is degraded\<close>

text \<open>What one turn of the writer is for the slot at place \<open>k\<close>: its sink accepts or refuses a record (a
  call that unwinds refuses it), or a flush, of whichever sink, unwinds.\<close>

datatype turn_event = Accepted | Refused | FlushUnwound

definition turn_events ::
  "'c sink_ops \<Rightarrow> bool \<Rightarrow> bool \<Rightarrow> nat \<Rightarrow> message \<Rightarrow> 'c sink_slot list \<Rightarrow> world \<Rightarrow> turn_event list" where
  "turn_events ops il json k msg slots w = (case msg of
     MLog e \<Rightarrow>
       (let buf = format_entry il json e; w = snd (slots_write ops e buf (take k slots) w) in
        if \<not> attempted e (slots ! k) then []
        else if accepted ops e buf (slots ! k) w then [Accepted] else [Refused])
   | _ \<Rightarrow> if fst (slots_flush ops slots w) = Panicked then [FlushUnwound] else [])"

text \<open>Along a run, as the list of its states: a turn is a step that handles a message.\<close>

fun run_events :: "'c sink_ops \<Rightarrow> nat \<Rightarrow> 'c process list \<Rightarrow> turn_event list" where
  "run_events ops k (s # s' # ss) =
     (if pr_handled s' = pr_handled s then []
      else turn_events ops (pr_location s) (pr_json s) k (last (pr_handled s')) (pr_slots s) (pr_world s)) @
     run_events ops k (s' # ss)"
| "run_events ops k _ = []"

text \<open>The failures since the last record the sink accepted.\<close>

definition recent_failures :: "turn_event list \<Rightarrow> nat" where
  "recent_failures es = length (filter (\<lambda>ev. ev = Refused) (takeWhile (\<lambda>ev. ev \<noteq> Accepted) (rev es)))"

definition slot_counts :: "turn_event list \<Rightarrow> 'c sink_slot \<Rightarrow> bool" where
  "slot_counts es slot \<longleftrightarrow> consecutive_errors slot = recent_failures es \<and> consecutive_errors slot \<le> 8 \<and>
     (degraded slot \<longleftrightarrow> FlushUnwound \<in> set es \<or> consecutive_errors slot = 8)"

lemma recent_failures_snoc [simp]:
  "recent_failures (es @ [Accepted]) = 0" "recent_failures (es @ [Refused]) = Suc (recent_failures es)"
  "recent_failures (es @ [FlushUnwound]) = recent_failures es"
  by (simp_all add: recent_failures_def)

lemma slot_counts_turn:
  assumes "slot_counts es (slots ! k)" "k < length slots"
    "writer_step ops il json msg slots w = (stop, slots', acks, w')"
  shows "length slots' = length slots \<and> slot_counts (es @ turn_events ops il json k msg slots w) (slots' ! k)"
proof (cases "\<exists>e. msg = MLog e")
  case True
  then obtain e where msg: "msg = MLog e" ..
  let ?buf = "format_entry il json e"
  let ?w = "snd (slots_write ops e ?buf (take k slots) w)"
  have run: "slots_write ops e ?buf slots w = (slots', w')"
    using assms(3) msg by (auto simp: writer_step_log split: prod.splits)
  note at = slots_write_at [OF run assms(2)]
  have "slot_counts (es @ turn_events ops il json k msg slots w) (slots' ! k)"
  proof (cases rule: slot_write_cases [of e "slots ! k" ops ?buf ?w])
    case (failed s)
    then have "\<not> degraded (slots ! k)" by (simp add: attempted_def)
    with failed at assms(1) show ?thesis by (auto simp: slot_counts_def turn_events_def msg Let_def)
  qed (use at assms(1) in \<open>auto simp: slot_counts_def turn_events_def msg Let_def attempted_def\<close>)
  with slots_write_length [OF run] show ?thesis by simp
next
  case False
  then obtain a where msg: "msg = MFlush a \<or> msg = MShutdown a" by (cases msg) auto
  obtain r slots1 where fl: "slots_flush ops slots w = (r, slots1, w')"
    and res: "slots' = (if r = Panicked then map (\<lambda>slot. slot\<lparr>degraded := True\<rparr>) slots1 else slots1)"
    by (rule writer_step_flush [OF assms(3) msg])
  note at = slots_flush_at [OF fl assms(2)]
  have ev: "turn_events ops il json k msg slots w = (if r = Panicked then [FlushUnwound] else [])"
    using msg fl by (auto simp: turn_events_def)
  show ?thesis
    using assms(1,2) at by (simp add: slot_counts_def res ev)
qed

lemma emergency_write_grows: "stderr_grows w (snd (emergency_write e json w))"
proof -
  let ?buf = "if json then write_record e False [] else format_record e False []"
  let ?note = "utf8 (lit ''[xoslog] writer thread unavailable, logging synchronously'') @ [10]"
  obtain r1 w1 where 1: "stderr_write_all ?note w = (r1, w1)" by (cases "stderr_write_all ?note w")
  obtain r2 w2 where 2: "stderr_write_all ?buf w1 = (r2, w2)" by (cases "stderr_write_all ?buf w1")
  have "stderr_grows w w1" "stderr_grows w1 w2" "stderr_grows w2 (snd (std_flush w2))"
    using stderr_write_all_grows [of w ?note] stderr_write_all_grows [of w1 ?buf] std_flush_grows [of w2] 1 2
    by simp_all
  then have g: "stderr_grows w w1" "stderr_grows w w2" "stderr_grows w (snd (std_flush w2))"
    using stderr_grows_trans by blast+
  have "snd (emergency_write e json w) = w1 \<or> snd (emergency_write e json w) = w2 \<or>
      snd (emergency_write e json w) = snd (std_flush w2)"
    using 1 2 by (cases r1; cases r2) (simp_all add: emergency_write_def Let_def del: utf8_simps lit_simps)
  with g show ?thesis by metis
qed

lemma call_step_grows:
  assumes "call_step t s = Some s'"
  shows "stderr_grows (pr_world s) (pr_world s')"
  using assms
  by (cases rule: call_step_cases)
    (simp_all add: call_defs system_now_def emergency_write_grows same_stderr_grows)

text \<open>A step that handles a message is a turn; any other leaves what matters of the slots alone.\<close>

lemma lstep_slots:
  assumes "lstep ops s s'"
  obtains (turn) msg stop acks where "pr_handled s' = pr_handled s @ [msg]"
      "writer_step ops (pr_location s) (pr_json s) msg (pr_slots s) (pr_world s) = (stop, pr_slots s', acks, pr_world s')"
  | (final) r where "pr_handled s' = pr_handled s"
      "slots_flush ops (pr_slots s) (pr_world s) = (r, pr_slots s', pr_world s')"
  | (other) "pr_handled s' = pr_handled s" "pr_slots s' = pr_slots s" "stderr_grows (pr_world s) (pr_world s')"
proof -
  have "(\<exists>msg stop acks. pr_handled s' = pr_handled s @ [msg] \<and>
      writer_step ops (pr_location s) (pr_json s) msg (pr_slots s) (pr_world s) = (stop, pr_slots s', acks, pr_world s')) \<or>
    (\<exists>r. pr_handled s' = pr_handled s \<and> slots_flush ops (pr_slots s) (pr_world s) = (r, pr_slots s', pr_world s')) \<or>
    (pr_handled s' = pr_handled s \<and> pr_slots s' = pr_slots s \<and> stderr_grows (pr_world s) (pr_world s'))"
    using assms
  proof (induction rule: lstep.induct)
    case (log s t e)
    then show ?case using log_enter_cases [of t e s] by (auto simp: call_defs)
  next
    case (call t s s')
    then show ?case using call_step_slots call_step_grows by blast
  next
    case (writer s s')
    from writer show ?case
    proof (cases rule: writer_moves_cases)
      case (handle msg)
      show ?thesis by (rule writer_handle_cases [of ops s msg]) (simp add: handle(2))
    next
      case exit
      show ?thesis by (rule writer_exit_cases [of ops s]) (simp add: exit(2))
    qed (simp_all add: writer_wait_def)
  qed (simp_all add: flush_enter_def shutdown_enter_def fresh_ack_def call_defs)
  then show thesis using that by blast
qed

lemma slot_counts_lstep:
  assumes "lstep ops s s'" "k < length (pr_slots s)" "slot_counts es (pr_slots s ! k)"
  shows "k < length (pr_slots s') \<and> slot_counts (es @ run_events ops k [s, s']) (pr_slots s' ! k)"
  using assms(1)
proof (cases rule: lstep_slots)
  case (turn msg stop acks)
  then show ?thesis using slot_counts_turn [OF assms(3,2) turn(2)] assms(2) by simp
next
  case (final r)
  then show ?thesis using slots_flush_at [OF final(2) assms(2)] assms(2,3) by (simp add: slot_counts_def)
qed (use assms(2,3) in simp)

lemma slot_counts_run:
  "successively (lstep ops) (s # ss) \<Longrightarrow> k < length (pr_slots s) \<Longrightarrow> slot_counts es (pr_slots s ! k) \<Longrightarrow>
     slot_counts (es @ run_events ops k (s # ss)) (pr_slots (last (s # ss)) ! k)"
proof (induction ss arbitrary: s es)
  case (Cons s' ss)
  have "k < length (pr_slots s') \<and> slot_counts (es @ run_events ops k [s, s']) (pr_slots s' ! k)"
    by (rule slot_counts_lstep [OF _ Cons.prems(2,3)]) (use Cons.prems(1) in simp)
  with Cons.IH [of s' "es @ run_events ops k [s, s']"] Cons.prems(1) show ?case by simp
qed simp

subsection \<open>Where the records of a degraded slot go\<close>

text \<open>The byte strings occur in the text one after the other.\<close>

fun embeds :: "bytes list \<Rightarrow> bytes \<Rightarrow> bool" where
  "embeds [] x \<longleftrightarrow> True"
| "embeds (b # bs) x \<longleftrightarrow> (\<exists>pre post. x = pre @ b @ post \<and> embeds bs post)"

lemma embeds_append: "embeds bs x \<Longrightarrow> embeds cs y \<Longrightarrow> embeds (bs @ cs) (x @ y)"
proof (induction bs arbitrary: x)
  case Nil
  show ?case
  proof (cases cs)
    case (Cons c cs')
    then obtain pre post where "y = pre @ c @ post" "embeds cs' post" using Nil.prems(2) by auto
    then have "x @ y = (x @ pre) @ c @ post \<and> embeds cs' post" by simp
    then show ?thesis unfolding Cons append_Nil embeds.simps by blast
  qed simp
next
  case (Cons b bs)
  then obtain pre post where "x = pre @ b @ post" "embeds bs post" by auto
  then have "x @ y = pre @ b @ (post @ y) \<and> embeds (bs @ cs) (post @ y)" using Cons by simp
  then show ?case unfolding append_Cons embeds.simps by blast
qed

text \<open>Standard error gains a text in which the byte strings occur.\<close>

definition stderr_gains :: "bytes list \<Rightarrow> world \<Rightarrow> world \<Rightarrow> bool" where
  "stderr_gains bs w w' \<longleftrightarrow> w_fault w' = w_fault w \<and> (\<exists>x. w_stderr w' = w_stderr w @ x \<and> embeds bs x)"

lemma stderr_gains_nothing: "stderr_grows w w' \<Longrightarrow> stderr_gains [] w w'"
  by (auto simp: stderr_gains_def stderr_grows_def)

lemma stderr_gains_trans: "stderr_gains bs w w' \<Longrightarrow> stderr_gains cs w' w'' \<Longrightarrow> stderr_gains (bs @ cs) w w''"
  by (auto simp: stderr_gains_def intro: embeds_append)

lemma stderr_gains_calm: "stderr_gains bs w w' \<Longrightarrow> calm w' \<longleftrightarrow> calm w"
  by (simp add: stderr_gains_def calm_def)

lemma slots_write_diverts:
  assumes con: "sink_contract (sink_write_entry ops) (sink_flush ops)"
  shows "k < length slots \<Longrightarrow> degraded (slots ! k) \<Longrightarrow> calm w \<Longrightarrow> slots_write ops e buf slots w = (slots', w') \<Longrightarrow>
    slots' ! k = slots ! k \<and> stderr_gains (if min_level (slots ! k) \<le> le_level e then [buf] else []) w w'"
proof (induction slots arbitrary: k w slots' w')
  case (Cons slot slots)
  obtain slot1 w1 where 1: "slot_write ops e buf slot w = (slot1, w1)" by (cases "slot_write ops e buf slot w")
  obtain slots2 w2 where 2: "slots_write ops e buf slots w1 = (slots2, w2)" by (cases "slots_write ops e buf slots w1")
  have res: "slots' = slot1 # slots2" "w' = w2" using Cons.prems(4) 1 2 by simp_all
  note grow = slot_write_grows [OF con 1] slots_write_grows [OF con 2]
  show ?case
  proof (cases k)
    case 0
    have "slot1 = slot" "w1 = (if min_level slot \<le> le_level e then write_stderr buf w else w)"
      using 1 Cons.prems(2) 0 by (auto simp: slot_write_def not_less split: if_splits)
    moreover have "stderr_gains [buf] w (write_stderr buf w)"
      using write_stderr_calm [OF Cons.prems(3), of buf] write_stderr_grows [of w buf]
      by (auto simp: stderr_gains_def stderr_grows_def intro: exI [of _ "[]"])
    ultimately have "stderr_gains (if min_level slot \<le> le_level e then [buf] else []) w w1"
      by (auto simp: stderr_gains_nothing)
    then have "stderr_gains (if min_level slot \<le> le_level e then [buf] else []) w w2"
      using stderr_gains_trans [OF _ stderr_gains_nothing [OF grow(2)]] by fastforce
    with res 0 \<open>slot1 = slot\<close> show ?thesis by simp
  next
    case (Suc m)
    have "calm w1" using Cons.prems(3) stderr_grows_calm [OF grow(1)] by simp
    then have "slots2 ! m = slots ! m \<and>
        stderr_gains (if min_level (slots ! m) \<le> le_level e then [buf] else []) w1 w2"
      using Cons.IH [OF _ _ _ 2, of m] Cons.prems(1,2) Suc by simp
    with res Suc stderr_gains_trans [OF stderr_gains_nothing [OF grow(1)]] show ?thesis by fastforce
  qed
qed simp

text \<open>The records of some messages that the slot would be offered, formatted.\<close>

definition eligible :: "bool \<Rightarrow> bool \<Rightarrow> level \<Rightarrow> message list \<Rightarrow> bytes list" where
  "eligible il json l ms = map (format_entry il json) (filter (\<lambda>e. l \<le> le_level e) (records_of ms))"

lemma eligible_append: "eligible il json l (ms @ ms') = eligible il json l ms @ eligible il json l ms'"
  by (simp add: eligible_def)

text \<open>From one state to a later one: the slot stays degraded and its records are on standard error.\<close>

definition diverts :: "nat \<Rightarrow> 'c process \<Rightarrow> 'c process \<Rightarrow> bool" where
  "diverts k s s' \<longleftrightarrow> k < length (pr_slots s') \<and> degraded (pr_slots s' ! k) \<and>
     min_level (pr_slots s' ! k) = min_level (pr_slots s ! k) \<and> same_config s s' \<and>
     (\<exists>more. pr_handled s' = pr_handled s @ more \<and>
       stderr_gains (eligible (pr_location s) (pr_json s) (min_level (pr_slots s ! k)) more) (pr_world s) (pr_world s'))"

lemma eligible_Nil [simp]: "eligible il json l [] = []"
  by (simp add: eligible_def records_of_def)

lemma diverts_refl: "k < length (pr_slots s) \<Longrightarrow> degraded (pr_slots s ! k) \<Longrightarrow> diverts k s s"
  by (simp add: diverts_def same_config_def stderr_gains_nothing)

lemma diverts_trans:
  assumes "diverts k s s'" "diverts k s' s''"
  shows "diverts k s s''"
proof -
  obtain more more' where 1: "pr_handled s' = pr_handled s @ more"
      "stderr_gains (eligible (pr_location s) (pr_json s) (min_level (pr_slots s ! k)) more) (pr_world s) (pr_world s')"
    and 2: "pr_handled s'' = pr_handled s' @ more'"
      "stderr_gains (eligible (pr_location s) (pr_json s) (min_level (pr_slots s ! k)) more') (pr_world s') (pr_world s'')"
    using assms by (auto simp: diverts_def same_config_def)
  have "stderr_gains (eligible (pr_location s) (pr_json s) (min_level (pr_slots s ! k)) (more @ more'))
      (pr_world s) (pr_world s'')"
    unfolding eligible_append by (rule stderr_gains_trans [OF 1(2) 2(2)])
  with 1(1) 2(1) assms show ?thesis by (auto simp: diverts_def same_config_def)
qed

lemma writer_step_diverts:
  assumes con: "sink_contract (sink_write_entry ops) (sink_flush ops)" and k: "k < length slots" "degraded (slots ! k)"
    and calm: "calm w" and run: "writer_step ops il json msg slots w = (stop, slots', acks, w')"
  shows "k < length slots' \<and> degraded (slots' ! k) \<and> min_level (slots' ! k) = min_level (slots ! k) \<and>
    stderr_gains (eligible il json (min_level (slots ! k)) [msg]) w w'"
proof (cases "\<exists>e. msg = MLog e")
  case True
  then obtain e where msg: "msg = MLog e" ..
  have wr: "slots_write ops e (format_entry il json e) slots w = (slots', w')"
    using run msg by (auto simp: writer_step_log split: prod.splits)
  show ?thesis
    using slots_write_diverts [OF con k calm wr] slots_write_length [OF wr] k
    by (auto simp: msg eligible_def records_of_def split: if_splits)
next
  case False
  then obtain a where msg: "msg = MFlush a \<or> msg = MShutdown a" by (cases msg) auto
  obtain r slots1 where fl: "slots_flush ops slots w = (r, slots1, w')"
    and res: "slots' = (if r = Panicked then map (\<lambda>slot. slot\<lparr>degraded := True\<rparr>) slots1 else slots1)"
    by (rule writer_step_flush [OF run msg])
  have "eligible il json (min_level (slots ! k)) [msg] = []" using msg by (auto simp: eligible_def records_of_def)
  then show ?thesis
    using slots_flush_at [OF fl k(1)] k stderr_gains_nothing [OF slots_flush_grows [OF con fl]] by (simp add: res)
qed

lemma diverts_lstep:
  assumes con: "sink_contract (sink_write_entry ops) (sink_flush ops)"
    and step: "lstep ops s s'" and k: "k < length (pr_slots s)" "degraded (pr_slots s ! k)" and calm: "calm (pr_world s)"
  shows "diverts k s s'"
  using step
proof (cases rule: lstep_slots)
  case (turn msg stop acks)
  from writer_step_diverts [OF con k calm turn(2)] turn(1) same_config_step [OF step]
  show ?thesis by (simp add: diverts_def)
next
  case (final r)
  from slots_flush_at [OF final(2) k(1)] slots_flush_grows [OF con final(2)] final(1) k same_config_step [OF step]
  show ?thesis by (simp add: diverts_def stderr_gains_nothing)
next
  case other
  with k same_config_step [OF step] show ?thesis by (simp add: diverts_def stderr_gains_nothing)
qed

lemma diverts_reach:
  assumes con: "sink_contract (sink_write_entry ops) (sink_flush ops)"
    and k: "k < length (pr_slots s)" "degraded (pr_slots s ! k)" and calm: "calm (pr_world s)"
  shows "lreach ops s s' \<Longrightarrow> diverts k s s'"
proof (induction rule: rtranclp_induct)
  case base
  show ?case by (rule diverts_refl [OF k])
next
  case (step s' s'')
  have "calm (pr_world s')" "k < length (pr_slots s')" "degraded (pr_slots s' ! k)"
    using step.IH calm by (auto simp: diverts_def stderr_gains_calm)
  with diverts_lstep [OF con step.hyps(2)] diverts_trans [OF step.IH] show ?case by blast
qed

subsection \<open>Properties\<close>

text \<open>Claim C32: in every run of a logger, whatever its sinks, callers and outside world do, each slot
  counts exactly the failures of its own sink since the last record the sink accepted (a call that unwinds
  is a failure), and it is degraded exactly when there have been eight of them in a row or when some flush,
  of whichever sink, unwound in a turn of the writer. Records below the level of the slot, failures of other
  sinks and flushes do not change the count.\<close>

theorem degraded_after_eight_failures:
  assumes "successively (lstep ops) (started i il cap slots ctx w # ss)" "k < length slots" "slots ! k = slot_new c l"
  shows "let slot = pr_slots (last (started i il cap slots ctx w # ss)) ! k;
      events = run_events ops k (started i il cap slots ctx w # ss) in
    consecutive_errors slot = recent_failures events \<and> consecutive_errors slot \<le> 8 \<and>
    (degraded slot \<longleftrightarrow> FlushUnwound \<in> set events \<or> consecutive_errors slot = 8)"
proof -
  let ?s0 = "started i il cap slots ctx w"
  have "k < length (pr_slots ?s0)" "slot_counts [] (pr_slots ?s0 ! k)"
    using assms(2,3) by (simp_all add: started_def slot_counts_def slot_new_def recent_failures_def)
  from slot_counts_run [OF assms(1) this] show ?thesis by (simp add: slot_counts_def Let_def)
qed

lemma lreach_path: "lreach ops s s' \<Longrightarrow> \<exists>ss. successively (lstep ops) (s # ss) \<and> last (s # ss) = s'"
proof (induction rule: rtranclp_induct)
  case (step s' s'')
  then obtain ss where "successively (lstep ops) (s # ss)" "last (s # ss) = s'" by blast
  then have "successively (lstep ops) ((s # ss) @ [s''])"
    using step.hyps(2) by (simp only: successively_append_iff) simp
  then show ?case by (intro exI [of _ "ss @ [s'']"]) simp
qed (auto intro: exI [of _ "[]"])

text \<open>A sink all of whose calls unwind: it refuses a record and unwinds in the flush after it.\<close>

theorem degraded_after_eight_failures_witness:
  "\<exists>ss slot. let run = started quiet_inner True 2 [slot_new (CustomSink ()) Info] ctx_init quiet_world # ss in
     successively (lstep panicking_ops) run \<and> pr_slots (last run) = [slot] \<and> consecutive_errors slot = 1 \<and>
     degraded slot \<and> recent_failures (run_events panicking_ops 0 run) = 1 \<and>
     FlushUnwound \<in> set (run_events panicking_ops 0 run)"
proof -
  let ?slots = "[slot_new (CustomSink ()) Info] :: unit sink_slot list"
  let ?s0 = "started quiet_inner True 2 ?slots ctx_init quiet_world"
  let ?m = "MLog (first_record quiet_inner 1 plain_example ctx_init quiet_world)"
  have lev: "le_level (first_record quiet_inner 1 plain_example ctx_init quiet_world) = Info"
    by (simp add: first_record_def merge_context_def plain_example_def)
  obtain s1 where s1: "acts_run panicking_ops (flushing_acts plain_example) ?s0 = Some s1"
      "pr_writer s1 = WBusy ?m" "ch_queue (pr_chan s1) = [MFlush 0]" "pr_slots s1 = ?slots"
    by (rule flushing_run [OF quiet_inner_fresh order_refl quiet_inner_enabled, where ops = panicking_ops and il = True
          and slots = ?slots and ctx = ctx_init and w = quiet_world]) (rule that)
  define s2 where "s2 = writer_handle panicking_ops ?m s1"
  have s2: "pr_writer s2 = WIdle" "ch_queue (pr_chan s2) = [MFlush 0]"
      "pr_slots s2 = [(slot_new (CustomSink ()) Info)\<lparr>consecutive_errors := 1\<rparr>]"
    by (simp_all add: s2_def writer_handle_def writer_step_log s1 slot_write_def slot_new_def lev [simplified] sink_write_entry_def
        panicking_ops_def wrap_sink_def MAX_CONSECUTIVE_WRITE_ERRORS_def Let_def)
  define s3 where
    "s3 = s2\<lparr>pr_chan := (pr_chan s2)\<lparr>ch_queue := [], ch_waiting := False\<rparr>, pr_writer := WBusy (MFlush 0)\<rparr>"
  define s4 where "s4 = writer_handle panicking_ops (MFlush 0) s3"
  have s4: "pr_slots s4 = [(slot_new (CustomSink ()) Info)\<lparr>consecutive_errors := 1, degraded := True\<rparr>]"
    by (simp add: s4_def s3_def writer_handle_def writer_step_def handle_message_def s2 sink_flush_def
        panicking_ops_def wrap_sink_def slot_new_def)
  have "writer_moves panicking_ops s1 s2" "writer_moves panicking_ops s2 s3" "writer_moves panicking_ops s3 s4"
    using handle_moves [OF s1(2)] recv_moves [OF s2(1,2)] handle_moves [of s3 "MFlush 0"]
    by (simp_all add: s2_def s3_def s4_def)
  then have "wreach panicking_ops s1 s4"
    by (meson rtranclp.rtrancl_into_rtrancl rtranclp.rtrancl_refl)
  then have "lreach panicking_ops ?s0 s4"
    using acts_run_lreach [OF s1(1)] wreach_lreach by (meson rtranclp_trans)
  then obtain ss where ss: "successively (lstep panicking_ops) (?s0 # ss)" "last (?s0 # ss) = s4"
    using lreach_path by blast
  have "0 < length ?slots" "?slots ! 0 = slot_new (CustomSink ()) Info" by simp_all
  from degraded_after_eight_failures [OF ss(1) this] have
    "recent_failures (run_events panicking_ops 0 (?s0 # ss)) = 1"
    "FlushUnwound \<in> set (run_events panicking_ops 0 (?s0 # ss))"
    unfolding ss(2) by (simp_all add: s4 Let_def)
  with ss s4 show ?thesis unfolding Let_def
    by (intro exI [of _ ss] exI [of _ "(slot_new (CustomSink ()) Info)\<lparr>consecutive_errors := 1, degraded := True\<rparr>"])
      simp
qed

text \<open>Claim C26: once a slot is degraded it stays so, and from then on, while no call to the outside fails
  (a write to standard error in particular), every record handled at or above its level appears whole on
  standard error, in the order handled, through flushes, requests to shut down and the end of the thread,
  in every interleaving, whatever the other slots do and whatever a caller's sink does short of erasing
  standard error or making later calls fail.\<close>

theorem degraded_slot_diverts_to_stderr:
  assumes "sink_contract (op_write_entry ops) (op_flush ops)" "k < length (pr_slots s)" "degraded (pr_slots s ! k)"
    "calm (pr_world s)" "lreach ops s s'"
  shows "degraded (pr_slots s' ! k) \<and>
    (\<exists>more x. pr_handled s' = pr_handled s @ more \<and> w_stderr (pr_world s') = w_stderr (pr_world s) @ x \<and>
      embeds (map (format_entry (pr_location s) (pr_json s))
        (filter (\<lambda>e. min_level (pr_slots s ! k) \<le> le_level e) (records_of more))) x)"
proof -
  have "diverts k s s'" by (rule diverts_reach [OF all_sinks_contract [OF assms(1)] assms(2-5)])
  then show ?thesis by (auto simp: diverts_def stderr_gains_def eligible_def)
qed

text \<open>A degraded slot behind one that only takes errors, and a record of level \<open>Info\<close>.\<close>

definition degraded_slot :: "unit sink_slot" where
  "degraded_slot = (slot_new (CustomSink ()) Info)\<lparr>degraded := True\<rparr>"

theorem degraded_slot_diverts_to_stderr_witness:
  "\<exists>s e. lreach panicking_ops (started quiet_inner True 2 [slot_new StderrSink Error, degraded_slot] ctx_init quiet_world) s \<and>
     pr_handled s = [MLog e] \<and> le_message e = lit ''hi'' \<and> degraded (pr_slots s ! 1) \<and>
     embeds [format_entry True False e] (w_stderr (pr_world s))"
proof -
  let ?slots = "[slot_new StderrSink Error, degraded_slot]"
  let ?s0 = "started quiet_inner True 2 ?slots ctx_init quiet_world"
  let ?e = "first_record quiet_inner 1 plain_example ctx_init quiet_world"
  obtain s1 where s1: "acts_run panicking_ops (flushing_acts plain_example) ?s0 = Some s1"
      "pr_writer s1 = WBusy (MLog ?e)" "pr_handled s1 = []"
    by (rule flushing_run [OF quiet_inner_fresh order_refl quiet_inner_enabled, where ops = panicking_ops and il = True
          and slots = ?slots and ctx = ctx_init and w = quiet_world]) (rule that)
  define s where "s = writer_handle panicking_ops (MLog ?e) s1"
  have "lstep panicking_ops s1 s" unfolding s_def by (rule lstep.writer [OF handle_moves [OF s1(2)]])
  then have reach: "lreach panicking_ops ?s0 s"
    using acts_run_lreach [OF s1(1)] by (rule rtranclp.rtrancl_into_rtrancl [rotated])
  have handled: "pr_handled s = [MLog ?e]"
    by (rule writer_handle_cases [of panicking_ops s1 "MLog ?e"]) (simp add: s_def s1(3))
  have "1 < length (pr_slots ?s0)" "degraded (pr_slots ?s0 ! 1)" "calm (pr_world ?s0)"
    by (simp_all add: started_def degraded_slot_def calm_def quiet_world_def)
  from degraded_slot_diverts_to_stderr [OF panicking_ops_contract this reach]
  have "degraded (pr_slots s ! 1)" "embeds [format_entry True False ?e] (w_stderr (pr_world s))"
    by (simp_all add: handled started_def degraded_slot_def slot_new_def quiet_inner_def quiet_world_def
        records_of_def first_record_def merge_context_def plain_example_def del: embeds.simps)
  moreover have "le_message ?e = lit ''hi''" by (simp add: plain_example_def)
  ultimately show ?thesis using reach handled by blast
qed

end
