(* ===== verification/Xos_Faults.thy ===== *)
theory Xos_Faults
  imports Xos_Sink
begin

section \<open>A file sink when calls fail (\<open>src/sink.rs\<close>)\<close>

text \<open>
  What the files of a \<open>FileSink\<close> hold whatever calls fail: opening, writing (after any number of bytes),
  renaming, removing, synchronising, reading metadata, at any moment and in any combination. A record the
  sink accepts is whole, a refused one leaves at most a prefix of itself, and the names of the files stay in
  the order of their age.
\<close>

text \<open>What a call of \<open>write_bytes\<close> with the given result leaves in a file.\<close>

definition torn :: "bytes \<Rightarrow> unit io_result \<Rightarrow> bytes \<Rightarrow> bool" where
  "torn bs r piece \<longleftrightarrow> (if is_ok r then piece = bs else (\<exists>n. piece = take n bs))"

lemma torn_simps: "torn bs (Inr u) piece \<longleftrightarrow> piece = bs" "torn bs (Inl e) (take n bs)" "torn bs (Inl e) []"
  by (auto simp: torn_def is_ok_def intro: exI [of _ 0])

subsection \<open>The names of the files\<close>

text \<open>The inodes of a sink, oldest first: every name of the log is one of them, and a backup with a higher
  number is older.\<close>

definition aged :: "path \<Rightarrow> nat \<Rightarrow> nat list \<Rightarrow> world \<Rightarrow> bool" where
  "aged p mb inos w \<longleftrightarrow>
     (\<forall>k \<le> mb. \<forall>i. w_dir w (gen_path p k) = Some i \<longrightarrow> i \<in> set inos) \<and>
     (\<forall>j k a b. j < k \<longrightarrow> k \<le> mb \<longrightarrow> a < length inos \<longrightarrow> b < length inos \<longrightarrow>
        w_dir w (gen_path p j) = Some (inos ! a) \<longrightarrow> w_dir w (gen_path p k) = Some (inos ! b) \<longrightarrow> b < a)"

lemma aged_in: "aged p mb inos w \<Longrightarrow> k \<le> mb \<Longrightarrow> w_dir w (gen_path p k) = Some i \<Longrightarrow> i \<in> set inos"
  by (simp add: aged_def)

lemma aged_order:
  "aged p mb inos w \<Longrightarrow> j < k \<Longrightarrow> k \<le> mb \<Longrightarrow> a < length inos \<Longrightarrow> b < length inos \<Longrightarrow>
   w_dir w (gen_path p j) = Some (inos ! a) \<Longrightarrow> w_dir w (gen_path p k) = Some (inos ! b) \<Longrightarrow> b < a"
  unfolding aged_def by blast

lemma aged_same: "w_dir w' = w_dir w \<Longrightarrow> aged p mb inos w' = aged p mb inos w"
  by (simp only: aged_def)

text \<open>Names may vanish, and a name may move up one slot.\<close>

lemma aged_fewer:
  assumes "aged p mb inos w" "\<And>q i. w_dir w' q = Some i \<Longrightarrow> w_dir w q = Some i"
  shows "aged p mb inos w'"
  unfolding aged_def
proof (intro conjI allI impI)
  fix k i assume "k \<le> mb" "w_dir w' (gen_path p k) = Some i"
  then show "i \<in> set inos" using aged_in [OF assms(1)] assms(2) by blast
next
  fix j k a b
  assume h: "j < k" "k \<le> mb" "a < length inos" "b < length inos"
    "w_dir w' (gen_path p j) = Some (inos ! a)" "w_dir w' (gen_path p k) = Some (inos ! b)"
  show "b < a" by (rule aged_order [OF assms(1) h(1-4) assms(2) [OF h(5)] assms(2) [OF h(6)]])
qed

lemma aged_remove: "aged p mb inos w \<Longrightarrow> aged p mb inos (snd (fs_remove_file q w))"
  by (erule aged_fewer) (auto simp: fs_remove_file_def syscall_def split: option.splits if_splits)

lemma rename_cases:
  obtains (failed) "w_dir (snd (fs_rename a b w)) = w_dir w"
  | (moved) i where "w_dir w a = Some i" "w_dir (snd (fs_rename a b w)) = ((w_dir w)(a := None))(b \<mapsto> i)"
proof -
  have "w_dir (snd (fs_rename a b w)) = w_dir w \<or>
      (\<exists>i. w_dir w a = Some i \<and> w_dir (snd (fs_rename a b w)) = ((w_dir w)(a := None))(b \<mapsto> i))"
    by (simp add: fs_rename_def syscall_def split: option.split)
  then show thesis using that by blast
qed

lemma aged_shift:
  assumes "aged p mb inos w" "Suc k \<le> mb"
  shows "aged p mb inos (snd (fs_rename (gen_path p k) (gen_path p (Suc k)) w))"
proof (cases rule: rename_cases [of "gen_path p k" "gen_path p (Suc k)" w])
  case failed
  show ?thesis by (rule aged_fewer [OF assms(1)]) (simp add: failed)
next
  case (moved i)
  let ?w = "snd (fs_rename (gen_path p k) (gen_path p (Suc k)) w)"
  have dir: "w_dir ?w (gen_path p m) =
      (if m = Suc k then w_dir w (gen_path p k) else if m = k then None else w_dir w (gen_path p m))" for m
    using moved by simp
  show ?thesis
    unfolding aged_def
  proof (intro conjI allI impI)
    fix m x assume "m \<le> mb" "w_dir ?w (gen_path p m) = Some x"
    then show "x \<in> set inos"
      using aged_in [OF assms(1), of m x] aged_in [OF assms(1), of k x] assms(2) by (simp add: dir split: if_splits)
  next
    fix j m a b
    assume h: "j < m" "m \<le> mb" "a < length inos" "b < length inos"
      "w_dir ?w (gen_path p j) = Some (inos ! a)" "w_dir ?w (gen_path p m) = Some (inos ! b)"
    note old = aged_order [OF assms(1) _ _ h(3,4)]
    consider "j = Suc k" | "m = Suc k" | "j \<noteq> Suc k" "m \<noteq> Suc k" by blast
    then show "b < a"
    proof cases
      case 1
      then show ?thesis using old [of k m] h by (simp add: dir)
    next
      case 2
      then have "j < k" using h(1,5) by (auto simp: dir less_Suc_eq split: if_splits)
      then show ?thesis using old [of j k] h 2 by (simp add: dir)
    next
      case 3
      then show ?thesis using old [of j m] h by (simp add: dir split: if_splits)
    qed
  qed
qed

text \<open>A new file under the name of the active one.\<close>

lemma aged_new:
  assumes "aged p mb inos w" "i \<notin> set inos" "w_dir w p = None" "w_dir w' = (w_dir w)(p \<mapsto> i)"
  shows "aged p mb (inos @ [i]) w'"
proof -
  have dir: "w_dir w' (gen_path p m) = (if m = 0 then Some i else w_dir w (gen_path p m))" for m
    using assms(4) by (auto simp: gen_path_def)
  have nth: "(inos @ [i]) ! a = i \<longleftrightarrow> a = length inos" if "a < Suc (length inos)" for a
    using that assms(2) by (auto simp: nth_append less_Suc_eq)
  show ?thesis
    unfolding aged_def
  proof (intro conjI allI impI)
    fix m x assume "m \<le> mb" "w_dir w' (gen_path p m) = Some x"
    then show "x \<in> set (inos @ [i])" using aged_in [OF assms(1), of m x] by (auto simp: dir split: if_splits)
  next
    fix j m a b
    assume h: "j < m" "m \<le> mb" "a < length (inos @ [i])" "b < length (inos @ [i])"
      "w_dir w' (gen_path p j) = Some ((inos @ [i]) ! a)" "w_dir w' (gen_path p m) = Some ((inos @ [i]) ! b)"
    have "(inos @ [i]) ! b \<in> set inos" using aged_in [OF assms(1) h(2)] h(1,6) by (simp add: dir)
    then have b: "b < length inos" using h(4) assms(2) nth [of b] by (auto simp: less_Suc_eq)
    show "b < a"
    proof (cases "j = 0")
      case True
      then have "(inos @ [i]) ! a = i" using h(5) by (simp add: dir)
      then show ?thesis using nth [of a] h(3) b by simp
    next
      case False
      then have "(inos @ [i]) ! a \<in> set inos" using aged_in [OF assms(1), of j] h(1,2,5) by (simp add: dir)
      then have a: "a < length inos" using h(3) assms(2) nth [of a] by (auto simp: less_Suc_eq)
      then show ?thesis using aged_order [OF assms(1) h(1,2) a b] h(1,5,6) False b by (simp add: dir nth_append)
    qed
  qed
qed

lemma aged_shift_loop: "aged p mb inos w \<Longrightarrow> n < mb \<Longrightarrow> aged p mb inos (shift_loop p n w)"
proof (induction p n w rule: shift_loop.induct)
  case (2 p n w)
  have "backup_path p (Suc n) = gen_path p (Suc n)" "backup_path p (Suc n + 1) = gen_path p (Suc (Suc n))"
    by (simp_all add: gen_path_def)
  then have "aged p mb inos (snd (fs_rename (backup_path p (Suc n)) (backup_path p (Suc n + 1)) w))"
    using aged_shift [OF 2(2), of "Suc n"] 2(3) by simp
  then show ?case using 2 by simp
qed simp

lemma rename_frame:
  "w_data (snd (fs_rename a b w)) = w_data w" "w_next (snd (fs_rename a b w)) = w_next w"
  "w_data (snd (fs_remove_file a w)) = w_data w" "w_next (snd (fs_remove_file a w)) = w_next w"
  by (simp_all add: fs_rename_def fs_remove_file_def syscall_def split: option.split)

lemma shift_loop_next: "w_next (shift_loop p n w) = w_next w"
  by (induction p n w rule: shift_loop.induct) (simp_all add: rename_frame)

lemma shift_backups_aged:
  assumes "aged (fs_path s) (fs_max_backups s) inos w" "0 < fs_max_backups s" "shift_backups s w = (r, w')"
  shows "aged (fs_path s) (fs_max_backups s) inos w'" "w_data w' = w_data w" "w_next w' = w_next w"
    "is_ok r \<Longrightarrow> w_dir w' (fs_path s) = None"
    "w_dir w' (fs_path s) = None \<or> w_dir w' (fs_path s) = w_dir w (fs_path s)"
proof -
  let ?p = "fs_path s" and ?mb = "fs_max_backups s"
  define w1 where "w1 = shift_loop ?p (?mb - 1) (snd (fs_remove_file (backup_path ?p ?mb) w))"
  have ren: "fs_rename ?p (backup_path ?p 1) w1 = (r, w')"
    using assms(3) by (simp add: shift_backups_def w1_def Let_def)
  have w1: "w_data w1 = w_data w" "w_next w1 = w_next w" "w_dir w1 ?p = w_dir w ?p"
    by (simp_all add: w1_def shift_loop_other shift_loop_next rename_frame fs_remove_other)
  have "aged ?p ?mb inos w1"
    unfolding w1_def using assms(2) by (intro aged_shift_loop aged_remove assms(1)) simp
  then have "aged ?p ?mb inos (snd (fs_rename (gen_path ?p 0) (gen_path ?p (Suc 0)) w1))"
    using assms(2) by (intro aged_shift) simp_all
  then show "aged ?p ?mb inos w'" using ren by (simp add: gen_path_def)
  show "w_data w' = w_data w" "w_next w' = w_next w"
    using rename_frame(1,2) [of ?p "backup_path ?p 1" w1] w1 ren by simp_all
  show "is_ok r \<Longrightarrow> w_dir w' ?p = None" "w_dir w' ?p = None \<or> w_dir w' ?p = w_dir w ?p"
    using ren w1(3) by (auto simp: fs_rename_def syscall_def is_ok_def split: option.splits)
qed

subsection \<open>The contents of the files\<close>

text \<open>Each generation that is not given up, with its inode and with the pieces written to it.\<close>

definition faulty_inv :: "file_sink \<Rightarrow> world \<Rightarrow> bytes list list \<Rightarrow> nat list \<Rightarrow> bool" where
  "faulty_inv s w gens inos \<longleftrightarrow>
     gens \<noteq> [] \<and> map (w_data w) inos = map concat gens \<and> distinct inos \<and> list_all (\<lambda>i. i < w_next w) inos \<and>
     fd_inode (fs_file s) = last inos \<and>
     (fd_append (fs_file s) \<or> fd_pos (fs_file s) = length (w_data w (last inos))) \<and>
     aged (fs_path s) (fs_max_backups s) inos w \<and>
     (w_dir w (fs_path s) = None \<or> w_dir w (fs_path s) = Some (last inos)) \<and>
     (fs_max_backups s = 0 \<longrightarrow> w_dir w (fs_path s) = Some (last inos))"

lemma faulty_inv_data:
  assumes "faulty_inv s w gens inos"
  shows "gens \<noteq> []" "map (w_data w) inos = map concat gens"
  using assms unfolding faulty_inv_def by blast+

lemma faulty_inv_inos:
  assumes "faulty_inv s w gens inos"
  shows "length inos = length gens" "inos \<noteq> []" "gens \<noteq> []"
proof -
  show "length inos = length gens" using arg_cong [OF faulty_inv_data(2) [OF assms], of length] by simp
  then show "inos \<noteq> []" "gens \<noteq> []" using faulty_inv_data(1) [OF assms] by auto
qed

lemma faulty_inv_last:
  assumes "faulty_inv s w gens inos"
  shows "w_data w (last inos) = concat (last gens)"
  using arg_cong [OF faulty_inv_data(2) [OF assms], of last] faulty_inv_inos [OF assms] by (simp add: last_map)

lemma faulty_inv_files: "faulty_inv s w gens inos \<Longrightarrow> same_files w w' \<Longrightarrow> faulty_inv s w' gens inos"
  by (simp add: faulty_inv_def same_files_def aged_same [of w' w])

text \<open>Writing a piece at the end of the current file.\<close>

lemma put_piece:
  assumes "faulty_inv s w gens inos" "fs_put (fs_file s) piece w = (f', w')" "fs_path s' = fs_path s"
    "fs_max_backups s' = fs_max_backups s" "fs_file s' = f'"
  shows "faulty_inv s' w' (butlast gens @ [last gens @ [piece]]) inos"
proof -
  define i d where "i = last inos" and "d = w_data w (last inos)"
  have i: "fd_inode (fs_file s) = i" "fd_append (fs_file s) \<or> fd_pos (fs_file s) = length d"
    using assms(1) by (simp_all add: faulty_inv_def i_def d_def)
  have inos: "inos = butlast inos @ [i]" "gens = butlast gens @ [last gens]"
    using faulty_inv_inos [OF assms(1)] by (simp_all add: i_def)
  have f': "fd_inode f' = i" "fd_append f' \<or> fd_pos f' = length (d @ piece)"
    and w': "w_data w' = (w_data w)(i := d @ piece)" "w_dir w' = w_dir w" "w_next w' = w_next w"
    using assms(2) i by (auto simp: fs_put_def Let_def write_at_end d_def i_def split: if_splits)
  have "map (w_data w) (butlast inos @ [i]) = map concat (butlast gens @ [last gens])"
    using assms(1) inos by (simp add: faulty_inv_def)
  then have old: "map (w_data w) (butlast inos) = map concat (butlast gens)" "d = concat (last gens)"
    by (simp_all add: d_def i_def)
  have "distinct (butlast inos @ [i])" using assms(1) inos(1) by (simp add: faulty_inv_def)
  then have "map (w_data w') (butlast inos) = map concat (butlast gens)" 
    using old(1) w'(1) by (simp only: distinct_append) (metis (mono_tags, lifting) disjoint_insert(2) fun_upd_other list.set(2) map_cong)
  then have "map (w_data w') (butlast inos @ [i]) = map concat (butlast gens @ [last gens @ [piece]])"
    using old(2) w'(1) by simp
  then have "map (w_data w') inos = map concat (butlast gens @ [last gens @ [piece]])" using inos(1) by simp
  then show ?thesis
    using assms(1,3-5) f' w' by (simp add: faulty_inv_def aged_same [OF w'(2)] i_def d_def)
qed

lemma append_torn:
  assumes "faulty_inv s w gens inos" "file_append bs s w = (r, s', w')"
  obtains piece where "torn bs r piece" "faulty_inv s' w' (butlast gens @ [last gens @ [piece]]) inos"
    "fs_path s' = fs_path s" "fs_max_backups s' = fs_max_backups s"
proof (cases "syscall w")
  case (Pair fault w1)
  have inv1: "faulty_inv s w1 gens inos"
    using Pair by (intro faulty_inv_files [OF assms(1)]) (auto simp: syscall_def same_files_def)
  show thesis
  proof (cases fault)
    case None
    obtain f' w2 where put: "fs_put (fs_file s) bs w1 = (f', w2)" by (cases "fs_put (fs_file s) bs w1")
    then have "r = Inr ()" "s' = s\<lparr>fs_file := f', fs_size := fs_size s + word_of_nat (length bs)\<rparr>" "w' = w2"
      using assms(2) Pair None by (simp_all add: file_append_def fs_write_all_def)
    then show thesis using put_piece [OF inv1 put, of s'] that [of bs] by (simp add: torn_simps)
  next
    case (Some k)
    obtain f' w2 where put: "fs_put (fs_file s) (take k bs) w1 = (f', w2)"
      by (cases "fs_put (fs_file s) (take k bs) w1")
    then have "r = Inl OtherError" "s' = s\<lparr>fs_file := f'\<rparr>" "w' = w2"
      using assms(2) Pair Some by (simp_all add: file_append_def fs_write_all_def)
    then show thesis using put_piece [OF inv1 put, of s'] that [of "take k bs"] by (simp add: torn_simps)
  qed
qed

lemma rotate_finish_any:
  obtains w' st where "rotate_finish f s w = (Inr (), s\<lparr>fs_file := f, fs_size := 0, fs_interval_start := st\<rparr>, w')"
    "same_files w w'"
  using clock_now_files [of w "fs_clock s"]
  by (cases "clock_now (fs_clock s) w") (auto simp: rotate_finish_def Let_def)

text \<open>The open files after a rotation: a new one, or the old one emptied when there are no backups.\<close>

lemma open_append_new:
  assumes "fs_open_append p w = (r, w')" "w_dir w p = None"
  obtains (failed) e where "r = Inl e" "same_files w w'"
  | (opened) "r = Inr \<lparr>fd_inode = w_next w, fd_append = True, fd_pos = 0\<rparr>" "w_dir w' = (w_dir w)(p \<mapsto> w_next w)"
      "w_data w' = (w_data w)(w_next w := [])" "w_next w' = Suc (w_next w)"
proof (cases "w_fault w (w_calls w)")
  case None
  then show thesis using assms by (intro opened) (auto simp: fs_open_append_def syscall_def fs_lookup_create_def Let_def)
next
  case (Some k)
  then show thesis using assms by (intro failed) (auto simp: fs_open_append_def syscall_def same_files_def)
qed

lemma open_truncate_old:
  assumes "fs_open_truncate p w = (r, w')" "w_dir w p = Some i"
  obtains (failed) e where "r = Inl e" "same_files w w'"
  | (opened) "r = Inr \<lparr>fd_inode = i, fd_append = False, fd_pos = 0\<rparr>" "w_dir w' = w_dir w"
      "w_data w' = (w_data w)(i := [])" "w_next w' = w_next w"
proof (cases "w_fault w (w_calls w)")
  case None
  then show thesis using assms by (intro opened) (auto simp: fs_open_truncate_def syscall_def fs_lookup_create_def)
next
  case (Some k)
  then show thesis using assms by (intro failed) (auto simp: fs_open_truncate_def syscall_def same_files_def)
qed

lemma faulty_inv_new:
  assumes inv: "faulty_inv s w gens inos" and gone: "w_dir w (fs_path s) = None" and mb: "0 < fs_max_backups s"
    and w': "w_dir w' = (w_dir w)(fs_path s \<mapsto> w_next w)" "w_data w' = (w_data w)(w_next w := [])"
      "w_next w' = Suc (w_next w)"
    and s': "fd_inode (fs_file s') = w_next w" "fd_append (fs_file s')" "fs_path s' = fs_path s"
      "fs_max_backups s' = fs_max_backups s"
  shows "faulty_inv s' w' (gens @ [[]]) (inos @ [w_next w])"
proof -
  have old: "list_all (\<lambda>i. i < w_next w) inos" "distinct inos" "aged (fs_path s) (fs_max_backups s) inos w"
    using inv unfolding faulty_inv_def by blast+
  then have fresh: "w_next w \<notin> set inos" by (auto simp: list_all_iff)
  then have "map (w_data w') inos = map (w_data w) inos" by (auto simp: w'(2))
  then have "map (w_data w') (inos @ [w_next w]) = map concat (gens @ [[]])"
    using faulty_inv_data(2) [OF inv] by (simp add: w'(2))
  moreover have "list_all (\<lambda>i. i < w_next w') (inos @ [w_next w])" using old(1) by (auto simp: list_all_iff w'(3))
  moreover note aged_new [OF old(3) fresh gone w'(1)]
  ultimately show ?thesis using old(2) fresh s' mb w'(1) by (simp add: faulty_inv_def)
qed

lemma faulty_inv_emptied:
  assumes inv: "faulty_inv s w gens inos" and mb: "fs_max_backups s = 0"
    and w': "w_dir w' = w_dir w" "w_data w' = (w_data w)(last inos := [])" "w_next w' = w_next w"
    and s': "fd_inode (fs_file s') = last inos" "fd_pos (fs_file s') = 0" "fs_path s' = fs_path s"
      "fs_max_backups s' = fs_max_backups s"
  shows "faulty_inv s' w' [[]] [last inos]"
proof -
  have dir: "w_dir w (fs_path s) = Some (last inos)" and less: "list_all (\<lambda>i. i < w_next w) inos"
    using inv mb unfolding faulty_inv_def by blast+
  have "aged (fs_path s) 0 [last inos] w'"
    unfolding aged_def using dir w'(1) by (simp add: gen_path_def)
  then show ?thesis
    using dir less w' s' mb faulty_inv_inos(2) [OF inv] by (auto simp: faulty_inv_def list_all_iff)
qed

text \<open>What a rotation can come to: an error that leaves the sink as it was, or a new last generation.\<close>

definition rotated :: "file_sink \<Rightarrow> bytes list list \<Rightarrow> nat list \<Rightarrow> unit io_result \<times> file_sink \<times> world \<Rightarrow> bool" where
  "rotated s gens inos out = (case out of
     (Inl e, s', w') \<Rightarrow> s' = s \<and> faulty_inv s w' gens inos
   | (Inr _, s', w') \<Rightarrow> fs_path s' = fs_path s \<and> fs_max_backups s' = fs_max_backups s \<and>
       ((\<exists>i. faulty_inv s' w' (gens @ [[]]) (inos @ [i])) \<or> faulty_inv s' w' [[]] [last inos]))"

lemma rotated_finish:
  assumes "\<And>s'. fs_file s' = f \<Longrightarrow> fs_path s' = fs_path s \<Longrightarrow> fs_max_backups s' = fs_max_backups s \<Longrightarrow>
      (\<exists>i. faulty_inv s' w (gens @ [[]]) (inos @ [i])) \<or> faulty_inv s' w [[]] [last inos]"
  shows "rotated s gens inos (rotate_finish f s w)"
proof -
  obtain w' st where fin: "rotate_finish f s w = (Inr (), s\<lparr>fs_file := f, fs_size := 0, fs_interval_start := st\<rparr>, w')"
      "same_files w w'" by (rule rotate_finish_any)
  have "(\<exists>i. faulty_inv (s\<lparr>fs_file := f, fs_size := 0, fs_interval_start := st\<rparr>) w' (gens @ [[]]) (inos @ [i])) \<or>
      faulty_inv (s\<lparr>fs_file := f, fs_size := 0, fs_interval_start := st\<rparr>) w' [[]] [last inos]"
    using assms [of "s\<lparr>fs_file := f, fs_size := 0, fs_interval_start := st\<rparr>"] faulty_inv_files [OF _ fin(2)] by auto
  then show ?thesis by (simp add: rotated_def fin(1))
qed

lemma rotated_backups:
  assumes inv: "faulty_inv s w gens inos" and mb: "0 < fs_max_backups s"
  shows "rotated s gens inos (case shift_backups s w of
      (Inl e, w) \<Rightarrow> (Inl e, s, w)
    | (Inr _, w) \<Rightarrow> (case fs_open_append (fs_path s) w of
        (Inl e, w) \<Rightarrow> (Inl e, s, w) | (Inr f, w) \<Rightarrow> rotate_finish f s w))"
proof -
  obtain r2 w2 where sh: "shift_backups s w = (r2, w2)" by (cases "shift_backups s w")
  have aged: "aged (fs_path s) (fs_max_backups s) inos w"
      "w_dir w (fs_path s) = None \<or> w_dir w (fs_path s) = Some (last inos)"
    using inv unfolding faulty_inv_def by blast+
  note sh' = shift_backups_aged [OF aged(1) mb sh]
  have inv2: "faulty_inv s w2 gens inos"
    using inv sh'(1-3,5) aged(2) mb unfolding faulty_inv_def by auto
  show ?thesis
  proof (cases r2)
    case (Inl e)
    then show ?thesis using inv2 by (simp add: rotated_def sh)
  next
    case (Inr u)
    then have gone: "w_dir w2 (fs_path s) = None" using sh'(4) by (simp add: is_ok_def)
    obtain r3 w3 where op: "fs_open_append (fs_path s) w2 = (r3, w3)" by (cases "fs_open_append (fs_path s) w2")
    show ?thesis
    proof (cases rule: open_append_new [OF op gone])
      case (1 e)
      then show ?thesis using faulty_inv_files [OF inv2] by (simp add: rotated_def sh Inr op)
    next
      case 2
      then show ?thesis
        using faulty_inv_new [OF inv2 gone mb 2(2-4)]
        by (auto simp: sh Inr op intro!: rotated_finish disjI1 exI [of _ "w_next w2"])
    qed
  qed
qed

lemma rotated_single:
  assumes inv: "faulty_inv s w gens inos" and mb: "fs_max_backups s = 0"
  shows "rotated s gens inos (case fs_open_truncate (fs_path s) w of
      (Inl e, w) \<Rightarrow> (Inl e, s, w) | (Inr f, w) \<Rightarrow> rotate_finish f s w)"
proof -
  have dir: "w_dir w (fs_path s) = Some (last inos)" using inv mb unfolding faulty_inv_def by blast
  obtain r3 w3 where op: "fs_open_truncate (fs_path s) w = (r3, w3)" by (cases "fs_open_truncate (fs_path s) w")
  show ?thesis
  proof (cases rule: open_truncate_old [OF op dir])
    case (1 e)
    then show ?thesis using faulty_inv_files [OF inv] by (simp add: rotated_def op)
  next
    case 2
    then show ?thesis
      using faulty_inv_emptied [OF inv mb 2(2-4)] by (auto simp: op intro!: rotated_finish)
  qed
qed

lemma rotate_torn:
  assumes inv: "faulty_inv s w gens inos" and run: "rotate_file s w = (r, s', w')"
  obtains (failed) e where "r = Inl e" "s' = s" "faulty_inv s w' gens inos"
  | (fresh) i where "r = Inr ()" "faulty_inv s' w' (gens @ [[]]) (inos @ [i])" "fs_path s' = fs_path s"
      "fs_max_backups s' = fs_max_backups s"
  | (emptied) "r = Inr ()" "faulty_inv s' w' [[]] [last inos]" "fs_path s' = fs_path s"
      "fs_max_backups s' = fs_max_backups s"
proof -
  define w1 where "w1 = snd (fs_sync_all (fs_file s) w)"
  have inv1: "faulty_inv s w1 gens inos"
    using faulty_inv_files [OF inv fs_sync_all_files] by (simp add: w1_def)
  have "rotated s gens inos (rotate_file s w)"
    unfolding rotate_file_def fs_flush_def prod.case sum.case Let_def w1_def [symmetric]
    using rotated_backups [OF inv1] rotated_single [OF inv1] by simp
  then show thesis using run failed fresh emptied by (cases r) (auto simp: rotated_def)
qed

text \<open>One record: the generations given up, if any, and what it adds.\<close>

lemma concat_snoc_piece: "gens \<noteq> [] \<Longrightarrow> concat (butlast gens @ [last gens @ [piece]]) = concat gens @ [piece]"
  by (metis append_butlast_last_id append.assoc concat.simps concat_append append_Nil2)

lemma faulty_inv_empty_piece:
  assumes "faulty_inv s w gens inos"
  shows "faulty_inv s w (butlast gens @ [last gens @ [[]]]) inos"
proof -
  have "map concat (butlast gens @ [last gens @ [[]]]) = map concat (butlast gens @ [last gens])" by simp
  then show ?thesis using assms faulty_inv_inos(3) [OF assms] unfolding faulty_inv_def by simp
qed

lemma write_torn:
  assumes inv: "faulty_inv s w gens inos" and run: "file_write_bytes bs s w = (r, s', w')"
  obtains piece dead gens' inos' where "torn bs r piece" "faulty_inv s' w' gens' inos'"
    "concat (dead @ gens') = concat gens @ [piece]" "fs_path s' = fs_path s" "fs_max_backups s' = fs_max_backups s"
proof -
  obtain due w1 where due: "(if size_hit s bs then (True, w) else interval_elapsed s w) = (due, w1)"
    by (cases "if size_hit s bs then (True, w) else interval_elapsed s w")
  then have "same_files w w1" using interval_elapsed_files [of w s] by (auto split: if_splits)
  note inv1 = faulty_inv_files [OF inv this]
  have ne: "gens \<noteq> []" by (rule faulty_inv_inos(3) [OF inv])
  show thesis
  proof (cases due)
    case False
    then have "file_append bs s w1 = (r, s', w')" using run due by (simp add: file_write_bytes_def)
    then obtain piece where "torn bs r piece" "faulty_inv s' w' (butlast gens @ [last gens @ [piece]]) inos"
        "fs_path s' = fs_path s" "fs_max_backups s' = fs_max_backups s"
      by (rule append_torn [OF inv1])
    then show thesis using concat_snoc_piece [OF ne, of piece] by (intro that [where dead = "[]"]) auto
  next
    case True
    obtain r2 s2 w2 where rot: "rotate_file s w1 = (r2, s2, w2)" by (cases "rotate_file s w1")
    show thesis
    proof (cases rule: rotate_torn [OF inv1 rot])
      case (1 e)
      have "faulty_inv s w2 (butlast gens @ [last gens @ [[]]]) inos" by (rule faulty_inv_empty_piece [OF 1(3)])
      then show thesis
        using run due True rot 1 concat_snoc_piece [OF ne, of "[]"]
        by (intro that [of "[]" _ inos "[]"]) (auto simp: file_write_bytes_def torn_simps)
    next
      case (2 i)
      then have "file_append bs s2 w2 = (r, s', w')" using run due True rot by (simp add: file_write_bytes_def)
      then obtain piece where "torn bs r piece" "faulty_inv s' w' (butlast (gens @ [[]]) @ [last (gens @ [[]]) @ [piece]]) (inos @ [i])"
          "fs_path s' = fs_path s2" "fs_max_backups s' = fs_max_backups s2"
        by (rule append_torn [OF 2(2)])
      then show thesis using 2(3,4) by (intro that [where dead = "[]"]) auto
    next
      case 3
      then have "file_append bs s2 w2 = (r, s', w')" using run due True rot by (simp add: file_write_bytes_def)
      then obtain piece where "torn bs r piece" "faulty_inv s' w' (butlast [[]] @ [last [[]] @ [piece]]) [last inos]"
          "fs_path s' = fs_path s2" "fs_max_backups s' = fs_max_backups s2"
        by (rule append_torn [OF 3(2)])
      then show thesis using 3(3,4) by (intro that [of piece "[[piece]]" "[last inos]" gens]) auto
    qed
  qed
qed

text \<open>A sequence of records.\<close>

lemma writes_torn:
  "faulty_inv s w gens inos \<Longrightarrow> file_writes bss s w = (rs, s', w') \<Longrightarrow>
   \<exists>pieces dead gens' inos'. length rs = length bss \<and> list_all2 (\<lambda>(bs, r). torn bs r) (zip bss rs) pieces \<and>
     faulty_inv s' w' gens' inos' \<and> concat (dead @ gens') = concat gens @ pieces \<and>
     fs_path s' = fs_path s \<and> fs_max_backups s' = fs_max_backups s"
proof (induction bss arbitrary: s w gens inos rs)
  case Nil
  then show ?case
    by (intro exI [of _ "[]"] exI [of _ "[]"] exI [of _ gens] exI [of _ inos]) simp
next
  case (Cons bs bss)
  obtain r s1 w1 rs1 where 1: "file_write_bytes bs s w = (r, s1, w1)" "file_writes bss s1 w1 = (rs1, s', w')"
      "rs = r # rs1"
    using Cons.prems(2) by (auto split: prod.splits)
  obtain piece dead1 gens1 inos1 where 2: "torn bs r piece" "faulty_inv s1 w1 gens1 inos1"
      "concat (dead1 @ gens1) = concat gens @ [piece]" "fs_path s1 = fs_path s" "fs_max_backups s1 = fs_max_backups s"
    by (rule write_torn [OF Cons.prems(1) 1(1)])
  from Cons.IH [OF 2(2) 1(2)] obtain pieces dead2 gens' inos' where 3:
      "length rs1 = length bss" "list_all2 (\<lambda>(bs, r). torn bs r) (zip bss rs1) pieces" "faulty_inv s' w' gens' inos'"
      "concat (dead2 @ gens') = concat gens1 @ pieces" "fs_path s' = fs_path s1" "fs_max_backups s' = fs_max_backups s1"
    by blast
  have "concat ((dead1 @ dead2) @ gens') = concat dead1 @ concat gens1 @ pieces" using 3(4) by simp
  also have "\<dots> = concat gens @ piece # pieces" using 2(3) by (simp flip: append.assoc)
  finally have "concat ((dead1 @ dead2) @ gens') = concat gens @ piece # pieces" .
  moreover have "list_all2 (\<lambda>(bs, r). torn bs r) (zip (bs # bss) rs) (piece # pieces)"
    using 2(1) 3(2) 1(3) by simp
  ultimately show ?case
    using 1(3) 2(4,5) 3(1,3,5,6)
    by (intro exI [of _ "piece # pieces"] exI [of _ "dead1 @ dead2"] exI [of _ gens'] exI [of _ inos']) simp
qed

text \<open>Opening on a new path, whatever fails on the way, as long as it returns a sink.\<close>

lemma open_with_faulty:
  assumes none: "\<forall>k \<le> mb. w_dir w (gen_path p k) = None" and op: "open_with p ms mb iv c w = (Inr s, w')"
  shows "\<exists>i. faulty_inv s w' [[]] [i]" "fs_path s = p" "fs_max_backups s = mb"
proof -
  obtain made w1 where made: "(case path_parent p of
     Some parent \<Rightarrow> if parent \<noteq> [] then fs_create_dir_all parent w else (Inr (), w) | None \<Rightarrow> (Inr (), w)) = (made, w1)"
    by (cases "case path_parent p of
     Some parent \<Rightarrow> if parent \<noteq> [] then fs_create_dir_all parent w else (Inr (), w) | None \<Rightarrow> (Inr (), w)")
  have "same_files w w1" 
    using made fs_create_dir_all_files [of w "the (path_parent p)"] by (auto split: option.splits if_splits)
  then have none1: "\<And>k. k \<le> mb \<Longrightarrow> w_dir w1 (gen_path p k) = None" using none by (simp add: same_files_def)
  then have gone: "w_dir w1 p = None" using none1 [of 0] by (simp add: gen_path_def)
  obtain r2 w2 where r2: "fs_open_append p w1 = (r2, w2)" by (cases "fs_open_append p w1")
  obtain r3 w3 where r3: "fs_metadata (case r2 of Inr f \<Rightarrow> f) w2 = (r3, w3)" by (cases "fs_metadata (case r2 of Inr f \<Rightarrow> f) w2")
  obtain st w4 where r4: "interval_start_for (case r2 of Inr f \<Rightarrow> f) iv c w3 = (st, w4)" "same_files w3 w4"
    by (rule interval_start_for_any)
  note run = op [unfolded open_with_def made Let_def, simplified]
  have ok: "made = Inr ()" using run by (cases made) auto
  show "\<exists>i. faulty_inv s w' [[]] [i]"
  proof (cases rule: open_append_new [OF r2 gone])
    case (1 e)
    then show ?thesis using run ok r2 by simp
  next
    case 2
    let ?f = "\<lparr>fd_inode = w_next w1, fd_append = True, fd_pos = 0\<rparr>"
    have res: "fs_file s = ?f" "fs_path s = p" "fs_max_backups s = mb" "w' = w4"
      using run ok r2 r3 r4(1) 2(1) by auto
    have "same_files w2 w3" using fs_metadata_files [of w2 ?f] r3 2(1) by simp
    then have same: "same_files w2 w4" using same_files_trans r4(2) by blast
    have dir: "w_dir w2 (gen_path p k) = (if k = 0 then Some (w_next w1) else None)" if "k \<le> mb" for k
      using none1 [OF that] 2(2) by (auto simp: gen_path_def)
    have "aged p mb [w_next w1] w2"
      unfolding aged_def using dir by auto
    then have "faulty_inv s w2 [[]] [w_next w1]"
      using res 2 dir [of 0] by (simp add: faulty_inv_def gen_path_def)
    then show ?thesis using faulty_inv_files [OF _ same] res(4) by blast
  qed
  show "fs_path s = p" "fs_max_backups s = mb" using open_with_config [OF op] by simp_all
qed

subsection \<open>Properties\<close>

text \<open>The generation behind each name that exists.\<close>

lemma faulty_inv_ages:
  assumes inv: "faulty_inv s w gens inos"
  obtains age where
    "\<And>k x. k \<le> fs_max_backups s \<Longrightarrow> generation s w k = Some x \<Longrightarrow> age k < length gens \<and> x = concat (gens ! age k)"
    "\<And>j k. j < k \<Longrightarrow> k \<le> fs_max_backups s \<Longrightarrow> generation s w j \<noteq> None \<Longrightarrow> generation s w k \<noteq> None \<Longrightarrow>
       age k < age j"
    "generation s w 0 \<noteq> None \<Longrightarrow> age 0 = length gens - 1"
proof -
  let ?p = "fs_path s" and ?mb = "fs_max_backups s"
  have ag: "aged ?p ?mb inos w" and dist: "distinct inos"
    and act: "w_dir w ?p = None \<or> w_dir w ?p = Some (last inos)"
    using inv unfolding faulty_inv_def by blast+
  have len: "length inos = length gens" "inos \<noteq> []" using faulty_inv_inos [OF inv] by blast+
  have "\<exists>a. w_dir w (gen_path ?p k) \<noteq> None \<longrightarrow> k \<le> ?mb \<longrightarrow> a < length inos \<and> w_dir w (gen_path ?p k) = Some (inos ! a)" for k
    using aged_in [OF ag, of k] by (auto simp: in_set_conv_nth)
  then obtain age where age: "\<And>k. w_dir w (gen_path ?p k) \<noteq> None \<Longrightarrow> k \<le> ?mb \<Longrightarrow>
      age k < length inos \<and> w_dir w (gen_path ?p k) = Some (inos ! age k)"
    by metis
  have some: "generation s w k \<noteq> None \<longleftrightarrow> w_dir w (gen_path ?p k) \<noteq> None" for k by (simp add: generation_def)
  show thesis
  proof (rule that)
    fix k x assume k: "k \<le> ?mb" "generation s w k = Some x"
    then have a: "age k < length inos" "w_dir w (gen_path ?p k) = Some (inos ! age k)"
      using age [of k] some [of k] by auto
    have "w_data w (inos ! age k) = concat (gens ! age k)"
      using arg_cong [OF faulty_inv_data(2) [OF inv], of "\<lambda>l. l ! age k"] a(1) len(1) by simp
    then show "age k < length gens \<and> x = concat (gens ! age k)"
      using a k(2) len(1) by (simp add: generation_def)
  next
    fix j k assume jk: "j < k" "k \<le> ?mb" "generation s w j \<noteq> None" "generation s w k \<noteq> None"
    then have "j \<le> ?mb" by simp
    have "age j < length inos" "w_dir w (gen_path ?p j) = Some (inos ! age j)"
      using age [of j] some [of j] jk(3) \<open>j \<le> ?mb\<close> by blast+
    moreover have "age k < length inos" "w_dir w (gen_path ?p k) = Some (inos ! age k)"
      using age [of k] some [of k] jk(2,4) by blast+
    ultimately show "age k < age j" using aged_order [OF ag jk(1,2)] by blast
  next
    assume "generation s w 0 \<noteq> None"
    then have "age 0 < length inos" "inos ! age 0 = last inos"
      using age [of 0] some [of 0] act by (auto simp: gen_path_def)
    then show "age 0 = length gens - 1"
      using dist len by (simp add: last_conv_nth nth_eq_iff_index_eq)
  qed
qed

text \<open>Claim C7: whatever calls fail and when (the writes of some bytes only, renames, removals, opens,
  metadata), a file sink opened on a new path never scrambles its files. Every record it accepts is whole
  and every record it refuses leaves at most a prefix of itself, in the order written; what the current
  file and every existing name hold are generations of that stream; the active name is the newest one
  and a backup with a higher number is strictly older.\<close>

theorem failing_calls_never_scramble_files:
  assumes "\<forall>k \<le> mb. w_dir w (gen_path p k) = None" "open_with p ms mb iv c w = (Inr s0, w0)"
    "file_writes bss s0 w0 = (rs, s, w')"
  shows "\<exists>gens age. length rs = length bss \<and> list_all2 (\<lambda>(bs, r). torn bs r) (zip bss rs) (concat gens) \<and>
    w_data w' (fd_inode (fs_file s)) = concat (last gens) \<and>
    (\<forall>k \<le> mb. \<forall>x. generation s w' k = Some x \<longrightarrow> age k < length gens \<and> x = concat (gens ! age k)) \<and>
    (\<forall>j k. j < k \<longrightarrow> k \<le> mb \<longrightarrow> generation s w' j \<noteq> None \<longrightarrow> generation s w' k \<noteq> None \<longrightarrow> age k < age j) \<and>
    (generation s w' 0 \<noteq> None \<longrightarrow> age 0 = length gens - 1)"
proof -
  obtain i where start: "faulty_inv s0 w0 [[]] [i]" "fs_max_backups s0 = mb"
    using open_with_faulty [OF assms(1,2)] by blast
  obtain pieces dead gens inos where run: "length rs = length bss"
      "list_all2 (\<lambda>(bs, r). torn bs r) (zip bss rs) pieces" "faulty_inv s w' gens inos"
      "concat (dead @ gens) = concat [[]] @ pieces" "fs_max_backups s = mb"
    using writes_torn [OF start(1) assms(3)] start(2) by metis
  obtain age where age:
    "\<And>k x. k \<le> mb \<Longrightarrow> generation s w' k = Some x \<Longrightarrow> age k < length gens \<and> x = concat (gens ! age k)"
    "\<And>j k. j < k \<Longrightarrow> k \<le> mb \<Longrightarrow> generation s w' j \<noteq> None \<Longrightarrow> generation s w' k \<noteq> None \<Longrightarrow> age k < age j"
    "generation s w' 0 \<noteq> None \<Longrightarrow> age 0 = length gens - 1"
    using faulty_inv_ages [OF run(3), unfolded run(5)] by blast
  have gens: "gens \<noteq> []" by (rule faulty_inv_inos(3) [OF run(3)])
  have "w_data w' (fd_inode (fs_file s)) = concat (last gens)"
    using faulty_inv_last [OF run(3)] run(3) unfolding faulty_inv_def by metis
  then have last: "w_data w' (fd_inode (fs_file s)) = concat (last (dead @ gens))" using gens by simp
  let ?age = "\<lambda>k. length dead + age k"
  have "?age k < length (dead @ gens) \<and> x = concat ((dead @ gens) ! ?age k)"
    if "k \<le> mb" "generation s w' k = Some x" for k x
    using age(1) [OF that] by (simp add: nth_append)
  moreover have "?age k < ?age j"
    if "j < k" "k \<le> mb" "generation s w' j \<noteq> None" "generation s w' k \<noteq> None" for j k
    using age(2) [OF that] by simp
  moreover have "?age 0 = length (dead @ gens) - 1" if "generation s w' 0 \<noteq> None"
    using age(3) [OF that] gens by (cases gens) simp_all
  moreover have "list_all2 (\<lambda>(bs, r). torn bs r) (zip bss rs) (concat (dead @ gens))"
    using run(2,4) by simp
  ultimately show ?thesis
    using run(1) last by (intro exI [of _ "dead @ gens"] exI [of _ ?age]) blast
qed

text \<open>The second of three writes stops after one byte.\<close>

definition torn_world :: world where
  "torn_world = quiet_world\<lparr>w_fault := (\<lambda>k. if k = 3 then Some 1 else None)\<rparr>"

theorem failing_calls_never_scramble_files_witness:
  "\<exists>s0 w0 s w' gens. open_with (lit ''a'') 0 1 Never System torn_world = (Inr s0, w0) \<and>
    file_writes [[1, 2], [3, 4], [5]] s0 w0 = ([Inr (), Inl OtherError, Inr ()], s, w') \<and>
    list_all2 (\<lambda>(bs, r). torn bs r) (zip [[1, 2], [3, 4], [5]] [Inr (), Inl OtherError, Inr ()]) (concat gens) \<and>
    w_data w' (fd_inode (fs_file s)) = concat (last gens) \<and> w_data w' (fd_inode (fs_file s)) = [1, 2, 3, 5]"
proof -
  obtain s0 w0 s w' where op: "open_with (lit ''a'') 0 1 Never System torn_world = (Inr s0, w0)"
    and wr: "file_writes [[1, 2], [3, 4], [5]] s0 w0 = ([Inr (), Inl OtherError, Inr ()], s, w')"
    and data: "w_data w' (fd_inode (fs_file s)) = [1, 2, 3, 5]"
    by (simp add: open_with_def path_parent_def path_components_def fs_open_append_def fs_lookup_create_def
        fs_metadata_def interval_start_for_def clock_now_def system_now_def slot_start_def
        file_write_bytes_def size_hit_def interval_elapsed_def file_append_def
        fs_write_all_def fs_put_def syscall_def torn_world_def quiet_world_def Let_def)
  have "\<forall>k \<le> 1. w_dir torn_world (gen_path (lit ''a'') k) = None"
    by (simp add: torn_world_def quiet_world_def)
  from failing_calls_never_scramble_files [OF this op wr] obtain gens where
    "list_all2 (\<lambda>(bs, r). torn bs r) (zip [[1, 2], [3, 4], [5]] [Inr (), Inl OtherError, Inr ()]) (concat gens)"
    "w_data w' (fd_inode (fs_file s)) = concat (last gens)"
    by blast
  with op wr data show ?thesis by blast
qed

end
