(* ===== verification/Spec2Isabelle.thy ===== *)
theory Spec2Isabelle
  imports Xos_Macros Xos_Degradation Xos_Faults
begin

text \<open>
  Verification development for \<open>xoslog\<close>, an asynchronous logging library written in Rust
  (\<open>src/src/*.rs\<close>).

  \<^bold>\<open>The program.\<close> Callers on any number of threads hand records to a \<open>Logger\<close> (\<open>logger.rs\<close>). It checks its
  closed flag and its filter (\<open>filter.rs\<close>, levels from \<open>level.rs\<close>), stamps the record with the clock
  (\<open>time.rs\<close>) and the context of the calling thread (\<open>context.rs\<close>), and sends it, under a mutex, over a
  bounded queue to one writer thread. The writer formats each record once, as text or JSON (\<open>json.rs\<close>),
  and gives it to every sink whose level it reaches: standard streams, rotating files (\<open>sink.rs\<close>), the
  local syslog daemon or a remote one (\<open>syslog.rs\<close>), or a sink of the caller. A sink that fails eight
  times in a row is replaced by standard error; a flush that unwinds does that to every sink. The builder (\<open>logger.rs\<close>) configures all this.

  \<^bold>\<open>Theories and code.\<close>
  \<^item> \<open>Xos_Prelude\<close>, \<open>Xos_Str\<close>, \<open>Xos_Utf8\<close>: results as sums, casts, keyed lists (locale
    \<open>keyed_store\<close>); strings as lists of code points with the operations of \<open>str\<close> the crate uses;
    UTF-8 with a lossy decoder.
  \<^item> \<open>Xos_Level\<close> (\<open>level.rs\<close>), \<open>Xos_Filter\<close> (\<open>filter.rs\<close>), \<open>Xos_Time\<close> (\<open>time.rs\<close>), \<open>Xos_Entry\<close>
    (\<open>entry.rs\<close>; \<open>Xos_Float\<close> for the display of floats), \<open>Xos_Context\<close> (\<open>context.rs\<close>), \<open>Xos_Json\<close>
    (\<open>json.rs\<close>): the pure parts, one definition per function, and thread-local stacks as a map from
    threads.
  \<^item> \<open>Xos_World\<close>: clock, files with inodes and handles, standard streams, sockets. Every call takes
    its fate from a sequence of failures and every reading of the clock from a sequence of times, and
    theorems quantify over both.
  \<^item> \<open>Xos_Rotation\<close>, \<open>Xos_Sink\<close> (\<open>sink.rs\<close>), \<open>Xos_Syslog\<close> (\<open>syslog.rs\<close>): intervals, \<open>FileSink\<close> with
    rotation and backups, packets and delivery with reconnection. \<open>Xos_Faults\<close>: the files of a \<open>FileSink\<close>
    under calls that fail at any moment.
  \<^item> \<open>Xos_Writer\<close>, \<open>Xos_Delivery\<close> (\<open>writer_loop\<close>, \<open>handle_message\<close>, slots): the writer thread, with
    calls that unwind as outcomes; the contract of a sink is the locale \<open>sink_contract\<close>, discharged for
    each sink of the crate and for the dispatch on boxed sinks.
  \<^item> \<open>Xos_Channel\<close>: the bounded queue of the standard library, with its laws as the locale
    \<open>fifo_channel\<close>.
  \<^item> \<open>Xos_Logger\<close> (\<open>Logger\<close>, \<open>Inner\<close>): the state shared by the clones, the position of every thread in
    its call, the queue and the writer, and the relation \<open>lstep\<close> of their interleavings: one step per
    piece of a call between two points another thread can observe. \<open>Xos_Concurrency\<close>: its invariants.
    \<open>Xos_Guarantees\<close>: what follows from them. \<open>Xos_Fanout\<close>: one sink of many, seen through the runs of a
    process. \<open>Xos_Degradation\<close>: when a slot is degraded and where its records go then, over the same runs; the
    turns of the writer along a run are its events (\<open>run_events\<close>). \<open>Xos_Shutdown\<close>, \<open>Xos_Aftermath\<close>: how the writer thread ends, when \<open>shutdown\<close> returns and what
    happens to records sent later. \<open>Xos_Sequential\<close>: the whole logger against the sequential
    \<open>writer_loop\<close>. \<open>Xos_Fairness\<close>: infinite runs under a fair scheduler. \<open>Xos_Validity\<close>: the typing of the strings in the state of a process.
  \<^item> \<open>Xos_Builder\<close> (\<open>LoggerBuilder\<close>, \<open>build\<close>), with the properties from the builder to the files, and
    \<open>Xos_Global\<close> (\<open>global\<close>, \<open>set_global\<close>, \<open>init_default\<close>, the convenience methods and the macros).
  \<^item> \<open>Xos_Pipeline\<close>: all parts together, from the builder to a program that reads the files back.
    \<open>Xos_Outputs\<close>: the same for standard output and for the syslog sinks, with a server that reads the
    datagrams. What these sinks promise while no call fails is the locale \<open>lossless_sink\<close>; a logger over such
    a sink is the locale \<open>lossless_logger\<close>, interpreted on \<open>StdoutSink\<close>, \<open>SyslogSink\<close> and \<open>RemoteSyslogSink\<close>.
    (Standard error has no such promise: the logger itself writes to it.)
  \<^item> \<open>Xos_Macros\<close>: the default use of the crate, from \<open>init_default\<close> and a call of one of the five macros
    (\<open>level_macros\<close>) to the line on standard output.

  \<^bold>\<open>What the lemmas show.\<close>
  \<^item> Functional correctness against independent specifications: the filter against nearest ancestors
    in the module tree (the parts before each \<open>::\<close>), dates against the Gregorian calendar, slots against interval boundaries and the
    calendar, contexts against open scopes, builder calls against the last setting given.
  \<^item> Round trips: filters, timestamps, JSON lines (with a reader of JSON), syslog packets, level names, and
    the whole way from the callers through the writer and the rotated files to a reader of the log, or
    over the network to a syslog server.
  \<^item> Types: integers converted at their width; strings that stay sequences of Unicode scalar values from
    the callers to the bytes in the sinks.
  \<^item> Files: as long as no call fails the active file and its backups are the last generations of the
    record stream (\<open>gens_inv\<close>), whole and in order, within the size limit (\<open>gens_bounded\<close>), also over
    restarts of the program; the next generation is begun only by a record that does not fit (\<open>gens_tight\<close>) or
    after the clock was read in a later slot of the interval (\<open>gens_due\<close>), so nothing is deleted early. When
    calls do fail: accepted records stay whole, refused ones leave a prefix at most, the names stay in the
    order of age; which failures are permanent and what they delete.
  \<^item> Delivery: degradation after exactly eight failures of a sink in a row, or when a flush unwinds in a turn of
    the writer, and by nothing else; from then on diversion to standard error in every interleaving while no
    call fails; exactly one datagram per successful delivery whatever fails; and a healthy sink that gets every
    record as long as no flush of a caller's sink unwinds.
  \<^item> Concurrency, by invariants over all reachable states: every run refines the sequential loop; no record
    lost, repeated or reordered; what an acknowledged flush guarantees, down to the content of the files, of
    standard output and of the datagrams; absence of deadlock; the end of the writer when the last clone is
    dropped, within a bounded number of its steps; a \<open>shutdown\<close> that returns only after the end, which comes
    at the first request whose flush does not unwind (the first of all when none does), and
    standard error as the place of every record sent after it; and where the promises of the documentation
    do not hold: a record lost in a race with shutdown, a caller that blocks under \<open>DropNewest\<close>, a flush
    that unwinds.
  \<^item> Liveness, over infinite runs: under a scheduler that is fair to the writer thread as long as it can go
    on, and to each thread that can go on again and again (a thread waiting for a mutex needs that), every
    call of \<open>log\<close> and \<open>flush\<close> returns, \<open>shutdown\<close> too unless a flush unwinds, and every record sent before a
    request to shut down is handled and printed, flushed or not. A macro call prints its line exactly when the
    filter of the environment admits its level, while nobody shuts the logger down.

  \<^bold>\<open>Bounds.\<close> No definition that models code uses fuel: loops are structural recursions or terminate by a
  measure, \<open>writer_loop\<close> recurses over the messages that arrive before the disconnection, and \<open>lstep\<close> has no
  bound on its runs. Only the JSON reader, a specification, takes fuel: the length of the text, of which
  every member takes at least one character. Theorems about file
  sizes assume less than \<open>2^64\<close> bytes in all, since the size of a file is a \<open>u64\<close>; those about dates assume
  years an \<open>i32\<close> can hold.

  \<^bold>\<open>Not modelled.\<close> \<open>lib.rs\<close> holds documentation and re-exports only. Test-only code (\<open>with_clock\<close>,
  \<open>set_now\<close>, the test modules) is left out. Atomic operations are taken as sequentially consistent;
  poisoning of mutexes appears only as far as \<open>tx_guard\<close> ignores it. Directories, permissions and other
  processes that write the log file are outside the model of files; names are resolved by a parameter.
  The formatting of the arguments of \<open>log!\<close> is done by the standard library and is an argument.
  The operations of a sink of the caller are total functions on its state and the world: one that never
  returns, or that logs through the same logger from the writer thread, is outside the model.
\<close>

end
